(* ===== verification/Prelude.thy ===== *)
theory Prelude
  imports Main "HOL-Library.Word" "HOL-Library.Monad_Syntax"
begin

text \<open>
  Shared vocabulary of the development: the machine arithmetic of \<open>std::size_t\<close>, bounds-checked
  block memory (\<open>memcpy\<close> and \<open>memmove\<close> as partial functions, an access outside the object being
  \<^const>\<open>None\<close>), and the theory of circular windows over an array on which both ring buffers of the
  program rest.
\<close>

named_theorems size_t_simps \<open>size_t arithmetic that does not wrap\<close>
named_theorems mem_simps \<open>block memory accesses that stay inside the object\<close>

section \<open>The arithmetic of \<open>std::size_t\<close>\<close>

text \<open>
  A \<open>size_t\<close> is a \<^typ>\<open>nat\<close> below \<open>2 ^ 64\<close>; the operators of the source wrap, and the wrap is
  written out.
\<close>

type_synonym size_t = nat

abbreviation size_mod :: nat where
  "size_mod \<equiv> 18446744073709551616"

definition szadd :: "size_t \<Rightarrow> size_t \<Rightarrow> size_t" where
  "szadd a b = (a + b) mod size_mod"

definition szsub :: "size_t \<Rightarrow> size_t \<Rightarrow> size_t" where
  "szsub a b = (a + size_mod - b) mod size_mod"

definition szmul :: "size_t \<Rightarrow> size_t \<Rightarrow> size_t" where
  "szmul a b = (a * b) mod size_mod"

lemma szadd_small [size_t_simps]: "a + b < size_mod \<Longrightarrow> szadd a b = a + b"
  by (simp add: szadd_def)

lemma szmul_small [size_t_simps]: "a * b < size_mod \<Longrightarrow> szmul a b = a * b"
  by (simp add: szmul_def)

lemma szsub_small [size_t_simps]:
  assumes "b \<le> a" "a < size_mod"
  shows "szsub a b = a - b"
proof -
  have "a + size_mod - b = (a - b) + size_mod"
    using assms by simp
  then have "(a + size_mod - b) mod size_mod = (a - b) mod size_mod"
    by (metis mod_add_self2)
  then show ?thesis
    using assms by (simp add: szsub_def)
qed

lemma szsub_wrap:
  assumes "a < b" "b < size_mod"
  shows "szsub a b = a + size_mod - b"
  using assms by (simp add: szsub_def)

lemma szadd_bound [simp]: "szadd a b < size_mod"
  by (simp add: szadd_def)

lemma szsub_bound [simp]: "szsub a b < size_mod"
  by (simp add: szsub_def)

lemma szadd_wrap:
  assumes "size_mod \<le> a + b" "a < size_mod" "b < size_mod"
  shows "szadd a b = a + b - size_mod"
proof -
  have "a + b = (a + b - size_mod) + size_mod"
    using assms by simp
  then have "(a + b) mod size_mod = (a + b - size_mod) mod size_mod"
    by (metis mod_add_self2)
  then show ?thesis
    using assms by (simp add: szadd_def)
qed

section \<open>Block memory\<close>

text \<open>
  \<open>mem_read m off n\<close> and \<open>mem_write m off xs\<close> are the two halves of \<open>std::memcpy\<close> on an object
  of \<open>length m\<close> elements. An access that leaves the object is undefined behaviour in the source
  and \<^const>\<open>None\<close> here, so a theorem that an operation returns \<^const>\<open>Some\<close> is a memory-safety
  theorem.
\<close>

definition mem_read :: "'a list \<Rightarrow> size_t \<Rightarrow> size_t \<Rightarrow> 'a list option" where
  "mem_read m off n = (if off + n \<le> length m then Some (take n (drop off m)) else None)"

definition mem_write :: "'a list \<Rightarrow> size_t \<Rightarrow> 'a list \<Rightarrow> 'a list option" where
  "mem_write m off xs =
     (if off + length xs \<le> length m
      then Some (take off m @ xs @ drop (off + length xs) m) else None)"

lemma mem_read_Some [mem_simps]:
  "off + n \<le> length m \<Longrightarrow> mem_read m off n = Some (take n (drop off m))"
  by (simp add: mem_read_def)

lemma mem_write_Some [mem_simps]:
  "off + length xs \<le> length m \<Longrightarrow>
     mem_write m off xs = Some (take off m @ xs @ drop (off + length xs) m)"
  by (simp add: mem_write_def)

lemma mem_write_ex: "off + length xs \<le> length m \<Longrightarrow> \<exists>m'. mem_write m off xs = Some m'"
  by (simp add: mem_write_def)

lemma mem_write_length: "mem_write m off xs = Some m' \<Longrightarrow> length m' = length m"
  by (auto simp: mem_write_def split: if_splits)

lemma mem_write_nth:
  assumes "mem_write m off xs = Some m'" "j < length m"
  shows "m' ! j = (if off \<le> j \<and> j < off + length xs then xs ! (j - off) else m ! j)"
  using assms by (auto simp: mem_write_def nth_append split: if_splits)

lemma mem_read_length: "mem_read m off n = Some xs \<Longrightarrow> length xs = n"
  by (auto simp: mem_read_def split: if_splits)

section \<open>Circular windows\<close>

text \<open>
  \<open>window a r n\<close> is the content of \<open>n\<close> consecutive slots of the circular array \<open>a\<close>, the first
  one at index \<open>r\<close>.
\<close>

definition window :: "'a list \<Rightarrow> nat \<Rightarrow> nat \<Rightarrow> 'a list" where
  "window a r n = map (\<lambda>i. a ! ((r + i) mod length a)) [0..<n]"

lemma length_window [simp]: "length (window a r n) = n"
  by (simp add: window_def)

lemma window_0 [simp]: "window a r 0 = []"
  by (simp add: window_def)

lemma window_nth [simp]: "i < n \<Longrightarrow> window a r n ! i = a ! ((r + i) mod length a)"
  by (simp add: window_def)

lemma window_mod: "window a (r mod length a) n = window a r n"
  by (simp add: window_def mod_add_left_eq)

lemma window_add: "window a r (n + k) = window a r n @ window a (r + n) k"
  by (rule nth_equalityI) (auto simp: nth_append add.assoc)

lemma window_Suc: "window a r (Suc n) = window a r n @ [a ! ((r + n) mod length a)]"
  by (simp add: window_def)

lemma window_Cons: "window a r (Suc n) = a ! (r mod length a) # window a (Suc r) n"
  using window_add [of a r 1 n] by (simp add: window_def)

lemma mod_shift_neq:
  fixes a b m r :: nat
  assumes "b < a" "a < m"
  shows "(r + a) mod m \<noteq> (r + b) mod m"
proof
  assume "(r + a) mod m = (r + b) mod m"
  then have "m dvd (r + a) - (r + b)" using assms by (subst (asm) mod_eq_dvd_iff_nat) auto
  then show False using assms nat_dvd_not_less [of "a - b" m] by simp
qed

lemma window_update:
  assumes "k < length a"
  shows "window (a[(r + k) mod length a := x]) r (length a) = (window a r (length a))[k := x]"
proof (rule nth_equalityI)
  fix i assume "i < length (window (a[(r + k) mod length a := x]) r (length a))"
  then have i: "i < length a" by simp
  then have pos: "(r + i) mod length a < length a" by (intro mod_less_divisor) linarith
  have "(r + i) mod length a = (r + k) mod length a \<longleftrightarrow> i = k"
    using i assms mod_shift_neq [of i k "length a" r] mod_shift_neq [of k i "length a" r]
    by (cases i k rule: linorder_cases) auto
  then show "window (a[(r + k) mod length a := x]) r (length a) ! i = (window a r (length a))[k := x] ! i"
    using i pos by (auto simp: nth_list_update)
qed simp

lemma window_rotate:
  assumes "a \<noteq> []"
  shows "window a (Suc r) (length a) = tl (window a r (length a)) @ [hd (window a r (length a))]"
proof -
  obtain n where n: "length a = Suc n" using assms by (cases a) auto
  have "window a (Suc r) (Suc n) = window a (Suc r) n @ [a ! ((Suc r + n) mod length a)]" by (rule window_Suc)
  moreover have "(Suc r + n) mod length a = r mod length a"
    using n mod_add_self2 [of r "length a"] by simp
  ultimately show ?thesis by (simp add: n window_Cons [of a r])
qed

lemma take_window: "take k (window a r n) = window a r (min k n)"
  by (rule nth_equalityI) auto

lemma drop_window: "drop k (window a r n) = window a (r + k) (n - k)"
  by (rule nth_equalityI) (auto simp: add.assoc)

lemma window_linear:
  assumes "r + n \<le> length a"
  shows "window a r n = take n (drop r a)"
  using assms by (intro nth_equalityI) auto

lemma window_wrapped:
  assumes "length a < r + n" "r < length a" "n \<le> length a"
  shows "window a r n = take (length a - r) (drop r a) @ take (n - (length a - r)) a"
proof -
  have split: "n = (length a - r) + (n - (length a - r))"
    using assms by simp
  have "window a r n = window a r (length a - r) @ window a (r + (length a - r)) (n - (length a - r))"
    by (subst split) (rule window_add)
  also have "window a (r + (length a - r)) (n - (length a - r)) = window a 0 (n - (length a - r))"
    using assms window_mod [of a "r + (length a - r)"] by simp
  finally show ?thesis
    using assms by (simp add: window_linear)
qed

text \<open>
  \<open>written a a' w xs\<close> states that \<open>a'\<close> is \<open>a\<close> with \<open>xs\<close> stored in the circular run of slots
  that begins at \<open>w\<close>.
\<close>

definition written :: "'a list \<Rightarrow> 'a list \<Rightarrow> nat \<Rightarrow> 'a list \<Rightarrow> bool" where
  "written a a' w xs \<longleftrightarrow> length a' = length a \<and>
     (\<forall>j < length a. a' ! ((w + j) mod length a) =
        (if j < length xs then xs ! j else a ! ((w + j) mod length a)))"

lemma written_length: "written a a' w xs \<Longrightarrow> length a' = length a"
  by (simp add: written_def)

lemma written_window_new:
  assumes "written a a' w xs" "length xs \<le> length a"
  shows "window a' w (length xs) = xs"
  using assms by (intro nth_equalityI) (auto simp: written_def)

lemma written_window_old:
  assumes wr: "written a a' w xs" and fits: "n + length xs \<le> length a"
    and w: "w mod length a = (r + n) mod length a"
  shows "window a' r n = window a r n"
proof (rule nth_equalityI)
  fix i assume "i < length (window a' r n)"
  then have i: "i < n" by simp
  let ?m = "length a"
  define j where "j = ?m - n + i"
  have j: "j < ?m" "length xs \<le> j" using i fits by (auto simp: j_def)
  have "(w + j) mod ?m = (r + n + j) mod ?m"
    using w by (metis mod_add_left_eq)
  also have "r + n + j = (r + i) + ?m" using i fits by (simp add: j_def)
  finally have idx: "(w + j) mod ?m = (r + i) mod ?m" by simp
  have "a' ! ((w + j) mod ?m) = a ! ((w + j) mod ?m)"
    using wr j by (auto simp: written_def)
  then show "window a' r n ! i = window a r n ! i"
    using i idx written_length [OF wr] by simp
qed simp

lemma written_window:
  assumes "written a a' w xs" "n + length xs \<le> length a"
    and "w mod length a = (r + n) mod length a"
  shows "window a' r (n + length xs) = window a r n @ xs"
proof -
  have "window a' (r + n) (length xs) = window a' w (length xs)"
    using assms window_mod [of a'] by (metis written_length)
  then show ?thesis
    using assms by (simp add: window_add written_window_old written_window_new)
qed

lemma written_linear:
  assumes "mem_write a w xs = Some a'"
  shows "written a a' w xs"
proof -
  have len: "length a' = length a" and fits: "w + length xs \<le> length a"
    using assms by (auto simp: mem_write_def split: if_splits)
  have "a' ! ((w + j) mod length a) = (if j < length xs then xs ! j else a ! ((w + j) mod length a))"
    if "j < length a" for j
  proof (cases "w + j < length a")
    case True
    then show ?thesis using assms by (simp add: mem_write_nth)
  next
    case False
    then have "(w + j) mod length a = w + j - length a"
      using that fits by (cases "w = length a") (auto simp: mod_if)
    then show ?thesis using assms False that fits by (auto simp: mem_write_nth)
  qed
  with len show ?thesis by (simp add: written_def)
qed

lemma written_wrapped:
  assumes w1: "mem_write a w (take (length a - w) xs) = Some b"
    and w2: "mem_write b 0 (drop (length a - w) xs) = Some a'"
    and big: "length a \<le> w + length xs" "w < length a" "length xs \<le> length a"
  shows "written a a' w xs"
proof -
  have lb: "length b = length a" using w1 by (rule mem_write_length)
  have la: "length a' = length a" using mem_write_length [OF w2] lb by simp
  have "a' ! ((w + j) mod length a) = (if j < length xs then xs ! j else a ! ((w + j) mod length a))"
    if j: "j < length a" for j
  proof (cases "w + j < length a")
    case True
    then have "a' ! (w + j) = b ! (w + j)"
      using mem_write_nth [OF w2, of "w + j"] lb big by auto
    also have "\<dots> = (if j < length xs then xs ! j else a ! (w + j))"
      using mem_write_nth [OF w1, of "w + j"] True big by auto
    finally show ?thesis using True by simp
  next
    case False
    then have k: "(w + j) mod length a = w + j - length a"
      using j big by (auto simp: mod_if)
    have "a' ! (w + j - length a) = (if j < length xs then xs ! j else b ! (w + j - length a))"
      using mem_write_nth [OF w2, of "w + j - length a"] lb big False j by auto
    moreover have "b ! (w + j - length a) = a ! (w + j - length a)"
      using mem_write_nth [OF w1, of "w + j - length a"] big False j by auto
    ultimately show ?thesis using k by simp
  qed
  with la show ?thesis by (simp add: written_def)
qed

lemma written_update: "w < length a \<Longrightarrow> written a (a[w := x]) w [x]"
proof -
  assume w: "w < length a"
  have "mem_write a w [x] = Some (a[w := x])"
    using w by (simp add: mem_write_def upd_conv_take_nth_drop)
  then show ?thesis by (rule written_linear)
qed

end
