(* ===== verification/Spsc_Ring.thy ===== *)
theory Spsc_Ring
  imports Prelude
begin

text \<open>
  The single-producer single-consumer ring buffer of \<open>src/qb/system/lockfree/spsc.h\<close>: the index
  arithmetic, the single and bulk enqueue, the bulk dequeue and the in-place \<open>consume_all\<close> of
  \<open>internal::ringbuffer<T>\<close>, and the fixed-size and run-time-size classes over it. The operations
  are modelled as each thread runs them alone; \<open>Spsc_Concurrent\<close> interleaves them.
\<close>

section \<open>State and index arithmetic\<close>

record 'a ringbuffer =
  write_index :: size_t
  read_index :: size_t
  array :: "'a list"

definition next_index :: "size_t \<Rightarrow> size_t \<Rightarrow> size_t" where
  "next_index arg max_size = (let nxt = szadd arg 1 in if nxt < max_size then nxt else 0)"

definition read_available :: "size_t \<Rightarrow> size_t \<Rightarrow> size_t \<Rightarrow> size_t" where
  "read_available wi ri max_size =
     (if wi \<ge> ri then szsub wi ri
      else szsub (szadd wi max_size) ri)"

definition write_available :: "size_t \<Rightarrow> size_t \<Rightarrow> size_t \<Rightarrow> size_t" where
  "write_available wi ri max_size =
     (let ret = szsub (szsub ri wi) 1
      in if wi \<ge> ri then szadd ret max_size else ret)"

definition ring_empty :: "'a ringbuffer \<Rightarrow> bool" where
  "ring_empty rb \<longleftrightarrow> write_index rb = read_index rb"

definition ring_front :: "'a ringbuffer \<Rightarrow> 'a option" where
  "ring_front rb =
     (if read_index rb < length (array rb) then Some (array rb ! read_index rb) else None)"

section \<open>Operations\<close>

text \<open>
  \<open>ring_enqueue1\<close> is the single-element overload, \<open>ring_enqueue\<close> the bulk one (its first
  argument is the template flag \<open>_All\<close>). \<open>ring_dequeue\<close> copies into \<open>out\<close> from position
  \<open>off\<close>, the place the source's \<open>output_buffer\<close> points to.
\<close>

definition ring_enqueue1 :: "'a \<Rightarrow> 'a ringbuffer \<Rightarrow> size_t \<Rightarrow> (bool \<times> 'a ringbuffer) option" where
  "ring_enqueue1 t rb max_size =
     (let wi = write_index rb; nxt = next_index wi max_size
      in if nxt = read_index rb then Some (False, rb)
         else do {
           b \<leftarrow> mem_write (array rb) wi [t];
           Some (True, rb\<lparr>array := b, write_index := nxt\<rparr>)
         })"

definition ring_enqueue ::
  "bool \<Rightarrow> 'a list \<Rightarrow> size_t \<Rightarrow> 'a ringbuffer \<Rightarrow> size_t \<Rightarrow> (size_t \<times> 'a ringbuffer) option" where
  "ring_enqueue all_or_none input_buffer input_count0 rb max_size =
     (let wi = write_index rb; ri = read_index rb;
          avail = write_available wi ri max_size
      in if all_or_none \<and> avail < input_count0 then Some (0, rb)
         else if \<not> all_or_none \<and> avail = 0 then Some (0, rb)
         else
           let input_count = (if all_or_none then input_count0 else min input_count0 avail);
               new_write_index = szadd wi input_count
           in if szadd wi input_count > max_size then
                (let count0 = szsub max_size wi; count1 = szsub input_count count0
                 in do {
                   s0 \<leftarrow> mem_read input_buffer 0 count0;
                   b0 \<leftarrow> mem_write (array rb) wi s0;
                   s1 \<leftarrow> mem_read input_buffer count0 count1;
                   b1 \<leftarrow> mem_write b0 0 s1;
                   Some (input_count, rb\<lparr>array := b1, write_index := szsub new_write_index max_size\<rparr>)
                 })
              else do {
                s \<leftarrow> mem_read input_buffer 0 input_count;
                b \<leftarrow> mem_write (array rb) wi s;
                Some (input_count,
                  rb\<lparr>array := b,
                     write_index := (if new_write_index = max_size then 0 else new_write_index)\<rparr>)
              })"

definition ring_dequeue ::
  "'a list \<Rightarrow> size_t \<Rightarrow> size_t \<Rightarrow> 'a ringbuffer \<Rightarrow> size_t \<Rightarrow>
     (size_t \<times> 'a list \<times> 'a ringbuffer) option" where
  "ring_dequeue out off output_count0 rb max_size =
     (let wi = write_index rb; ri = read_index rb;
          avail = read_available wi ri max_size
      in if avail = 0 then Some (0, out, rb)
         else
           let output_count = min output_count0 avail;
               new_read_index = szadd ri output_count
           in if szadd ri output_count > max_size then
                (let count0 = szsub max_size ri; count1 = szsub output_count count0
                 in do {
                   s0 \<leftarrow> mem_read (array rb) ri count0;
                   o0 \<leftarrow> mem_write out off s0;
                   s1 \<leftarrow> mem_read (array rb) 0 count1;
                   o1 \<leftarrow> mem_write o0 (off + count0) s1;
                   Some (output_count, o1, rb\<lparr>read_index := szsub new_read_index max_size\<rparr>)
                 })
              else do {
                s \<leftarrow> mem_read (array rb) ri output_count;
                o1 \<leftarrow> mem_write out off s;
                Some (output_count, o1,
                  rb\<lparr>read_index := (if new_read_index = max_size then 0 else new_read_index)\<rparr>)
              })"

text \<open>
  The functor of \<open>consume_all\<close> is a state transformer; it sees the ring storage in place, so a
  readable range that wraps reaches it as two segments.
\<close>

definition ring_consume_all ::
  "('s \<Rightarrow> 'a list \<Rightarrow> 's) \<Rightarrow> 's \<Rightarrow> 'a ringbuffer \<Rightarrow> size_t \<Rightarrow>
     (size_t \<times> 's \<times> 'a ringbuffer) option" where
  "ring_consume_all functor st rb max_size =
     (let wi = write_index rb; ri = read_index rb;
          avail = read_available wi ri max_size
      in if avail = 0 then Some (0, st, rb)
         else
           let output_count = avail; new_read_index = szadd ri output_count
           in if szadd ri output_count > max_size then
                (let count0 = szsub max_size ri; count1 = szsub output_count count0
                 in do {
                   s0 \<leftarrow> mem_read (array rb) ri count0;
                   s1 \<leftarrow> mem_read (array rb) 0 count1;
                   Some (output_count, functor (functor st s0) s1,
                     rb\<lparr>read_index := szsub new_read_index max_size\<rparr>)
                 })
              else do {
                s \<leftarrow> mem_read (array rb) ri output_count;
                Some (output_count, functor st s,
                  rb\<lparr>read_index := (if new_read_index = max_size then 0 else new_read_index)\<rparr>)
              })"

section \<open>The classes over \<open>internal::ringbuffer\<close>\<close>

text \<open>
  Both public classes store one slot more than their capacity: \<open>max_size = _MaxSize + 1\<close> in the
  fixed-size class, \<open>max_size_(max_size + 1)\<close> in the run-time-size one. The initial array content
  is whatever the allocation holds; \<open>ring_new\<close> takes it as an argument.
\<close>

definition ring_slots :: "size_t \<Rightarrow> size_t" where
  "ring_slots capacity = szadd capacity 1"

definition ring_new :: "'a list \<Rightarrow> 'a ringbuffer" where
  "ring_new storage = \<lparr>write_index = 0, read_index = 0, array = storage\<rparr>"

definition spsc_enqueue1 :: "size_t \<Rightarrow> 'a \<Rightarrow> 'a ringbuffer \<Rightarrow> (bool \<times> 'a ringbuffer) option" where
  "spsc_enqueue1 capacity t rb = ring_enqueue1 t rb (ring_slots capacity)"

definition spsc_enqueue ::
  "size_t \<Rightarrow> bool \<Rightarrow> 'a list \<Rightarrow> size_t \<Rightarrow> 'a ringbuffer \<Rightarrow> (size_t \<times> 'a ringbuffer) option" where
  "spsc_enqueue capacity all_or_none t sz rb =
     ring_enqueue all_or_none t sz rb (ring_slots capacity)"

definition spsc_dequeue ::
  "size_t \<Rightarrow> 'a list \<Rightarrow> size_t \<Rightarrow> size_t \<Rightarrow> 'a ringbuffer \<Rightarrow>
     (size_t \<times> 'a list \<times> 'a ringbuffer) option" where
  "spsc_dequeue capacity ret off sz rb = ring_dequeue ret off sz rb (ring_slots capacity)"

definition spsc_dequeue1 ::
  "size_t \<Rightarrow> 'a list \<Rightarrow> 'a ringbuffer \<Rightarrow> (bool \<times> 'a list \<times> 'a ringbuffer) option" where
  "spsc_dequeue1 capacity ret rb =
     do { (n, ret', rb') \<leftarrow> ring_dequeue ret 0 1 rb (ring_slots capacity); Some (n \<noteq> 0, ret', rb') }"

definition spsc_dequeue_func ::
  "size_t \<Rightarrow> ('s \<Rightarrow> 'a list \<Rightarrow> 's) \<Rightarrow> 's \<Rightarrow> 'a list \<Rightarrow> size_t \<Rightarrow> 'a ringbuffer \<Rightarrow>
     (size_t \<times> 's \<times> 'a list \<times> 'a ringbuffer) option" where
  "spsc_dequeue_func capacity func st ret sz rb =
     do {
       (nb_consume, ret', rb') \<leftarrow> ring_dequeue ret 0 sz rb (ring_slots capacity);
       Some (nb_consume, if nb_consume \<noteq> 0 then func st (take nb_consume ret') else st, ret', rb')
     }"

definition spsc_consume_all ::
  "size_t \<Rightarrow> ('s \<Rightarrow> 'a list \<Rightarrow> 's) \<Rightarrow> 's \<Rightarrow> 'a ringbuffer \<Rightarrow> (size_t \<times> 's \<times> 'a ringbuffer) option" where
  "spsc_consume_all capacity func st rb = ring_consume_all func st rb (ring_slots capacity)"

section \<open>Invariant and abstraction\<close>

text \<open>
  A ring of \<open>m\<close> slots holds at most \<open>m - 1\<close> elements. No object of the language is as large as
  \<open>2 ^ 63\<close> elements, which is what keeps the index sums of the source from wrapping.
\<close>

definition ring_inv :: "size_t \<Rightarrow> 'a ringbuffer \<Rightarrow> bool" where
  "ring_inv m rb \<longleftrightarrow>
     length (array rb) = m \<and> write_index rb < m \<and> read_index rb < m \<and> m < 2 ^ 63"

definition ring_list :: "'a ringbuffer \<Rightarrow> 'a list" where
  "ring_list rb =
     window (array rb) (read_index rb)
       (read_available (write_index rb) (read_index rb) (length (array rb)))"

definition ring_room :: "size_t \<Rightarrow> 'a ringbuffer \<Rightarrow> nat" where
  "ring_room m rb = m - 1 - length (ring_list rb)"

lemma read_available_eq [size_t_simps]:
  assumes "w < m" "r < m" "m < 2 ^ 63"
  shows "read_available w r m = (if r \<le> w then w - r else w + m - r)"
  using assms by (simp add: read_available_def szadd_small szsub_small)

lemma write_available_eq [size_t_simps]:
  assumes "w < m" "r < m" "m < 2 ^ 63"
  shows "write_available w r m = m - 1 - read_available w r m"
proof (cases "r \<le> w")
  case True
  then consider "r = w" | "r < w" by linarith
  then show ?thesis
  proof cases
    case 1
    then have "szsub (szsub r w) 1 = size_mod - 1"
      by (simp add: szsub_def)
    then show ?thesis
      using 1 assms by (simp add: write_available_def read_available_eq szadd_wrap)
  next
    case 2
    then have "szsub (szsub r w) 1 = r + size_mod - w - 1"
      using assms by (simp add: szsub_wrap szsub_small)
    then show ?thesis
      using 2 assms by (simp add: write_available_def read_available_eq szadd_wrap)
  qed
next
  case False
  then show ?thesis
    using assms by (simp add: write_available_def read_available_eq szsub_small)
qed

lemma read_available_less:
  assumes "w < m" "r < m" "m < 2 ^ 63"
  shows "read_available w r m < m"
  using assms by (auto simp: read_available_eq)

lemma read_available_mod:
  assumes "w < m" "r < m" "m < 2 ^ 63"
  shows "(r + read_available w r m) mod m = w"
  using assms by (simp add: read_available_eq)

lemma read_available_unique:
  assumes "w < m" "r < m" "m < 2 ^ 63" "n < m" "w = (r + n) mod m"
  shows "read_available w r m = n"
proof (cases "r + n < m")
  case True
  then show ?thesis using assms by (simp add: read_available_eq)
next
  case False
  then have "(r + n) mod m = r + n - m" using assms by (simp add: mod_if)
  then show ?thesis using assms False by (simp add: read_available_eq)
qed

lemma ring_inv_bounds:
  assumes "ring_inv m rb"
  shows "length (array rb) = m" "write_index rb < m" "read_index rb < m" "m < 2 ^ 63" "0 < m"
  using assms by (auto simp: ring_inv_def)

lemma length_ring_list:
  "ring_inv m rb \<Longrightarrow> length (ring_list rb) = read_available (write_index rb) (read_index rb) m"
  by (simp add: ring_list_def ring_inv_def)

lemma ring_list_window:
  assumes "ring_inv m rb"
  shows "ring_list rb = window (array rb) (read_index rb) (length (ring_list rb))"
  by (subst ring_list_def) (simp add: length_ring_list [OF assms] ring_inv_bounds [OF assms])

lemma ring_listI:
  assumes "length (array rb) = m" "read_available (write_index rb) (read_index rb) m = n"
  shows "ring_list rb = window (array rb) (read_index rb) n"
  using assms by (simp add: ring_list_def)

lemma ring_room_eq:
  assumes "ring_inv m rb"
  shows "write_available (write_index rb) (read_index rb) m = ring_room m rb"
  using ring_inv_bounds [OF assms] by (simp add: ring_room_def length_ring_list [OF assms] write_available_eq)

lemma ring_list_bound:
  assumes "ring_inv m rb"
  shows "length (ring_list rb) + ring_room m rb = m - 1" "length (ring_list rb) < m"
  using ring_inv_bounds [OF assms] read_available_less [of "write_index rb" m "read_index rb"]
  by (simp_all add: ring_room_def length_ring_list [OF assms])

lemma ring_empty_iff:
  assumes "ring_inv m rb"
  shows "ring_empty rb \<longleftrightarrow> ring_list rb = []"
proof -
  have "ring_list rb = [] \<longleftrightarrow> read_available (write_index rb) (read_index rb) m = 0"
    using length_ring_list [OF assms] by (metis length_0_conv)
  also have "\<dots> \<longleftrightarrow> write_index rb = read_index rb"
    using ring_inv_bounds [OF assms] by (auto simp: read_available_eq)
  finally show ?thesis by (simp add: ring_empty_def)
qed

section \<open>Correctness of the producer side\<close>

lemma ring_produce:
  assumes inv: "ring_inv m rb" and wr: "written (array rb) b (write_index rb) xs"
    and room: "length xs \<le> ring_room m rb"
    and idx: "w' = (write_index rb + length xs) mod m"
  shows "ring_inv m (rb\<lparr>array := b, write_index := w'\<rparr>)"
    and "ring_list (rb\<lparr>array := b, write_index := w'\<rparr>) = ring_list rb @ xs"
proof -
  note bds = ring_inv_bounds [OF inv]
  let ?n = "length (ring_list rb)"
  have lb: "length b = m" using written_length [OF wr] bds by simp
  show inv': "ring_inv m (rb\<lparr>array := b, write_index := w'\<rparr>)"
    using bds lb by (simp add: ring_inv_def idx)
  have n: "read_available (write_index rb) (read_index rb) m = ?n"
    by (simp add: length_ring_list [OF inv])
  have w: "write_index rb = (read_index rb + ?n) mod m"
    using read_available_mod [of "write_index rb" m "read_index rb"] bds n by simp
  have small: "?n + length xs < m" using ring_list_bound [OF inv] room bds(5) by linarith
  have "w' = (read_index rb + (?n + length xs)) mod m"
    using idx w by (metis add.assoc mod_add_left_eq)
  then have "read_available w' (read_index rb) m = ?n + length xs"
    using bds small by (intro read_available_unique) auto
  moreover have "window b (read_index rb) (?n + length xs) = window (array rb) (read_index rb) ?n @ xs"
  proof (rule written_window [OF wr])
    show "?n + length xs \<le> length (array rb)" using small bds by simp
    show "write_index rb mod length (array rb) = (read_index rb + ?n) mod length (array rb)"
      using w bds by simp
  qed
  ultimately show "ring_list (rb\<lparr>array := b, write_index := w'\<rparr>) = ring_list rb @ xs"
    using lb ring_list_window [OF inv] ring_listI [of "rb\<lparr>array := b, write_index := w'\<rparr>" m] by simp
qed

lemma ring_enqueue_stores:
  assumes inv: "ring_inv m rb" and room: "k \<le> ring_room m rb" and len: "k \<le> length inp"
  shows "\<exists>b. written (array rb) b (write_index rb) (take k inp) \<and>
     (if szadd (write_index rb) k > m then
        (let count0 = szsub m (write_index rb); count1 = szsub k count0
         in do {
           s0 \<leftarrow> mem_read inp 0 count0;
           b0 \<leftarrow> mem_write (array rb) (write_index rb) s0;
           s1 \<leftarrow> mem_read inp count0 count1;
           b1 \<leftarrow> mem_write b0 0 s1;
           Some (k, rb\<lparr>array := b1, write_index := szsub (szadd (write_index rb) k) m\<rparr>)
         })
      else do {
        s \<leftarrow> mem_read inp 0 k;
        b \<leftarrow> mem_write (array rb) (write_index rb) s;
        Some (k, rb\<lparr>array := b, write_index :=
          (if szadd (write_index rb) k = m then 0 else szadd (write_index rb) k)\<rparr>)
      }) = Some (k, rb\<lparr>array := b, write_index := (write_index rb + k) mod m\<rparr>)"
proof -
  note bds = ring_inv_bounds [OF inv]
  let ?w = "write_index rb"
  have k: "k < m" using room ring_list_bound [OF inv] bds(5) by linarith
  have add: "szadd ?w k = ?w + k" using bds k by (simp add: szadd_small)
  show ?thesis
  proof (cases "m < ?w + k")
    case True
    have c0: "szsub m ?w = m - ?w" using bds by (simp add: szsub_small)
    have c1: "szsub k (m - ?w) = k - (m - ?w)" using bds k True by (simp add: szsub_small)
    have wrap_idx: "szsub (?w + k) m = (?w + k) mod m"
      using bds k True by (simp add: szsub_small mod_if)
    define xs where "xs = take k inp"
    have xs: "length xs = k" using len by (simp add: xs_def)
    have r0: "mem_read inp 0 (m - ?w) = Some (take (m - ?w) xs)"
      using len True by (simp add: mem_read_def xs_def)
    have r1: "mem_read inp (m - ?w) (k - (m - ?w)) = Some (drop (m - ?w) xs)"
      using len True by (simp add: mem_read_def xs_def drop_take)
    have "length (take (m - ?w) xs) \<le> m - ?w" by simp
    then have "?w + length (take (m - ?w) xs) \<le> length (array rb)" using bds by linarith
    then obtain b0 where b0: "mem_write (array rb) ?w (take (m - ?w) xs) = Some b0"
      using mem_write_ex by blast
    have "length (drop (m - ?w) xs) \<le> k" using xs by simp
    then have "0 + length (drop (m - ?w) xs) \<le> length b0"
      using k bds(1) mem_write_length [OF b0] by linarith
    then obtain b1 where b1: "mem_write b0 0 (drop (m - ?w) xs) = Some b1"
      using mem_write_ex by blast
    have "written (array rb) b1 ?w xs"
      using b0 b1 bds xs k True by (intro written_wrapped) auto
    then show ?thesis
      using True add c0 c1 r0 r1 b0 b1 wrap_idx by (auto simp: Let_def xs_def)
  next
    case False
    obtain b where b: "mem_write (array rb) ?w (take k inp) = Some b"
      using bds len False mem_write_ex [of ?w "take k inp" "array rb"] by auto
    have idx: "(if ?w + k = m then 0 else ?w + k) = (?w + k) mod m"
      using False by auto
    show ?thesis
      using False add b idx len written_linear [OF b] by (auto simp: mem_read_def)
  qed
qed

definition accepted :: "bool \<Rightarrow> nat \<Rightarrow> nat \<Rightarrow> nat" where
  "accepted all_or_none count room =
     (if all_or_none then if count \<le> room then count else 0 else min count room)"

lemma accepted_le [simp]: "accepted a c r \<le> r" "accepted a c r \<le> c"
  by (auto simp: accepted_def)

lemma ring_enqueue_correct:
  assumes inv: "ring_inv m rb" and len: "cnt \<le> length inp"
    and k_def: "k = accepted all_or_none cnt (ring_room m rb)"
  shows "\<exists>rb'. ring_enqueue all_or_none inp cnt rb m = Some (k, rb') \<and> ring_inv m rb' \<and>
     ring_list rb' = ring_list rb @ take k inp \<and> read_index rb' = read_index rb"
proof -
  have k: "k \<le> ring_room m rb" "k \<le> length inp"
    using len unfolding k_def by (auto intro: le_trans [OF accepted_le(2)])
  show ?thesis
  proof (cases "(all_or_none \<and> ring_room m rb < cnt) \<or> (\<not> all_or_none \<and> ring_room m rb = 0)")
    case True
    then have "ring_enqueue all_or_none inp cnt rb m = Some (0, rb)" "k = 0"
      by (auto simp: ring_enqueue_def ring_room_eq [OF inv] Let_def k_def accepted_def)
    then show ?thesis using inv by simp
  next
    case False
    then have kk: "(if all_or_none then cnt else min cnt (ring_room m rb)) = k"
      by (auto simp: k_def accepted_def)
    obtain b where wr: "written (array rb) b (write_index rb) (take k inp)"
      and eq: "ring_enqueue all_or_none inp cnt rb m =
        Some (k, rb\<lparr>array := b, write_index := (write_index rb + k) mod m\<rparr>)"
      using ring_enqueue_stores [OF inv k] False
      unfolding ring_enqueue_def ring_room_eq [OF inv] Let_def kk by auto
    show ?thesis
      using eq k ring_produce [OF inv wr, of "(write_index rb + k) mod m"] by simp
  qed
qed

lemma next_index_eq:
  assumes "w < m" "m < 2 ^ 63"
  shows "next_index w m = (w + 1) mod m"
  using assms by (auto simp: next_index_def szadd_small Let_def mod_if)

lemma ring_full_iff:
  assumes inv: "ring_inv m rb"
  shows "next_index (write_index rb) m = read_index rb \<longleftrightarrow> ring_room m rb = 0"
proof -
  note bds = ring_inv_bounds [OF inv]
  have "ring_room m rb = m - 1 - read_available (write_index rb) (read_index rb) m"
    by (simp add: ring_room_def length_ring_list [OF inv])
  then show ?thesis
    using bds by (auto simp: next_index_eq read_available_eq mod_if)
qed

lemma ring_enqueue1_correct:
  assumes inv: "ring_inv m rb"
  shows "\<exists>rb'. ring_enqueue1 t rb m = Some (0 < ring_room m rb, rb') \<and> ring_inv m rb' \<and>
     ring_list rb' = ring_list rb @ (if 0 < ring_room m rb then [t] else []) \<and>
     read_index rb' = read_index rb"
proof (cases "ring_room m rb = 0")
  case True
  then show ?thesis
    using inv ring_full_iff [OF inv] by (simp add: ring_enqueue1_def)
next
  case False
  note bds = ring_inv_bounds [OF inv]
  have b: "mem_write (array rb) (write_index rb) [t] = Some ((array rb)[write_index rb := t])"
    using bds by (simp add: mem_write_def upd_conv_take_nth_drop)
  have room: "length [t] \<le> ring_room m rb" using False by simp
  have eq: "ring_enqueue1 t rb m = Some (True,
      rb\<lparr>array := (array rb)[write_index rb := t], write_index := (write_index rb + length [t]) mod m\<rparr>)"
    using False ring_full_iff [OF inv] b next_index_eq [OF bds(2,4)] by (simp add: ring_enqueue1_def Let_def)
  show ?thesis
    using False eq ring_produce [OF inv written_linear [OF b] room refl] by simp
qed

section \<open>Correctness of the consumer side\<close>

lemma ring_consume:
  assumes inv: "ring_inv m rb" and k: "k \<le> length (ring_list rb)"
    and idx: "r' = (read_index rb + k) mod m"
  shows "ring_inv m (rb\<lparr>read_index := r'\<rparr>)"
    and "ring_list (rb\<lparr>read_index := r'\<rparr>) = drop k (ring_list rb)"
    and "take k (ring_list rb) = window (array rb) (read_index rb) k"
proof -
  note bds = ring_inv_bounds [OF inv]
  let ?n = "length (ring_list rb)"
  show "ring_inv m (rb\<lparr>read_index := r'\<rparr>)"
    using bds by (simp add: ring_inv_def idx)
  have n: "read_available (write_index rb) (read_index rb) m = ?n"
    by (simp add: length_ring_list [OF inv])
  have w: "write_index rb = (read_index rb + ?n) mod m"
    using read_available_mod [of "write_index rb" m "read_index rb"] bds n by simp
  have "write_index rb = (r' + (?n - k)) mod m"
    using w k by (metis idx add.assoc le_add_diff_inverse mod_add_left_eq)
  then have "read_available (write_index rb) r' m = ?n - k"
    using bds ring_list_bound(2) [OF inv] by (intro read_available_unique) (auto simp: idx)
  then have "ring_list (rb\<lparr>read_index := r'\<rparr>) = window (array rb) r' (?n - k)"
    using bds ring_listI [of "rb\<lparr>read_index := r'\<rparr>" m] by simp
  also have "\<dots> = window (array rb) (read_index rb + k) (?n - k)"
    using window_mod [of "array rb" "read_index rb + k"] bds by (simp add: idx)
  also have "\<dots> = drop k (ring_list rb)"
    by (metis drop_window ring_list_window [OF inv])
  finally show "ring_list (rb\<lparr>read_index := r'\<rparr>) = drop k (ring_list rb)" .
  show "take k (ring_list rb) = window (array rb) (read_index rb) k"
    using k by (metis take_window ring_list_window [OF inv] min.absorb1)
qed

lemma ring_segments:
  assumes inv: "ring_inv m rb" and k: "k \<le> length (ring_list rb)"
  shows "szadd (read_index rb) k = read_index rb + k"
    and "m < read_index rb + k \<Longrightarrow> szsub m (read_index rb) = m - read_index rb \<and>
      szsub k (m - read_index rb) = k - (m - read_index rb) \<and>
      szsub (read_index rb + k) m = (read_index rb + k) mod m \<and>
      mem_read (array rb) (read_index rb) (m - read_index rb) =
        Some (take (m - read_index rb) (take k (ring_list rb))) \<and>
      mem_read (array rb) 0 (k - (m - read_index rb)) =
        Some (drop (m - read_index rb) (take k (ring_list rb)))"
    and "\<not> m < read_index rb + k \<Longrightarrow>
      (if read_index rb + k = m then 0 else read_index rb + k) = (read_index rb + k) mod m \<and>
      mem_read (array rb) (read_index rb) k = Some (take k (ring_list rb))"
proof -
  note bds = ring_inv_bounds [OF inv]
  have km: "k < m" using k ring_list_bound(2) [OF inv] by simp
  have win: "take k (ring_list rb) = window (array rb) (read_index rb) k"
    using inv k by (rule ring_consume(3)) simp
  show "szadd (read_index rb) k = read_index rb + k"
    using bds km by (simp add: szadd_small)
  show "(if read_index rb + k = m then 0 else read_index rb + k) = (read_index rb + k) mod m \<and>
      mem_read (array rb) (read_index rb) k = Some (take k (ring_list rb))"
    if "\<not> m < read_index rb + k"
    using that bds win by (auto simp: mem_read_def window_linear)
  assume wrap: "m < read_index rb + k"
  have w: "window (array rb) (read_index rb) k =
     take (m - read_index rb) (drop (read_index rb) (array rb)) @ take (k - (m - read_index rb)) (array rb)"
    using wrap bds km window_wrapped [of "array rb" "read_index rb" k] by simp
  show "szsub m (read_index rb) = m - read_index rb \<and>
      szsub k (m - read_index rb) = k - (m - read_index rb) \<and>
      szsub (read_index rb + k) m = (read_index rb + k) mod m \<and>
      mem_read (array rb) (read_index rb) (m - read_index rb) =
        Some (take (m - read_index rb) (take k (ring_list rb))) \<and>
      mem_read (array rb) 0 (k - (m - read_index rb)) =
        Some (drop (m - read_index rb) (take k (ring_list rb)))"
    using wrap bds km unfolding win w
    by (auto simp: szsub_small mod_if mem_read_def)
qed

lemma ring_dequeue_correct:
  assumes inv: "ring_inv m rb" and k_def: "k = min cnt (length (ring_list rb))"
    and out: "off + k \<le> length out"
  shows "\<exists>rb'. ring_dequeue out off cnt rb m =
       Some (k, take off out @ take k (ring_list rb) @ drop (off + k) out, rb') \<and>
     ring_inv m rb' \<and> ring_list rb' = drop k (ring_list rb) \<and> write_index rb' = write_index rb"
proof -
  note bds = ring_inv_bounds [OF inv]
  let ?L = "ring_list rb" and ?r = "read_index rb"
  have av: "read_available (write_index rb) ?r m = length ?L"
    by (simp add: length_ring_list [OF inv])
  have k: "k \<le> length ?L" by (simp add: k_def)
  note seg = ring_segments [OF inv k]
  let ?rb = "rb\<lparr>read_index := (?r + k) mod m\<rparr>"
  show ?thesis
  proof (cases "?L = []")
    case True
    then show ?thesis
      using av inv k_def by (simp add: ring_dequeue_def Let_def)
  next
    case ne: False
    have "ring_dequeue out off cnt rb m =
       Some (k, take off out @ take k ?L @ drop (off + k) out, ?rb)"
    proof (cases "m < ?r + k")
      case True
      let ?c = "m - ?r"
      have c: "?c < k" using True bds by simp
      define o0 where "o0 = take off out @ take ?c (take k ?L) @ drop (off + ?c) out"
      have w0: "mem_write out off (take ?c (take k ?L)) = Some o0"
        using out c k by (simp add: mem_write_def o0_def)
      have l0: "length o0 = length out" using mem_write_length [OF w0] .
      have t0: "take (off + ?c) o0 = take off out @ take ?c (take k ?L)"
        using out c k by (simp add: o0_def)
      have d0: "drop (off + k) o0 = drop (off + k) out"
        using out c k by (simp add: o0_def add.commute)
      have "take ?c (take k ?L) @ drop ?c (take k ?L) = take k ?L"
        by (rule append_take_drop_id)
      then have w1: "mem_write o0 (off + ?c) (drop ?c (take k ?L)) =
          Some (take off out @ take k ?L @ drop (off + k) out)"
        using out c k l0 t0 d0 by (simp add: mem_write_def)
      show ?thesis
        using ne True av seg(1) seg(2) [OF True] w0 w1 unfolding ring_dequeue_def
        by (simp add: Let_def flip: k_def)
    next
      case False
      have "mem_write out off (take k ?L) = Some (take off out @ take k ?L @ drop (off + k) out)"
        using out k by (simp add: mem_write_def)
      then show ?thesis
        using ne False av seg(1) seg(3) [OF False] unfolding ring_dequeue_def
        by (simp add: Let_def flip: k_def)
    qed
    then show ?thesis
      using ring_consume [OF inv k refl] by simp
  qed
qed

lemma ring_consume_all_correct:
  assumes inv: "ring_inv m rb"
  shows "\<exists>n st' rb'. ring_consume_all f st rb m = Some (n, st', rb') \<and>
     n = length (ring_list rb) \<and> ring_inv m rb' \<and> ring_list rb' = [] \<and>
     write_index rb' = write_index rb \<and>
     st' = (let L = ring_list rb; c = m - read_index rb
            in if L = [] then st
               else if m < read_index rb + length L then f (f st (take c L)) (drop c L)
               else f st L)"
proof -
  let ?L = "ring_list rb" and ?r = "read_index rb"
  have av: "read_available (write_index rb) ?r m = length ?L"
    by (simp add: length_ring_list [OF inv])
  note seg = ring_segments [OF inv order.refl]
  note fin = ring_consume [OF inv order.refl refl]
  show ?thesis
  proof (cases "?L = []")
    case True
    then show ?thesis using av inv by (simp add: ring_consume_all_def Let_def)
  next
    case ne: False
    let ?st = "if m < ?r + length ?L then f (f st (take (m - ?r) ?L)) (drop (m - ?r) ?L) else f st ?L"
    have "ring_consume_all f st rb m =
        Some (length ?L, ?st, rb\<lparr>read_index := (?r + length ?L) mod m\<rparr>)"
    proof (cases "m < ?r + length ?L")
      case True
      then show ?thesis
        using ne av seg(1) seg(2) [OF True] unfolding ring_consume_all_def by (simp add: Let_def)
    next
      case False
      then show ?thesis
        using ne av seg(1) seg(3) [OF False] unfolding ring_consume_all_def by (simp add: Let_def)
    qed
    then show ?thesis using ne fin by (simp add: Let_def)
  qed
qed

section \<open>Refinement of a bounded queue\<close>

text \<open>
  What a ring of capacity \<open>cap\<close> promises its client, on plain lists, and the same client calls on
  the model of the code. A \<open>Dequeue\<close> brings the caller's buffer; its result is the part of the
  buffer the call filled. A \<open>Consume_all\<close> collects the segments the functor is handed.
\<close>

datatype 'a spsc_op = Enqueue1 'a | Enqueue bool "'a list" | Dequeue "'a list" | Consume_all
datatype 'a spsc_res = Stored nat | Taken "'a list"

fun queue_step :: "nat \<Rightarrow> 'a spsc_op \<Rightarrow> 'a list \<Rightarrow> 'a spsc_res \<times> 'a list" where
  "queue_step cap (Enqueue1 t) q = (if length q < cap then (Stored 1, q @ [t]) else (Stored 0, q))"
| "queue_step cap (Enqueue all_or_none xs) q =
     (let k = accepted all_or_none (length xs) (cap - length q) in (Stored k, q @ take k xs))"
| "queue_step cap (Dequeue buf) q = (Taken (take (length buf) q), drop (length buf) q)"
| "queue_step cap Consume_all q = (Taken q, [])"

fun spsc_step :: "nat \<Rightarrow> 'a spsc_op \<Rightarrow> 'a ringbuffer \<Rightarrow> ('a spsc_res \<times> 'a ringbuffer) option" where
  "spsc_step cap (Enqueue1 t) rb =
     do { (ok, rb') \<leftarrow> spsc_enqueue1 cap t rb; Some (Stored (if ok then 1 else 0), rb') }"
| "spsc_step cap (Enqueue all_or_none xs) rb =
     do { (n, rb') \<leftarrow> spsc_enqueue cap all_or_none xs (length xs) rb; Some (Stored n, rb') }"
| "spsc_step cap (Dequeue buf) rb =
     do { (n, buf', rb') \<leftarrow> spsc_dequeue cap buf 0 (length buf) rb; Some (Taken (take n buf'), rb') }"
| "spsc_step cap Consume_all rb =
     do { (n, seen, rb') \<leftarrow> spsc_consume_all cap (@) [] rb; Some (Taken seen, rb') }"

primrec queue_run :: "nat \<Rightarrow> 'a spsc_op list \<Rightarrow> 'a list \<Rightarrow> 'a spsc_res list \<times> 'a list" where
  "queue_run cap [] q = ([], q)"
| "queue_run cap (x # xs) q =
     (let (r, q') = queue_step cap x q; (rs, q'') = queue_run cap xs q' in (r # rs, q''))"

primrec spsc_run :: "nat \<Rightarrow> 'a spsc_op list \<Rightarrow> 'a ringbuffer \<Rightarrow> ('a spsc_res list \<times> 'a ringbuffer) option" where
  "spsc_run cap [] rb = Some ([], rb)"
| "spsc_run cap (x # xs) rb =
     do { (r, rb') \<leftarrow> spsc_step cap x rb; (rs, rb'') \<leftarrow> spsc_run cap xs rb'; Some (r # rs, rb'') }"

lemma ring_slots_inv: "ring_inv (cap + 1) rb \<Longrightarrow> ring_slots cap = cap + 1"
  by (simp add: ring_slots_def ring_inv_def szadd_small)

lemma ring_room_cap: "ring_room (Suc cap) rb = cap - length (ring_list rb)"
  by (simp add: ring_room_def)

lemma ring_new_inv:
  assumes "length storage = cap + 1" "cap + 1 < 2 ^ 63"
  shows "ring_inv (cap + 1) (ring_new storage)" "ring_list (ring_new storage) = []"
proof -
  show inv: "ring_inv (cap + 1) (ring_new storage)"
    using assms by (simp add: ring_inv_def ring_new_def)
  show "ring_list (ring_new storage) = []"
    using ring_empty_iff [OF inv] by (simp add: ring_empty_def ring_new_def)
qed

lemma spsc_step_refines:
  assumes inv: "ring_inv (cap + 1) rb" and q: "queue_step cap x (ring_list rb) = (r, q)"
  shows "\<exists>rb'. spsc_step cap x rb = Some (r, rb') \<and> ring_inv (cap + 1) rb' \<and> ring_list rb' = q"
proof (cases x)
  case (Enqueue1 t)
  then show ?thesis
    using q ring_enqueue1_correct [OF inv, of t]
    by (auto simp: spsc_enqueue1_def ring_slots_inv [OF inv] ring_room_cap split: if_splits)
next
  case (Enqueue a xs)
  then show ?thesis
    using q ring_enqueue_correct [OF inv le_refl refl, of a xs]
    by (auto simp: spsc_enqueue_def ring_slots_inv [OF inv] ring_room_cap Let_def)
next
  case (Dequeue buf)
  then show ?thesis
    using q ring_dequeue_correct [OF inv refl, of 0 "length buf" buf]
    by (cases "length buf \<le> length (ring_list rb)") (auto simp: spsc_dequeue_def ring_slots_inv [OF inv])
next
  case Consume_all
  then show ?thesis
    using q ring_consume_all_correct [OF inv, of "(@)" "[]"]
    by (auto simp: spsc_consume_all_def ring_slots_inv [OF inv] Let_def)
qed

lemma spsc_run_refines:
  assumes "ring_inv (cap + 1) rb" "queue_run cap xs (ring_list rb) = (rs, q)"
  shows "\<exists>rb'. spsc_run cap xs rb = Some (rs, rb') \<and> ring_inv (cap + 1) rb' \<and> ring_list rb' = q"
  using assms
proof (induction xs arbitrary: rb rs q)
  case Nil
  then show ?case by simp
next
  case (Cons x xs)
  obtain r q1 where 1: "queue_step cap x (ring_list rb) = (r, q1)" by fastforce
  obtain rs1 where 2: "queue_run cap xs q1 = (rs1, q)" "rs = r # rs1"
    using Cons.prems(2) 1 by (auto split: prod.splits)
  obtain rb1 where 3: "spsc_step cap x rb = Some (r, rb1)" "ring_inv (cap + 1) rb1" "ring_list rb1 = q1"
    using spsc_step_refines [OF Cons.prems(1) 1] by blast
  with Cons.IH [of rb1] 2 show ?case by auto
qed

text \<open>C13. Sequential correctness of the single-producer ring: from a fresh ring of any capacity whose
  storage exists, every sequence of single and bulk enqueues (both \<open>_All\<close> modes), bulk dequeues and
  in-place \<open>consume_all\<close> calls runs without leaving the storage and returns exactly what a bounded
  FIFO queue returns, call by call: nothing is lost, duplicated, reordered or overwritten, whatever
  the position of the indices in the circular array.\<close>

theorem spsc_run_bounded_queue:
  assumes "length storage = cap + 1" "cap + 1 < 2 ^ 63"
  shows "\<exists>rb'. spsc_run cap ops (ring_new storage) = Some (fst (queue_run cap ops []), rb') \<and>
     ring_inv (cap + 1) rb' \<and> ring_list rb' = snd (queue_run cap ops [])"
  using spsc_run_refines [OF ring_new_inv(1) [OF assms], of ops] ring_new_inv(2) [OF assms]
  by (metis prod.collapse)

theorem spsc_run_bounded_queue_witness:
  "\<exists>rb'. spsc_run 2 [Enqueue True [1, 2], Dequeue [0], Enqueue1 3, Enqueue False [4, 5], Consume_all]
       (ring_new [0, 0, 0::nat]) =
     Some ([Stored 2, Taken [1], Stored 1, Stored 0, Taken [2, 3]], rb') \<and> ring_list rb' = []"
  using spsc_run_bounded_queue [of "[0, 0, 0::nat]" 2
      "[Enqueue True [1, 2], Dequeue [0], Enqueue1 3, Enqueue False [4, 5], Consume_all]"]
  by (auto simp: accepted_def)

end
