(* ===== verification/Mpsc_Ring.thy ===== *)
theory Mpsc_Ring
  imports Spsc_Ring
begin

text \<open>
  The multi-producer single-consumer ring of \<open>src/qb/system/lockfree/mpsc.h\<close>: one spin lock and one
  single-producer ring per producer. The loops over the producers are written against the
  interface a producer's ring offers (the locale \<open>bounded_fifo\<close>); the locale is interpreted on the
  ring of \<open>Spsc_Ring\<close> and on the \<open>Producer\<close> record.
\<close>

section \<open>Producers\<close>

text \<open>
  \<open>struct Producer\<close>: the spin lock's flag and the ring. The \<open>producer_*\<close> operations are the calls
  the loops make on \<open>producer._ringbuffer\<close>.
\<close>

record 'a producer =
  lock :: bool
  prod_ring :: "'a ringbuffer"

definition producer_enqueue ::
  "size_t \<Rightarrow> bool \<Rightarrow> 'a list \<Rightarrow> size_t \<Rightarrow> 'a producer \<Rightarrow> (size_t \<times> 'a producer) option" where
  "producer_enqueue cap all_or_none t sz p =
     do { (n, rb) \<leftarrow> spsc_enqueue cap all_or_none t sz (prod_ring p); Some (n, p\<lparr>prod_ring := rb\<rparr>) }"

definition producer_enqueue1 :: "size_t \<Rightarrow> 'a \<Rightarrow> 'a producer \<Rightarrow> (bool \<times> 'a producer) option" where
  "producer_enqueue1 cap t p =
     do { (ok, rb) \<leftarrow> spsc_enqueue1 cap t (prod_ring p); Some (ok, p\<lparr>prod_ring := rb\<rparr>) }"

definition producer_dequeue ::
  "size_t \<Rightarrow> 'a list \<Rightarrow> size_t \<Rightarrow> size_t \<Rightarrow> 'a producer \<Rightarrow> (size_t \<times> 'a list \<times> 'a producer) option" where
  "producer_dequeue cap ret off sz p =
     do { (n, ret', rb) \<leftarrow> spsc_dequeue cap ret off sz (prod_ring p); Some (n, ret', p\<lparr>prod_ring := rb\<rparr>) }"

definition producer_dequeue_func ::
  "size_t \<Rightarrow> ('s \<Rightarrow> 'a list \<Rightarrow> 's) \<Rightarrow> 's \<Rightarrow> 'a list \<Rightarrow> size_t \<Rightarrow> 'a producer \<Rightarrow>
     (size_t \<times> 's \<times> 'a list \<times> 'a producer) option" where
  "producer_dequeue_func cap func st ret sz p =
     do {
       (n, st', ret', rb) \<leftarrow> spsc_dequeue_func cap func st ret sz (prod_ring p);
       Some (n, st', ret', p\<lparr>prod_ring := rb\<rparr>)
     }"

definition producer_consume_all ::
  "size_t \<Rightarrow> ('s \<Rightarrow> 'a list \<Rightarrow> 's) \<Rightarrow> 's \<Rightarrow> 'a producer \<Rightarrow> (size_t \<times> 's \<times> 'a producer) option" where
  "producer_consume_all cap func st p =
     do { (n, st', rb) \<leftarrow> spsc_consume_all cap func st (prod_ring p); Some (n, st', p\<lparr>prod_ring := rb\<rparr>) }"

section \<open>The loops over the producers\<close>

text \<open>
  \<open>drain_budget\<close> is the loop of \<open>dequeue(T *ret, size_t size)\<close>: a budget shared by all producers,
  each one appending after the items of the previous one. \<open>drain_chunks\<close> is the loop of the
  copy-out \<open>consume_all(func, scratch, chunk)\<close>: a limit per producer, the scratch buffer
  rewritten from index 0 for each. \<open>drain_in_place\<close> is the loop of \<open>consume_all(func)\<close>. The
  producer's own operation is their first argument.
\<close>

fun drain_budget ::
  "('a list \<Rightarrow> size_t \<Rightarrow> size_t \<Rightarrow> 'q \<Rightarrow> (size_t \<times> 'a list \<times> 'q) option) \<Rightarrow>
     'a list \<Rightarrow> size_t \<Rightarrow> size_t \<Rightarrow> 'q list \<Rightarrow> (size_t \<times> 'a list \<times> 'q list) option" where
  "drain_budget deq ret off sz [] = Some (sz, ret, [])"
| "drain_budget deq ret off sz (q # qs) =
     do {
       (n, ret1, q1) \<leftarrow> deq ret off sz q;
       let off1 = off + n;
       let sz1 = szsub sz n;
       if sz1 = 0 then Some (sz1, ret1, q1 # qs)
       else do {
         (sz2, ret2, qs1) \<leftarrow> drain_budget deq ret1 off1 sz1 qs;
         Some (sz2, ret2, q1 # qs1)
       }
     }"

fun drain_chunks ::
  "('s \<Rightarrow> 'a list \<Rightarrow> size_t \<Rightarrow> 'q \<Rightarrow> (size_t \<times> 's \<times> 'a list \<times> 'q) option) \<Rightarrow>
     size_t \<Rightarrow> size_t \<Rightarrow> 's \<Rightarrow> 'a list \<Rightarrow> 'q list \<Rightarrow> (size_t \<times> 's \<times> 'a list \<times> 'q list) option" where
  "drain_chunks deqf chunk nb_consume st scratch [] = Some (nb_consume, st, scratch, [])"
| "drain_chunks deqf chunk nb_consume st scratch (q # qs) =
     do {
       (n, st1, scratch1, q1) \<leftarrow> deqf st scratch chunk q;
       (nb, st2, scratch2, qs1) \<leftarrow> drain_chunks deqf chunk (szadd nb_consume n) st1 scratch1 qs;
       Some (nb, st2, scratch2, q1 # qs1)
     }"

fun drain_in_place ::
  "('s \<Rightarrow> 'q \<Rightarrow> (size_t \<times> 's \<times> 'q) option) \<Rightarrow> size_t \<Rightarrow> 's \<Rightarrow> 'q list \<Rightarrow>
     (size_t \<times> 's \<times> 'q list) option" where
  "drain_in_place consume nb_consume st [] = Some (nb_consume, st, [])"
| "drain_in_place consume nb_consume st (q # qs) =
     do {
       (n, st1, q1) \<leftarrow> consume st q;
       (nb, st2, qs1) \<leftarrow> drain_in_place consume (szadd nb_consume n) st1 qs;
       Some (nb, st2, q1 # qs1)
     }"

section \<open>The queue\<close>

text \<open>
  The state of the queue is its array of producers. An index outside it, and the remainder by a
  zero number of producers in the round-robin overloads, are undefined behaviour. The
  round-robin overloads hold the producer's lock around the enqueue (\<open>std::lock_guard\<close>) and keep
  their thread-local counter, an argument and a result here; alone, a thread that finds the lock
  taken spins for ever, which is \<^const>\<open>None\<close>.
\<close>

definition mpsc_new :: "size_t \<Rightarrow> 'a list \<Rightarrow> 'a producer list" where
  "mpsc_new nb_producer storage =
     replicate nb_producer \<lparr>lock = False, prod_ring = ring_new storage\<rparr>"

definition mpsc_enqueue1_at ::
  "size_t \<Rightarrow> size_t \<Rightarrow> 'a \<Rightarrow> 'a producer list \<Rightarrow> (bool \<times> 'a producer list) option" where
  "mpsc_enqueue1_at cap index t ps =
     (if index < length ps
      then do { (ok, p) \<leftarrow> producer_enqueue1 cap t (ps ! index); Some (ok, ps[index := p]) }
      else None)"

definition mpsc_enqueue_at ::
  "size_t \<Rightarrow> bool \<Rightarrow> size_t \<Rightarrow> 'a list \<Rightarrow> size_t \<Rightarrow> 'a producer list \<Rightarrow>
     (size_t \<times> 'a producer list) option" where
  "mpsc_enqueue_at cap all_or_none index t sz ps =
     (if index < length ps
      then do { (n, p) \<leftarrow> producer_enqueue cap all_or_none t sz (ps ! index); Some (n, ps[index := p]) }
      else None)"

definition mpsc_fixed_enqueue_index ::
  "size_t \<Rightarrow> bool \<Rightarrow> size_t \<Rightarrow> 'a list \<Rightarrow> size_t \<Rightarrow> 'a producer list \<Rightarrow>
     (size_t \<times> 'a producer list) option" where
  "mpsc_fixed_enqueue_index cap all_or_none index t sz ps =
     (if index < length ps
      then do { (n, p) \<leftarrow> producer_enqueue cap True t sz (ps ! index); Some (n, ps[index := p]) }
      else None)"

definition mpsc_dynamic_enqueue_index ::
  "size_t \<Rightarrow> bool \<Rightarrow> size_t \<Rightarrow> 'a list \<Rightarrow> size_t \<Rightarrow> 'a producer list \<Rightarrow>
     (size_t \<times> 'a producer list) option" where
  "mpsc_dynamic_enqueue_index cap all_or_none index t sz ps =
     (if index < length ps
      then do { (n, p) \<leftarrow> producer_enqueue cap all_or_none t sz (ps ! index); Some (n, ps[index := p]) }
      else None)"

definition producer_lock :: "'a producer \<Rightarrow> 'a producer option" where
  "producer_lock p = (if lock p then None else Some (p\<lparr>lock := True\<rparr>))"

definition producer_unlock :: "'a producer \<Rightarrow> 'a producer" where
  "producer_unlock p = p\<lparr>lock := False\<rparr>"

definition mpsc_enqueue1_any ::
  "size_t \<Rightarrow> size_t \<Rightarrow> 'a \<Rightarrow> 'a producer list \<Rightarrow> (bool \<times> size_t \<times> 'a producer list) option" where
  "mpsc_enqueue1_any cap tl_index t ps =
     (if ps = [] then None
      else do {
        let index = tl_index mod length ps;
        p0 \<leftarrow> producer_lock (ps ! index);
        (ok, p1) \<leftarrow> producer_enqueue1 cap t p0;
        Some (ok, szadd tl_index 1, ps[index := producer_unlock p1])
      })"

definition mpsc_enqueue_any ::
  "size_t \<Rightarrow> bool \<Rightarrow> size_t \<Rightarrow> 'a list \<Rightarrow> size_t \<Rightarrow> 'a producer list \<Rightarrow>
     (size_t \<times> size_t \<times> 'a producer list) option" where
  "mpsc_enqueue_any cap all_or_none tl_index t sz ps =
     (if ps = [] then None
      else do {
        let index = tl_index mod length ps;
        p0 \<leftarrow> producer_lock (ps ! index);
        (n, p1) \<leftarrow> producer_enqueue cap all_or_none t sz p0;
        Some (n, szadd tl_index 1, ps[index := producer_unlock p1])
      })"

definition mpsc_dequeue ::
  "size_t \<Rightarrow> 'a list \<Rightarrow> size_t \<Rightarrow> 'a producer list \<Rightarrow> (size_t \<times> 'a list \<times> 'a producer list) option" where
  "mpsc_dequeue cap ret sz ps =
     do {
       (sz', ret', ps') \<leftarrow> drain_budget (producer_dequeue cap) ret 0 sz ps;
       Some (szsub sz sz', ret', ps')
     }"

definition mpsc_consume_all ::
  "size_t \<Rightarrow> ('s \<Rightarrow> 'a list \<Rightarrow> 's) \<Rightarrow> 's \<Rightarrow> 'a producer list \<Rightarrow> (size_t \<times> 's \<times> 'a producer list) option" where
  "mpsc_consume_all cap func st ps = drain_in_place (producer_consume_all cap func) 0 st ps"

definition mpsc_consume_all_copy ::
  "size_t \<Rightarrow> ('s \<Rightarrow> 'a list \<Rightarrow> 's) \<Rightarrow> 's \<Rightarrow> 'a list \<Rightarrow> size_t \<Rightarrow> 'a producer list \<Rightarrow>
     (size_t \<times> 's \<times> 'a list \<times> 'a producer list) option" where
  "mpsc_consume_all_copy cap func st scratch chunk ps =
     drain_chunks (producer_dequeue_func cap func) chunk 0 st scratch ps"

definition ringOf :: "size_t \<Rightarrow> 'a producer list \<Rightarrow> 'a ringbuffer option" where
  "ringOf index ps = (if index < length ps then Some (prod_ring (ps ! index)) else None)"

section \<open>The interface of a producer's ring\<close>

locale bounded_fifo =
  fixes invar :: "'q \<Rightarrow> bool"
    and contents :: "'q \<Rightarrow> 'a list"
    and room :: "'q \<Rightarrow> nat"
    and cap :: nat
    and enq :: "bool \<Rightarrow> 'a list \<Rightarrow> size_t \<Rightarrow> 'q \<Rightarrow> (size_t \<times> 'q) option"
    and deq :: "'a list \<Rightarrow> size_t \<Rightarrow> size_t \<Rightarrow> 'q \<Rightarrow> (size_t \<times> 'a list \<times> 'q) option"
    and deqf :: "('s \<Rightarrow> 'a list \<Rightarrow> 's) \<Rightarrow> 's \<Rightarrow> 'a list \<Rightarrow> size_t \<Rightarrow> 'q \<Rightarrow> (size_t \<times> 's \<times> 'a list \<times> 'q) option"
  assumes enq_law: "invar q \<Longrightarrow> cnt \<le> length inp \<Longrightarrow> k = accepted a cnt (room q) \<Longrightarrow>
      \<exists>q'. enq a inp cnt q = Some (k, q') \<and> invar q' \<and> contents q' = contents q @ take k inp"
    and deq_law: "invar q \<Longrightarrow> k = min cnt (length (contents q)) \<Longrightarrow> off + k \<le> length out \<Longrightarrow>
      \<exists>q'. deq out off cnt q = Some (k, take off out @ take k (contents q) @ drop (off + k) out, q') \<and>
        invar q' \<and> contents q' = drop k (contents q)"
    and deqf_law: "invar q \<Longrightarrow> cnt \<le> length out \<Longrightarrow>
      \<exists>out' q'. deqf f st out cnt q = Some (length (take cnt (contents q)),
          if take cnt (contents q) = [] then st else f st (take cnt (contents q)), out', q') \<and>
        length out' = length out \<and> invar q' \<and> contents q' = drop cnt (contents q)"
    and cap_law: "invar q \<Longrightarrow> length (contents q) + room q = cap"

context bounded_fifo
begin

abbreviation pending :: "'q list \<Rightarrow> 'a list" where
  "pending qs \<equiv> concat (map contents qs)"

lemma drain_budget_correct:
  assumes "\<forall>q \<in> set qs. invar q" "sz < size_mod"
    and "k = min sz (length (pending qs))" "off + k \<le> length ret"
  shows "\<exists>qs'. drain_budget deq ret off sz qs =
       Some (sz - k, take off ret @ take k (pending qs) @ drop (off + k) ret, qs') \<and>
     length qs' = length qs \<and> (\<forall>q \<in> set qs'. invar q) \<and> pending qs' = drop k (pending qs)"
  using assms
proof (induction qs arbitrary: ret off sz k)
  case Nil
  then show ?case by simp
next
  case (Cons q qs)
  let ?n = "min sz (length (contents q))"
  have "?n \<le> k" using Cons.prems(3) by simp
  then have fits: "off + ?n \<le> length ret" using Cons.prems(4) by linarith
  from Cons.prems(1) have "invar q" by simp
  then obtain q1 where d: "deq ret off sz q =
        Some (?n, take off ret @ take ?n (contents q) @ drop (off + ?n) ret, q1)"
    and q1: "invar q1" "contents q1 = drop ?n (contents q)"
    using deq_law [OF _ refl fits] by blast
  define ret1 where "ret1 = take off ret @ take ?n (contents q) @ drop (off + ?n) ret"
  have sub: "szsub sz ?n = sz - ?n" using Cons.prems(2) by (simp add: szsub_small)
  show ?case
  proof (cases "sz - ?n = 0")
    case True
    then have n: "?n = sz" "sz \<le> length (contents q)" by auto
    then have k: "k = sz" using Cons.prems(3) by simp
    show ?thesis
      using d sub q1 n k Cons.prems(1) by (simp add: Let_def)
  next
    case False
    then have n: "?n = length (contents q)" "length (contents q) < sz" by auto
    let ?k = "min (sz - ?n) (length (pending qs))"
    have k: "k = ?n + ?k" using n Cons.prems(3) by simp
    have len1: "length ret1 = length ret" using fits by (simp add: ret1_def)
    have fits1: "(off + ?n) + ?k \<le> length ret1" using Cons.prems(4) k len1 by linarith
    have inv1: "\<forall>q \<in> set qs. invar q" and small1: "sz - ?n < size_mod"
      using Cons.prems(1,2) by (simp, linarith)
    obtain qs' where rec: "drain_budget deq ret1 (off + ?n) (sz - ?n) qs =
        Some (sz - ?n - ?k, take (off + ?n) ret1 @ take ?k (pending qs) @ drop (off + ?n + ?k) ret1, qs')"
      and qs': "length qs' = length qs" "\<forall>q \<in> set qs'. invar q" "pending qs' = drop ?k (pending qs)"
      using Cons.IH [OF inv1 small1 refl fits1] by blast
    have t: "take (off + ?n) ret1 = take off ret @ take ?n (contents q)"
      and dr: "drop (off + ?n + ?k) ret1 = drop (off + k) ret"
      using fits by (simp_all add: ret1_def k add.assoc add.commute)
    have "drain_budget deq ret off sz (q # qs) = Some (sz - ?n - ?k,
        (take off ret @ take ?n (contents q)) @ take ?k (pending qs) @ drop (off + k) ret, q1 # qs')"
      using d rec sub False t dr by (simp add: Let_def ret1_def)
    then show ?thesis
      using q1 qs' k n by simp
  qed
qed

lemma drain_chunks_correct:
  assumes "\<forall>q \<in> set qs. invar q" "chunk \<le> length scratch"
    and "nb + length (concat (map (\<lambda>q. take chunk (contents q)) qs)) < size_mod"
  shows "\<exists>scratch' qs'. drain_chunks (deqf f) chunk nb st scratch qs =
       Some (nb + length (concat (map (\<lambda>q. take chunk (contents q)) qs)),
         fold (\<lambda>b s. f s b) (filter (\<lambda>b. b \<noteq> []) (map (\<lambda>q. take chunk (contents q)) qs)) st, scratch', qs') \<and> length scratch' = length scratch \<and>
     list_all2 (\<lambda>q q'. invar q' \<and> contents q' = drop chunk (contents q)) qs qs'"
  using assms
proof (induction qs arbitrary: nb st scratch)
  case Nil
  then show ?case by simp
next
  case (Cons q qs)
  let ?b = "take chunk (contents q)"
  define st1 where "st1 = (if ?b = [] then st else f st ?b)"
  from Cons.prems have q: "invar q" "chunk \<le> length scratch" by simp_all
  obtain s1 q1 where d: "deqf f st scratch chunk q = Some (length ?b, st1, s1, q1)"
    and q1: "length s1 = length scratch" "invar q1" "contents q1 = drop chunk (contents q)"
    using deqf_law [OF q, of f st] unfolding st1_def by blast
  have add: "szadd nb (length ?b) = nb + length ?b"
    using Cons.prems(3) by (simp add: szadd_small)
  have bound: "nb + length ?b + length (concat (map (\<lambda>q. take chunk (contents q)) qs)) < size_mod"
    using Cons.prems(3) by simp
  have inv: "\<forall>q \<in> set qs. invar q" and len: "chunk \<le> length s1" using Cons.prems q1 by auto
  obtain s' qs' where rec: "drain_chunks (deqf f) chunk (nb + length ?b) st1 s1 qs =
       Some (nb + length ?b + length (concat (map (\<lambda>q. take chunk (contents q)) qs)),
         fold (\<lambda>b s. f s b) (filter (\<lambda>b. b \<noteq> []) (map (\<lambda>q. take chunk (contents q)) qs)) st1, s', qs')" "length s' = length s1"
    and qs': "list_all2 (\<lambda>q q'. invar q' \<and> contents q' = drop chunk (contents q)) qs qs'"
    using Cons.IH [OF inv len bound] by blast
  have st: "fold (\<lambda>b s. f s b) (filter (\<lambda>b. b \<noteq> []) (map (\<lambda>q. take chunk (contents q)) (q # qs))) st =
      fold (\<lambda>b s. f s b) (filter (\<lambda>b. b \<noteq> []) (map (\<lambda>q. take chunk (contents q)) qs)) st1"
    by (simp add: st1_def)
  show ?case
    unfolding st using d add rec q1 qs' by (simp add: add.assoc)
qed

end

lemma ring_dequeue_func_correct:
  assumes inv: "ring_inv (cap + 1) rb" and len: "cnt \<le> length out"
  shows "\<exists>out' rb'. spsc_dequeue_func cap f st out cnt rb = Some (length (take cnt (ring_list rb)),
       if take cnt (ring_list rb) = [] then st else f st (take cnt (ring_list rb)), out', rb') \<and>
     length out' = length out \<and> ring_inv (cap + 1) rb' \<and> ring_list rb' = drop cnt (ring_list rb)"
proof -
  let ?k = "min cnt (length (ring_list rb))"
  have k: "0 + ?k \<le> length out" using len by simp
  have tk: "take ?k (ring_list rb) = take cnt (ring_list rb)" "drop ?k (ring_list rb) = drop cnt (ring_list rb)"
    by (simp_all add: min_def)
  have k0: "?k \<noteq> 0 \<longleftrightarrow> take cnt (ring_list rb) \<noteq> []" by (auto simp: min_def)
  obtain rb' where "ring_dequeue out 0 cnt rb (cap + 1) =
      Some (?k, take ?k (ring_list rb) @ drop ?k out, rb')"
    "ring_inv (cap + 1) rb'" "ring_list rb' = drop ?k (ring_list rb)"
    using ring_dequeue_correct [OF inv refl k] by auto
  then show ?thesis
    using k0 k by (auto simp: spsc_dequeue_func_def ring_slots_inv [OF inv] tk min.commute)
qed

interpretation spsc: bounded_fifo "ring_inv (cap + 1)" ring_list "ring_room (cap + 1)" cap
  "spsc_enqueue cap" "spsc_dequeue cap" "spsc_dequeue_func cap" for cap
proof (unfold_locales, goal_cases)
  case (1 q cnt inp k a)
  with ring_enqueue_correct [OF 1] ring_slots_inv [OF 1(1)] show ?case by (auto simp: spsc_enqueue_def)
next
  case (2 q k cnt off out)
  with ring_dequeue_correct [OF 2] ring_slots_inv [OF 2(1)] show ?case by (auto simp: spsc_dequeue_def)
next
  case (3 q cnt out f st)
  then show ?case by (rule ring_dequeue_func_correct)
next
  case (4 q)
  then show ?case using ring_list_bound [OF 4] by simp
qed

definition producer_inv :: "nat \<Rightarrow> 'a producer \<Rightarrow> bool" where
  "producer_inv cap p \<longleftrightarrow> ring_inv (cap + 1) (prod_ring p)"

definition producer_list :: "'a producer \<Rightarrow> 'a list" where
  "producer_list p = ring_list (prod_ring p)"

definition producer_room :: "nat \<Rightarrow> 'a producer \<Rightarrow> nat" where
  "producer_room cap p = cap - length (producer_list p)"

interpretation producer: bounded_fifo "producer_inv cap" producer_list "producer_room cap" cap
  "producer_enqueue cap" "producer_dequeue cap" "producer_dequeue_func cap" for cap
proof (unfold_locales, goal_cases)
  case (1 q cnt inp k a)
  then show ?case
    using spsc.enq_law [of cap "prod_ring q" cnt inp k a]
    by (auto simp: producer_inv_def producer_list_def producer_room_def producer_enqueue_def ring_room_def)
next
  case (2 q k cnt off out)
  then show ?case
    using spsc.deq_law [of cap "prod_ring q" k cnt off out]
    by (auto simp: producer_inv_def producer_list_def producer_dequeue_def)
next
  case (3 q cnt out f st)
  then show ?case
    using spsc.deqf_law [of cap "prod_ring q" cnt out f st]
    by (auto simp: producer_inv_def producer_list_def producer_dequeue_func_def)
next
  case (4 q)
  then show ?case
    using spsc.cap_law [of cap "prod_ring q"]
    by (simp add: producer_inv_def producer_list_def producer_room_def)
qed

section \<open>The queue's guarantees\<close>

definition mpsc_inv :: "nat \<Rightarrow> 'a producer list \<Rightarrow> bool" where
  "mpsc_inv cap ps \<longleftrightarrow> (\<forall>p \<in> set ps. producer_inv cap p)"

definition mpsc_pending :: "'a producer list \<Rightarrow> 'a list" where
  "mpsc_pending ps = concat (map producer_list ps)"

lemma mpsc_new_inv:
  assumes "length storage = cap + 1" "cap + 1 < 2 ^ 63"
  shows "mpsc_inv cap (mpsc_new n storage)" "mpsc_pending (mpsc_new n storage) = []"
  using ring_new_inv [OF assms]
  by (auto simp: mpsc_inv_def mpsc_pending_def mpsc_new_def producer_inv_def producer_list_def)

lemma mpsc_inv_update: "mpsc_inv cap ps \<Longrightarrow> producer_inv cap p \<Longrightarrow> mpsc_inv cap (ps[i := p])"
  by (auto simp: mpsc_inv_def dest: set_update_subset_insert [THEN subsetD])

lemma mpsc_inv_nth: "mpsc_inv cap ps \<Longrightarrow> i < length ps \<Longrightarrow> producer_inv cap (ps ! i)"
  by (simp add: mpsc_inv_def)

lemma producer_consume_all_collects:
  assumes "producer_inv cap p"
  shows "\<exists>p'. producer_consume_all cap (@) st p = Some (length (producer_list p), st @ producer_list p, p') \<and>
     producer_inv cap p' \<and> producer_list p' = []"
  using ring_consume_all_correct [OF assms [unfolded producer_inv_def], of "(@)" st]
    ring_slots_inv [OF assms [unfolded producer_inv_def]]
  by (auto simp: producer_consume_all_def spsc_consume_all_def producer_inv_def producer_list_def Let_def)

lemma mpsc_consume_all_collects:
  assumes "mpsc_inv cap ps" "n + length (mpsc_pending ps) < size_mod"
  shows "\<exists>ps'. drain_in_place (producer_consume_all cap (@)) n st ps =
       Some (n + length (mpsc_pending ps), st @ mpsc_pending ps, ps') \<and>
     mpsc_inv cap ps' \<and> mpsc_pending ps' = []"
  using assms
proof (induction ps arbitrary: n st)
  case Nil
  then show ?case by (simp add: mpsc_inv_def mpsc_pending_def)
next
  case (Cons p ps)
  then have "producer_inv cap p" by (simp add: mpsc_inv_def)
  then obtain p' where p': "producer_consume_all cap (@) st p =
      Some (length (producer_list p), st @ producer_list p, p')" "producer_inv cap p'" "producer_list p' = []"
    using producer_consume_all_collects by blast
  moreover have "szadd n (length (producer_list p)) = n + length (producer_list p)"
    using Cons.prems(2) by (simp add: szadd_small mpsc_pending_def)
  ultimately show ?case
    using Cons.IH [of "n + length (producer_list p)" "st @ producer_list p"] Cons.prems
    by (auto simp: mpsc_inv_def mpsc_pending_def add.assoc)
qed

lemma mpsc_enqueue_at_correct:
  assumes inv: "mpsc_inv cap ps" and i: "i < length ps" and len: "cnt \<le> length inp"
    and k: "k = accepted a cnt (producer_room cap (ps ! i))"
  shows "\<exists>p. mpsc_enqueue_at cap a i inp cnt ps = Some (k, ps[i := p]) \<and>
     producer_list p = producer_list (ps ! i) @ take k inp \<and> mpsc_inv cap (ps[i := p])"
  using producer.enq_law [OF mpsc_inv_nth [OF inv i] len k] i mpsc_inv_update [OF inv]
  by (auto simp: mpsc_enqueue_at_def)

text \<open>C29. The multi-producer \<open>dequeue(ret, size)\<close> takes the first \<open>size\<close> items of the producers'
  queues, producer after producer, appends them in that order at the start of the output
  buffer (never overwriting one producer's items by the next one's), returns their number, leaves
  the rest of the buffer alone and leaves exactly the remaining items in the rings.\<close>

theorem mpsc_dequeue_correct:
  assumes "mpsc_inv cap ps" "sz < size_mod"
    and "k = min sz (length (mpsc_pending ps))" "k \<le> length ret"
  shows "\<exists>ps'. mpsc_dequeue cap ret sz ps = Some (k, take k (mpsc_pending ps) @ drop k ret, ps') \<and>
     mpsc_inv cap ps' \<and> mpsc_pending ps' = drop k (mpsc_pending ps)"
proof -
  have "szsub sz (sz - k) = k" using assms(2,3) by (simp add: szsub_small)
  then show ?thesis
    using producer.drain_budget_correct [of ps cap sz k 0 ret] assms
    by (auto simp: mpsc_inv_def mpsc_pending_def mpsc_dequeue_def)
qed

theorem mpsc_dequeue_correct_witness:
  "\<exists>ps'. mpsc_dequeue 2 [0, 0, 0, 9::nat] 3
       [\<lparr>lock = False, prod_ring = \<lparr>write_index = 1, read_index = 2, array = [6, 0, 5]\<rparr>\<rparr>,
        \<lparr>lock = False, prod_ring = \<lparr>write_index = 2, read_index = 0, array = [7, 8, 0]\<rparr>\<rparr>] =
     Some (3, [5, 6, 7, 9], ps') \<and> mpsc_pending ps' = [8]"
  using mpsc_dequeue_correct [of 2
      "[\<lparr>lock = False, prod_ring = \<lparr>write_index = 1, read_index = 2, array = [6, 0, 5]\<rparr>\<rparr>,
        \<lparr>lock = False, prod_ring = \<lparr>write_index = 2, read_index = 0, array = [7, 8, 0]\<rparr>\<rparr>]"
      3 3 "[0, 0, 0, 9::nat]"]
  by (auto simp: mpsc_inv_def producer_inv_def ring_inv_def mpsc_pending_def producer_list_def ring_list_def
      window_def read_available_def szsub_def szadd_def upt_rec)

text \<open>C28. The copy-out \<open>consume_all(func, scratch, chunk)\<close> serves every producer in one call: each
  ring hands the functor, in one non-empty batch in producer order, its first \<open>chunk\<close> items, keeps
  the others, and no producer's share depends on how much the others had queued. The call returns
  the number of items delivered.\<close>

theorem mpsc_consume_all_copy_fair:
  assumes "mpsc_inv cap ps" "chunk \<le> length scratch"
    and "batches = map (take chunk \<circ> producer_list) ps" "length (concat batches) < size_mod"
  shows "\<exists>scratch' ps'. mpsc_consume_all_copy cap func st scratch chunk ps =
       Some (length (concat batches), fold (\<lambda>b s. func s b) (filter (\<lambda>b. b \<noteq> []) batches) st, scratch', ps') \<and>
     mpsc_inv cap ps' \<and> map producer_list ps' = map (drop chunk \<circ> producer_list) ps"
proof -
  obtain scratch' ps' where d: "mpsc_consume_all_copy cap func st scratch chunk ps =
      Some (length (concat batches), fold (\<lambda>b s. func s b) (filter (\<lambda>b. b \<noteq> []) batches) st, scratch', ps')"
    and r: "list_all2 (\<lambda>q q'. producer_inv cap q' \<and> producer_list q' = drop chunk (producer_list q)) ps ps'"
    using producer.drain_chunks_correct [of ps cap chunk scratch 0 func st] assms
    by (auto simp: mpsc_inv_def mpsc_consume_all_copy_def comp_def)
  have "mpsc_inv cap ps'" "map producer_list ps' = map (drop chunk \<circ> producer_list) ps"
    using r by (induction rule: list_all2_induct) (simp_all add: mpsc_inv_def)
  with d show ?thesis by blast
qed

theorem mpsc_consume_all_copy_fair_witness:
  "\<exists>scratch' ps'. mpsc_consume_all_copy 2 (@) [] [0, 0] 1
       [\<lparr>lock = False, prod_ring = \<lparr>write_index = 1, read_index = 2, array = [6, 0, 5::nat]\<rparr>\<rparr>,
        \<lparr>lock = False, prod_ring = \<lparr>write_index = 2, read_index = 0, array = [7, 8, 0]\<rparr>\<rparr>] =
     Some (2, [5, 7], scratch', ps') \<and> map producer_list ps' = [[6], [8]]"
  using mpsc_consume_all_copy_fair [of 2
      "[\<lparr>lock = False, prod_ring = \<lparr>write_index = 1, read_index = 2, array = [6, 0, 5::nat]\<rparr>\<rparr>,
        \<lparr>lock = False, prod_ring = \<lparr>write_index = 2, read_index = 0, array = [7, 8, 0]\<rparr>\<rparr>]"
      1 "[0, 0]" "[[5], [7]]" "(@)" "[]"]
  by (auto simp: mpsc_inv_def producer_inv_def ring_inv_def producer_list_def ring_list_def
      window_def read_available_def szsub_def szadd_def upt_rec)

text \<open>
  The compile-time-index overload of the fixed-size class drops its \<open>_All\<close> argument, the one of the
  run-time class passes it on: the same partial request stores one item in one and none in the other.
\<close>

lemma mpsc_fixed_index_is_all_or_none:
  "mpsc_fixed_enqueue_index cap all_or_none i t sz ps = mpsc_enqueue_at cap True i t sz ps"
  "mpsc_dynamic_enqueue_index cap all_or_none i t sz ps = mpsc_enqueue_at cap all_or_none i t sz ps"
  by (simp_all add: mpsc_fixed_enqueue_index_def mpsc_dynamic_enqueue_index_def mpsc_enqueue_at_def)

lemma mpsc_fixed_index_divergence:
  "\<exists>ps1 ps2. mpsc_fixed_enqueue_index 1 False 0 [1, 2] 2 (mpsc_new 1 [0, 0::nat]) = Some (0, ps1) \<and>
     mpsc_dynamic_enqueue_index 1 False 0 [1, 2] 2 (mpsc_new 1 [0, 0::nat]) = Some (1, ps2)"
proof -
  have new: "mpsc_inv 1 (mpsc_new 1 [0, 0::nat])" "producer_room 1 (mpsc_new 1 [0, 0::nat] ! 0) = 1"
    using mpsc_new_inv [of "[0, 0::nat]" 1 1] by (simp_all add: mpsc_new_def mpsc_pending_def producer_room_def)
  have len: "0 < length (mpsc_new 1 [0, 0::nat])" by (simp add: mpsc_new_def)
  show ?thesis
    using mpsc_enqueue_at_correct [OF new(1) len, of 2 "[1, 2]" 0 True]
      mpsc_enqueue_at_correct [OF new(1) len, of 2 "[1, 2]" 1 False] new(2)
    by (auto simp: mpsc_fixed_index_is_all_or_none accepted_def)
qed

end
