(* ===== verification/Spsc_Concurrent.thy ===== *)
theory Spsc_Concurrent
  imports Spsc_Ring
begin

text \<open>
  The single-producer ring as its two threads run it. Every access to a shared variable is a
  step of its own: the load of the other side's index, the copy of each slot, the release store
  of the own index. The producer's and the consumer's steps interleave freely. The acquire loads
  and release stores of the source order the slot accesses around the index they publish, so
  the interleavings of such steps are the executions of the code as long as no slot is accessed
  by both threads at once; that they never are is itself a theorem here.
\<close>

section \<open>The slots of a bulk copy\<close>

text \<open>
  Both bulk operations split a run of \<open>cnt\<close> slots from \<open>start\<close> into at most two \<open>memcpy\<close>
  segments; \<open>segment_slot\<close> is the slot of the \<open>j\<close>-th element, \<open>segment_end\<close> the index stored
  afterwards.
\<close>

definition segment_slot :: "size_t \<Rightarrow> size_t \<Rightarrow> size_t \<Rightarrow> size_t \<Rightarrow> size_t" where
  "segment_slot m start cnt j =
     (if szadd start cnt > m
      then (let count0 = szsub m start in if j < count0 then start + j else j - count0)
      else start + j)"

definition segment_end :: "size_t \<Rightarrow> size_t \<Rightarrow> size_t \<Rightarrow> size_t" where
  "segment_end m start cnt =
     (let new_index = szadd start cnt
      in if new_index > m then szsub new_index m else if new_index = m then 0 else new_index)"

definition enqueue_count :: "bool \<Rightarrow> size_t \<Rightarrow> size_t \<Rightarrow> size_t option" where
  "enqueue_count all_or_none input_count avail =
     (if all_or_none then if avail < input_count then None else Some input_count
      else if avail = 0 then None else Some (min input_count avail))"

section \<open>The threads\<close>

datatype 'a producer_pc = P_idle | P_copy "'a list" nat
datatype 'a consumer_pc = C_idle | C_copy nat "'a list"

record 'a spsc_sys =
  shared :: "'a ringbuffer"
  ppc :: "'a producer_pc"
  cpc :: "'a consumer_pc"
  pushed :: "'a list"
  popped :: "'a list"

text \<open>
  \<open>pushed\<close> collects what completed enqueues stored, \<open>popped\<close> what completed dequeues returned.
\<close>

inductive spsc_sys_step :: "size_t \<Rightarrow> 'a spsc_sys \<Rightarrow> 'a spsc_sys \<Rightarrow> bool" for m where
  p_begin1: "ppc s = P_idle \<Longrightarrow>
     next_index (write_index (shared s)) m \<noteq> read_index (shared s) \<Longrightarrow>
     spsc_sys_step m s (s\<lparr>ppc := P_copy [t] 0\<rparr>)"
| p_begin: "ppc s = P_idle \<Longrightarrow>
     enqueue_count all_or_none (length xs)
       (write_available (write_index (shared s)) (read_index (shared s)) m) = Some k \<Longrightarrow>
     spsc_sys_step m s (s\<lparr>ppc := P_copy (take k xs) 0\<rparr>)"
| p_copy: "ppc s = P_copy ys j \<Longrightarrow> j < length ys \<Longrightarrow>
     spsc_sys_step m s
       (s\<lparr>shared := (shared s)\<lparr>array := (array (shared s))
            [segment_slot m (write_index (shared s)) (length ys) j := ys ! j]\<rparr>,
          ppc := P_copy ys (Suc j)\<rparr>)"
| p_publish: "ppc s = P_copy ys (length ys) \<Longrightarrow>
     spsc_sys_step m s
       (s\<lparr>shared := (shared s)\<lparr>write_index := segment_end m (write_index (shared s)) (length ys)\<rparr>,
          ppc := P_idle, pushed := pushed s @ ys\<rparr>)"
| c_begin: "cpc s = C_idle \<Longrightarrow>
     read_available (write_index (shared s)) (read_index (shared s)) m = avail \<Longrightarrow> avail \<noteq> 0 \<Longrightarrow>
     spsc_sys_step m s (s\<lparr>cpc := C_copy (min output_count avail) []\<rparr>)"
| c_copy: "cpc s = C_copy k acc \<Longrightarrow> length acc < k \<Longrightarrow>
     spsc_sys_step m s
       (s\<lparr>cpc := C_copy k (acc @ [array (shared s) !
            segment_slot m (read_index (shared s)) k (length acc)])\<rparr>)"
| c_publish: "cpc s = C_copy (length acc) acc \<Longrightarrow>
     spsc_sys_step m s
       (s\<lparr>shared := (shared s)\<lparr>read_index := segment_end m (read_index (shared s)) (length acc)\<rparr>,
          cpc := C_idle, popped := popped s @ acc\<rparr>)"

inductive_cases spsc_sys_stepE: "spsc_sys_step m s s'"

inductive spsc_reach :: "size_t \<Rightarrow> 'a list \<Rightarrow> 'a spsc_sys \<Rightarrow> bool" for m storage where
  start: "spsc_reach m storage
     \<lparr>shared = ring_new storage, ppc = P_idle, cpc = C_idle, pushed = [], popped = []\<rparr>"
| step: "spsc_reach m storage s \<Longrightarrow> spsc_sys_step m s s' \<Longrightarrow> spsc_reach m storage s'"

section \<open>The invariant\<close>

fun producer_ok :: "size_t \<Rightarrow> 'a ringbuffer \<Rightarrow> 'a producer_pc \<Rightarrow> bool" where
  "producer_ok m rb P_idle \<longleftrightarrow> True"
| "producer_ok m rb (P_copy ys j) \<longleftrightarrow> j \<le> length ys \<and> length ys \<le> ring_room m rb \<and>
     window (array rb) (write_index rb) j = take j ys"

fun consumer_ok :: "'a ringbuffer \<Rightarrow> 'a consumer_pc \<Rightarrow> bool" where
  "consumer_ok rb C_idle \<longleftrightarrow> True"
| "consumer_ok rb (C_copy k acc) \<longleftrightarrow> length acc \<le> k \<and> k \<le> length (ring_list rb) \<and>
     acc = take (length acc) (ring_list rb)"

definition spsc_sys_inv :: "size_t \<Rightarrow> 'a spsc_sys \<Rightarrow> bool" where
  "spsc_sys_inv m s \<longleftrightarrow> ring_inv m (shared s) \<and> producer_ok m (shared s) (ppc s) \<and>
     consumer_ok (shared s) (cpc s) \<and> pushed s = popped s @ ring_list (shared s)"

lemma segment_slot_mod:
  assumes "start < m" "m < 2 ^ 63" "cnt < m" "j < cnt"
  shows "segment_slot m start cnt j = (start + j) mod m"
  using assms by (auto simp: segment_slot_def Let_def szadd_small szsub_small mod_if)

lemma segment_end_mod:
  assumes "start < m" "m < 2 ^ 63" "cnt < m"
  shows "segment_end m start cnt = (start + cnt) mod m"
  using assms by (auto simp: segment_end_def Let_def szadd_small szsub_small mod_if)

lemma ring_index_mod:
  assumes "ring_inv m rb"
  shows "write_index rb = (read_index rb + length (ring_list rb)) mod m"
  using read_available_mod [of "write_index rb" m "read_index rb"] ring_inv_bounds [OF assms]
  by (simp add: length_ring_list [OF assms])

text \<open>A slot store of the producer, beyond the published items, changes nothing either side relies on.\<close>

lemma ring_store_slot:
  assumes inv: "ring_inv m rb" and j: "j < ring_room m rb"
    and rb'_def: "rb' = rb\<lparr>array := (array rb)[(write_index rb + j) mod m := x]\<rparr>"
  shows "ring_inv m rb'" "ring_list rb' = ring_list rb"
    "window (array rb') (write_index rb) (Suc j) = window (array rb) (write_index rb) j @ [x]"
proof -
  note bds = ring_inv_bounds [OF inv]
  let ?a = "array rb" and ?w = "(write_index rb + j) mod m" and ?n = "length (ring_list rb)"
  have wr: "written ?a (?a[?w := x]) ?w [x]" using bds by (intro written_update) simp
  have fits: "?n + j + 1 \<le> m" using ring_list_bound [OF inv] j by linarith
  have w: "?w mod length ?a = (read_index rb + ?n + j) mod length ?a"
    using ring_index_mod [OF inv] bds by (simp add: mod_add_left_eq)
  show inv': "ring_inv m rb'" using bds by (simp add: rb'_def ring_inv_def)
  have all: "window (?a[?w := x]) (read_index rb) (?n + j) = window ?a (read_index rb) (?n + j)"
    using fits bds w by (intro written_window_old [OF wr]) (simp_all add: add.assoc)
  then have "window (?a[?w := x]) (read_index rb) ?n = window ?a (read_index rb) ?n"
    and tail: "window (?a[?w := x]) (read_index rb + ?n) j = window ?a (read_index rb + ?n) j"
    by (auto simp: window_add)
  then show "ring_list rb' = ring_list rb"
    using ring_list_window [OF inv] ring_listI [of rb' m ?n] bds length_ring_list [OF inv]
    by (simp add: rb'_def)
  have wm: "window b (write_index rb) j = window b (read_index rb + ?n) j" if "length b = m" for b :: "'a list"
    using window_mod [of b "read_index rb + ?n" j] ring_index_mod [OF inv] that by simp
  show "window (array rb') (write_index rb) (Suc j) = window (array rb) (write_index rb) j @ [x]"
    using tail bds wm [of ?a] wm [of "?a[?w := x]"] by (simp add: rb'_def window_Suc)
qed

lemma producer_ok_consumed:
  assumes "ring_list rb' = drop k (ring_list rb)" "array rb' = array rb" "write_index rb' = write_index rb"
    and "producer_ok m rb pc"
  shows "producer_ok m rb' pc"
  using assms by (cases pc) (auto simp: ring_room_def)

lemma consumer_ok_produced:
  assumes "ring_list rb' = ring_list rb @ ys" "consumer_ok rb pc"
  shows "consumer_ok rb' pc"
  using assms by (cases pc) auto

lemma enqueue_count_room:
  assumes "enqueue_count a n r = Some k"
  shows "k \<le> r" "k \<le> n"
  using assms by (auto simp: enqueue_count_def split: if_splits)

lemma producer_step_inv:
  assumes inv: "ring_inv m rb" and ok: "producer_ok m rb (P_copy ys j)" and j: "j < length ys"
    and rb': "rb' = rb\<lparr>array := (array rb)[segment_slot m (write_index rb) (length ys) j := ys ! j]\<rparr>"
  shows "ring_inv m rb'" "ring_list rb' = ring_list rb" "producer_ok m rb' (P_copy ys (Suc j))"
proof -
  note bds = ring_inv_bounds [OF inv]
  have room: "length ys \<le> ring_room m rb" "ring_room m rb < m"
    using ok bds by (auto simp: ring_room_def)
  have slot: "segment_slot m (write_index rb) (length ys) j = (write_index rb + j) mod m"
    using bds room j by (intro segment_slot_mod) auto
  note st = ring_store_slot [OF inv less_le_trans [OF j room(1)], of rb' "ys ! j", unfolded slot [symmetric], OF rb']
  show "ring_inv m rb'" "ring_list rb' = ring_list rb" by (rule st)+
  then show "producer_ok m rb' (P_copy ys (Suc j))"
    using st(3) ok j rb' by (auto simp: ring_room_def take_Suc_conv_app_nth)
qed

lemma producer_publish_inv:
  assumes inv: "ring_inv m rb" and ok: "producer_ok m rb (P_copy ys (length ys))"
    and rb': "rb' = rb\<lparr>write_index := segment_end m (write_index rb) (length ys)\<rparr>"
  shows "ring_inv m rb'" "ring_list rb' = ring_list rb @ ys"
proof -
  note bds = ring_inv_bounds [OF inv]
  have room: "length ys \<le> ring_room m rb" "ring_room m rb < m" and w: "window (array rb) (write_index rb) (length ys) = ys"
    using ok bds by (auto simp: ring_room_def)
  have e: "segment_end m (write_index rb) (length ys) = (write_index rb + length ys) mod m"
    using bds room by (intro segment_end_mod) auto
  have "written (array rb) (array rb) (write_index rb) ys"
    unfolding written_def by (metis length_window w window_nth)
  note pr = ring_produce [OF inv this room(1) e]
  have "rb\<lparr>array := array rb, write_index := segment_end m (write_index rb) (length ys)\<rparr> = rb'"
    by (simp add: rb')
  with pr show "ring_inv m rb'" "ring_list rb' = ring_list rb @ ys" by simp_all
qed

lemma consumer_step_inv:
  assumes inv: "ring_inv m rb" and ok: "consumer_ok rb (C_copy k acc)" and len: "length acc < k"
  shows "consumer_ok rb (C_copy k (acc @ [array rb ! segment_slot m (read_index rb) k (length acc)]))"
proof -
  note bds = ring_inv_bounds [OF inv]
  have "k < m" using ok ring_list_bound(2) [OF inv] by simp
  then have "segment_slot m (read_index rb) k (length acc) = (read_index rb + length acc) mod m"
    using bds len by (intro segment_slot_mod) auto
  moreover have "ring_list rb ! length acc = array rb ! ((read_index rb + length acc) mod m)"
    using ok len bds by (subst ring_list_window [OF inv]) (simp add: )
  ultimately show ?thesis
    using ok len by (auto simp: take_Suc_conv_app_nth)
qed

lemma consumer_publish_inv:
  assumes inv: "ring_inv m rb" and ok: "consumer_ok rb (C_copy (length acc) acc)"
    and rb': "rb' = rb\<lparr>read_index := segment_end m (read_index rb) (length acc)\<rparr>"
  shows "ring_inv m rb'" "ring_list rb = acc @ ring_list rb'" "ring_list rb' = drop (length acc) (ring_list rb)"
proof -
  note bds = ring_inv_bounds [OF inv]
  have k: "length acc \<le> length (ring_list rb)" and acc: "acc = take (length acc) (ring_list rb)" using ok by auto
  have e: "segment_end m (read_index rb) (length acc) = (read_index rb + length acc) mod m"
    using bds ring_list_bound(2) [OF inv] k by (intro segment_end_mod) auto
  note cs = ring_consume [OF inv k e, folded rb']
  show "ring_inv m rb'" "ring_list rb' = drop (length acc) (ring_list rb)" by (rule cs)+
  then show "ring_list rb = acc @ ring_list rb'" by (metis acc append_take_drop_id)
qed

lemma spsc_sys_step_inv:
  assumes "spsc_sys_step m s s'" "spsc_sys_inv m s"
  shows "spsc_sys_inv m s'"
  using assms
proof (cases rule: spsc_sys_step.cases)
  case (p_begin1 t)
  have "0 < ring_room m (shared s)"
    using p_begin1 assms(2) ring_full_iff by (fastforce simp: spsc_sys_inv_def)
  with p_begin1 assms(2) show ?thesis by (auto simp: spsc_sys_inv_def)
next
  case (p_begin all_or_none xs k)
  with assms(2) enqueue_count_room [of all_or_none "length xs" _ k] ring_room_eq [of m "shared s"]
  show ?thesis by (fastforce simp: spsc_sys_inv_def)
next
  case (p_copy ys j)
  with assms(2) producer_step_inv [of m "shared s" ys j, OF _ _ _ refl]
  show ?thesis
    by (auto simp: spsc_sys_inv_def simp del: producer_ok.simps(2) intro: consumer_ok_produced [of _ "shared s" "[]"])
next
  case (p_publish ys)
  with assms(2) producer_publish_inv [of m "shared s" ys, OF _ _ refl]
  show ?thesis
    by (auto simp: spsc_sys_inv_def simp del: producer_ok.simps(2) intro: consumer_ok_produced)
next
  case (c_begin avail output_count)
  with assms(2) length_ring_list [of m "shared s"] show ?thesis
    by (auto simp: spsc_sys_inv_def)
next
  case (c_copy k acc)
  with assms(2) consumer_step_inv [of m "shared s" k acc] show ?thesis
    by (simp add: spsc_sys_inv_def del: consumer_ok.simps(2))
next
  case (c_publish acc)
  with assms(2) consumer_publish_inv [of m "shared s" acc, OF _ _ refl]
  show ?thesis
    by (auto simp: spsc_sys_inv_def simp del: consumer_ok.simps(2) intro: producer_ok_consumed [of _ "length acc" "shared s"])
qed

lemma spsc_reach_inv:
  assumes "spsc_reach m storage s" "length storage = m" "0 < m" "m < 2 ^ 63"
  shows "spsc_sys_inv m s"
  using assms(1)
proof induction
  case start
  show ?case
    using ring_new_inv [of storage "m - 1"] assms(2-4) by (simp add: spsc_sys_inv_def)
next
  case (step s s')
  then show ?case using spsc_sys_step_inv by blast
qed

section \<open>Guarantees under every interleaving\<close>

text \<open>A state in which both threads are inside a copy: one item published, being read while the next is stored.\<close>

definition overlap :: "nat spsc_sys" where
  "overlap = \<lparr>shared = \<lparr>write_index = 1, read_index = 0, array = [1, 0, 0]\<rparr>,
     ppc = P_copy [2] 0, cpc = C_copy 1 [], pushed = [1], popped = []\<rparr>"

lemma overlap_reach: "spsc_reach 3 [0, 0, 0] overlap"
proof -
  let ?s0 = "\<lparr>shared = ring_new [0, 0, 0], ppc = P_idle, cpc = C_idle, pushed = [], popped = []\<rparr> :: nat spsc_sys"
  let ?s1 = "?s0\<lparr>ppc := P_copy [1] 0\<rparr>"
  let ?s2 = "?s1\<lparr>shared := \<lparr>write_index = 0, read_index = 0, array = [1, 0, 0]\<rparr>, ppc := P_copy [1] 1\<rparr>"
  let ?s3 = "?s2\<lparr>shared := \<lparr>write_index = 1, read_index = 0, array = [1, 0, 0]\<rparr>, ppc := P_idle, pushed := [1]\<rparr>"
  let ?s4 = "?s3\<lparr>ppc := P_copy [2] 0\<rparr>"
  have 1: "spsc_sys_step 3 ?s0 ?s1"
    by (rule spsc_sys_step.p_begin1) (simp_all add: ring_new_def next_index_def szadd_def)
  have 2: "spsc_sys_step 3 ?s1 ?s2"
    using spsc_sys_step.p_copy [of ?s1 "[1]" 0 3] by (simp add: ring_new_def segment_slot_def szadd_def)
  have 3: "spsc_sys_step 3 ?s2 ?s3"
    using spsc_sys_step.p_publish [of ?s2 "[1]" 3] by (simp add: segment_end_def szadd_def)
  have 4: "spsc_sys_step 3 ?s3 ?s4"
    by (rule spsc_sys_step.p_begin1) (simp_all add: next_index_def szadd_def)
  have 5: "spsc_sys_step 3 ?s4 overlap"
    using spsc_sys_step.c_begin [of ?s4 3 1 1] by (simp add: overlap_def read_available_def szsub_def)
  show ?thesis
    by (rule spsc_reach.step [OF spsc_reach.step [OF spsc_reach.step [OF spsc_reach.step [OF
          spsc_reach.step [OF spsc_reach.start 1] 2] 3] 4] 5])
qed

text \<open>C3. Under every interleaving of one producer and one consumer thread, access by access, the
  items dequeued so far are exactly a prefix, in order, of the items enqueued so far; what
  separates the two is the queue's content, never more than the capacity. No item is lost,
  duplicated, reordered or read before it is stored, also while both sides are in the middle of a
  copy.\<close>

theorem spsc_concurrent_fifo:
  assumes "spsc_reach m storage s" "length storage = m" "0 < m" "m < 2 ^ 63"
  shows "\<exists>inflight. pushed s = popped s @ inflight \<and> length inflight \<le> m - 1 \<and>
     (\<forall>k acc. cpc s = C_copy k acc \<longrightarrow> acc = take (length acc) inflight \<and> k \<le> length inflight)"
  using spsc_reach_inv [OF assms] ring_list_bound(2) [of m "shared s"] assms(3)
  by (intro exI [of _ "ring_list (shared s)"]) (auto simp: spsc_sys_inv_def)

theorem spsc_concurrent_fifo_witness:
  "\<exists>inflight. pushed overlap = popped overlap @ inflight \<and> length inflight \<le> 2 \<and> inflight = [1]"
  using spsc_concurrent_fifo [OF overlap_reach] by (auto simp: overlap_def)

text \<open>C26. The two threads never touch the same slot at the same time: whenever the producer is about
  to store a slot while the consumer is inside a copy, that slot is none of those the consumer may
  still read. The slot accesses are free of data races.\<close>

theorem spsc_concurrent_no_race:
  assumes "spsc_reach m storage s" "length storage = m" "0 < m" "m < 2 ^ 63"
    and "ppc s = P_copy ys j" "j < length ys" "cpc s = C_copy k acc" "i < k"
  shows "segment_slot m (write_index (shared s)) (length ys) j \<noteq> segment_slot m (read_index (shared s)) k i"
proof -
  let ?rb = "shared s" and ?n = "length (ring_list (shared s))"
  have inv: "ring_inv m ?rb" and ys: "length ys \<le> ring_room m ?rb" and k: "k \<le> ?n"
    using spsc_reach_inv [OF assms(1-4)] assms(5-8) by (auto simp: spsc_sys_inv_def)
  note bds = ring_inv_bounds [OF inv]
  have n: "?n + j < m" using ys assms(6) ring_list_bound [OF inv] by linarith
  have 1: "segment_slot m (write_index ?rb) (length ys) j = (read_index ?rb + (?n + j)) mod m"
    using bds ys assms(6) ring_index_mod [OF inv] n ring_list_bound [OF inv]
    by (subst segment_slot_mod) (auto simp: mod_add_left_eq add.assoc)
  have 2: "segment_slot m (read_index ?rb) k i = (read_index ?rb + i) mod m"
    using bds k assms(8) ring_list_bound(2) [OF inv] by (intro segment_slot_mod) auto
  have "i < ?n + j" using k assms(8) by simp
  then have "(read_index ?rb + (?n + j)) mod m \<noteq> (read_index ?rb + i) mod m"
    by (rule mod_shift_neq [OF _ n])
  then show ?thesis by (simp add: 1 2)
qed

theorem spsc_concurrent_no_race_witness:
  "segment_slot 3 (write_index (shared overlap)) (length [2::nat]) 0 \<noteq>
     segment_slot 3 (read_index (shared overlap)) 1 0"
  by (rule spsc_concurrent_no_race [OF overlap_reach, where ys = "[2]" and acc = "[]"])
    (simp_all add: overlap_def)

end
