(* ===== verification/Spin_Lock.thy ===== *)
theory Spin_Lock
  imports Prelude
begin

text \<open>
  The test-and-test-and-set spin lock of \<open>src/qb/system/lockfree/spinlock.h\<close>: \<open>lock\<close> and \<open>unlock\<close> as
  a step relation over any number of threads, the bounded \<open>trylock\<close> overloads as functions of what
  the flag (and the clock) show at each access.
\<close>

section \<open>Threads that lock and unlock\<close>

text \<open>
  A thread is outside, about to \<open>exchange\<close>, spinning on the relaxed load, or inside the critical
  section. A failed \<open>trylock()\<close> goes straight back outside.
\<close>

datatype lock_pc = Outside | Exchange | Spin | Inside

record lock_sys =
  flag :: bool
  lpc :: "nat \<Rightarrow> lock_pc"

definition trylock :: "bool \<Rightarrow> bool \<times> bool" where
  "trylock l = (\<not> l, True)"

definition unlock :: "bool \<Rightarrow> bool" where
  "unlock l = False"

inductive lock_step :: "lock_sys \<Rightarrow> lock_sys \<Rightarrow> bool" where
  enter: "lpc s t = Outside \<Longrightarrow> lock_step s (s\<lparr>lpc := (lpc s)(t := Exchange)\<rparr>)"
| exchange: "lpc s t = Exchange \<Longrightarrow> trylock (flag s) = (got, l) \<Longrightarrow>
     lock_step s (s\<lparr>flag := l, lpc := (lpc s)(t := if got then Inside else Spin)\<rparr>)"
| spin_load: "lpc s t = Spin \<Longrightarrow>
     lock_step s (s\<lparr>lpc := (lpc s)(t := if flag s then Spin else Exchange)\<rparr>)"
| try_once: "lpc s t = Outside \<Longrightarrow> trylock (flag s) = (got, l) \<Longrightarrow>
     lock_step s (s\<lparr>flag := l, lpc := (lpc s)(t := if got then Inside else Outside)\<rparr>)"
| leave: "lpc s t = Inside \<Longrightarrow>
     lock_step s (s\<lparr>flag := unlock (flag s), lpc := (lpc s)(t := Outside)\<rparr>)"

inductive lock_reach :: "lock_sys \<Rightarrow> bool" where
  start: "lock_reach \<lparr>flag = False, lpc = (\<lambda>t. Outside)\<rparr>"
| step: "lock_reach s \<Longrightarrow> lock_step s s' \<Longrightarrow> lock_reach s'"

definition lock_inv :: "lock_sys \<Rightarrow> nat option \<Rightarrow> bool" where
  "lock_inv s owner \<longleftrightarrow> (flag s \<longleftrightarrow> owner \<noteq> None) \<and> (\<forall>t. lpc s t = Inside \<longleftrightarrow> owner = Some t)"

lemma lock_step_inv:
  assumes "lock_step s s'" "lock_inv s owner"
  shows "\<exists>owner'. lock_inv s' owner'"
  using assms
proof (induction rule: lock_step.induct)
  case (exchange s t got l)
  then show ?case
    by (intro exI [of _ "if flag s then owner else Some t"]) (force simp: lock_inv_def trylock_def)
next
  case (try_once s t got l)
  then show ?case
    by (intro exI [of _ "if flag s then owner else Some t"]) (force simp: lock_inv_def trylock_def)
next
  case (leave s t)
  then show ?case by (intro exI [of _ None]) (auto simp: lock_inv_def unlock_def)
qed (rule exI [of _ owner], force simp: lock_inv_def)+

lemma lock_reach_inv: "lock_reach s \<Longrightarrow> \<exists>owner. lock_inv s owner"
proof (induction rule: lock_reach.induct)
  case start
  show ?case by (intro exI [of _ None]) (simp add: lock_inv_def)
next
  case (step s s')
  then show ?case using lock_step_inv by blast
qed

text \<open>C35. Mutual exclusion: whatever the number of threads and the interleaving of their exchanges,
  loads and stores, at most one thread is inside the critical section, and the flag is set exactly
  while one is.\<close>

theorem spinlock_mutual_exclusion:
  assumes "lock_reach s"
  shows "(\<forall>t u. lpc s t = Inside \<and> lpc s u = Inside \<longrightarrow> t = u) \<and> (flag s \<longleftrightarrow> (\<exists>t. lpc s t = Inside))"
  using lock_reach_inv [OF assms] by (auto simp: lock_inv_def)

theorem spinlock_mutual_exclusion_witness:
  "\<exists>s. lock_reach s \<and> lpc s 0 = Inside \<and> lpc s 1 = Exchange \<and> flag s"
proof -
  let ?s0 = "\<lparr>flag = False, lpc = (\<lambda>t. Outside)\<rparr>"
  let ?s1 = "\<lparr>flag = False, lpc = (\<lambda>t. Outside)(0 := Exchange)\<rparr>"
  let ?s2 = "\<lparr>flag = True, lpc = (\<lambda>t. Outside)(0 := Inside)\<rparr>"
  let ?s3 = "\<lparr>flag = True, lpc = (\<lambda>t. Outside)(0 := Inside, 1 := Exchange)\<rparr>"
  have "lock_step ?s0 ?s1" using lock_step.enter [of ?s0 0] by simp
  moreover have "lock_step ?s1 ?s2"
    using lock_step.exchange [of ?s1 0 True True] by (simp add: trylock_def)
  moreover have "lock_step ?s2 ?s3" using lock_step.enter [of ?s2 1] by simp
  ultimately have r: "lock_reach ?s3" using lock_reach.intros by metis
  from spinlock_mutual_exclusion [OF r] r show ?thesis by (intro exI [of _ ?s3]) auto
qed

section \<open>The bounded attempts\<close>

text \<open>
  \<open>obs i\<close> is the value of the flag at the \<open>i\<close>-th access of the call, by an exchange or a load;
  the other threads choose it. \<open>ttas_wait\<close> is the inner loop
  \<open>while (spin-- > 0 && _lock.load())\<close>; the \<open>int64_t\<close> budget is an \<^typ>\<open>int\<close> (its decrement
  leaves the type only when the caller passes its minimum). The results are the answer and the
  number of accesses made.
\<close>

function ttas_wait :: "(nat \<Rightarrow> bool) \<Rightarrow> nat \<Rightarrow> int \<Rightarrow> nat \<times> int" where
  "ttas_wait obs i spin =
     (if spin > 0
      then if obs i then ttas_wait obs (i + 1) (spin - 1) else (i + 1, spin - 1)
      else (i, spin - 1))"
  by pat_completeness auto
termination by (relation "measure (\<lambda>(obs, i, spin). nat spin)") auto

declare ttas_wait.simps [simp del]

lemma ttas_wait_bound:
  "ttas_wait obs i spin = (i', spin') \<Longrightarrow>
     spin' < spin \<and> i \<le> i' \<and> int i' \<le> int i + max 0 spin \<and> (0 < spin' \<longrightarrow> int i' + spin' = int i + spin)"
proof (induction obs i spin rule: ttas_wait.induct)
  case (1 obs i spin)
  show ?case
  proof (cases "spin > 0 \<and> obs i")
    case True
    then show ?thesis using 1 by (subst (asm) (2) ttas_wait.simps) (auto simp: max_def split: if_splits)
  next
    case False
    then show ?thesis using "1.prems" by (subst (asm) ttas_wait.simps) (auto split: if_splits)
  qed
qed

function trylock_spin :: "(nat \<Rightarrow> bool) \<Rightarrow> nat \<Rightarrow> int \<Rightarrow> bool \<times> nat" where
  "trylock_spin obs i spin =
     (if fst (trylock (obs i)) then (True, i + 1)
      else let (i', spin') = ttas_wait obs (i + 1) spin
           in if spin' > 0 then trylock_spin obs i' spin' else (False, i'))"
  by pat_completeness auto
termination
proof (relation "measure (\<lambda>(obs, i, spin). nat spin)", goal_cases)
  case (2 obs i spin x i' spin')
  have "nat spin' < nat spin"
    using ttas_wait_bound [of obs "i + 1" spin i' spin'] 2 by simp
  then show ?case by simp
qed simp

declare trylock_spin.simps [simp del]

lemma trylock_spin_bound:
  "trylock_spin obs i spin = (r, n) \<Longrightarrow> i < n \<and> int n \<le> int i + 1 + 2 * max 0 spin"
proof (induction obs i spin rule: trylock_spin.induct)
  case (1 obs i spin)
  obtain i' spin' where w: "ttas_wait obs (i + 1) spin = (i', spin')" by fastforce
  note b = ttas_wait_bound [OF w]
  show ?case
  proof (cases "obs i \<and> spin' > 0")
    case True
    then have "trylock_spin obs i' spin' = (r, n)"
      using "1.prems" w by (subst (asm) trylock_spin.simps) (simp add: trylock_def)
    then have "i' < n \<and> int n \<le> int i' + 1 + 2 * max 0 spin'"
      using "1.IH" [of "(i', spin')" i' spin'] w True by (simp add: trylock_def)
    then show ?thesis using b True by auto
  next
    case False
    then show ?thesis
      using "1.prems" w b by (subst (asm) trylock_spin.simps) (auto simp: trylock_def split: if_splits)
  qed
qed

lemma trylock_spin_true: "trylock_spin obs i spin = (True, n) \<Longrightarrow> \<not> obs (n - 1)"
proof (induction obs i spin rule: trylock_spin.induct)
  case (1 obs i spin)
  then show ?case
    by (subst (asm) (2) trylock_spin.simps) (auto simp: trylock_def split: if_splits prod.splits)
qed

text \<open>The bounded \<open>trylock(spin)\<close> always returns, whatever the other threads do to the flag: it
  makes its one mandatory attempt (a free lock is acquired by the first access), it makes at most
  \<open>2 * spin + 1\<close> accesses to the flag, it answers true only when its last access was an exchange
  that found the lock free, and it answers false only when the first attempt found it taken.\<close>

theorem trylock_spin_bounded:
  "\<exists>r n. trylock_spin obs 0 spin = (r, n) \<and> 0 < n \<and> int n \<le> 1 + 2 * max 0 spin \<and>
     (\<not> obs 0 \<longleftrightarrow> r \<and> n = 1) \<and> (if r then \<not> obs (n - 1) else obs 0)"
proof -
  obtain r n where rn: "trylock_spin obs 0 spin = (r, n)" by fastforce
  have first: "\<not> obs 0 \<Longrightarrow> r \<and> n = 1"
    using rn by (subst (asm) trylock_spin.simps) (simp add: trylock_def)
  show ?thesis
    using rn trylock_spin_bound [OF rn] trylock_spin_true [of obs 0 spin n] first
    by (cases r) fastforce+
qed

text \<open>
  \<open>trylock_for\<close>: \<open>now k\<close> is the \<open>k\<close>-th reading of the monotonic clock. The inner loop is
  \<open>while (_lock.load() && mono_now() < finish)\<close>, the outer one repeats while
  \<open>mono_now() < finish\<close>; \<open>fuel\<close> bounds the iterations of both and \<^const>\<open>None\<close> is running out of it.
\<close>

fun for_wait :: "nat \<Rightarrow> (nat \<Rightarrow> bool) \<Rightarrow> (nat \<Rightarrow> int) \<Rightarrow> int \<Rightarrow> nat \<Rightarrow> nat \<Rightarrow> (nat \<times> nat) option" where
  "for_wait 0 obs now finish i k = None"
| "for_wait (Suc fuel) obs now finish i k =
     (if obs i
      then if now k < finish then for_wait fuel obs now finish (i + 1) (k + 1) else Some (i + 1, k + 1)
      else Some (i + 1, k))"

fun trylock_for_loop :: "nat \<Rightarrow> (nat \<Rightarrow> bool) \<Rightarrow> (nat \<Rightarrow> int) \<Rightarrow> int \<Rightarrow> nat \<Rightarrow> nat \<Rightarrow> (bool \<times> nat) option" where
  "trylock_for_loop 0 obs now finish i k = None"
| "trylock_for_loop (Suc fuel) obs now finish i k =
     (if fst (trylock (obs i)) then Some (True, i + 1)
      else do {
        (i', k') \<leftarrow> for_wait (Suc fuel) obs now finish (i + 1) k;
        if now k' < finish then trylock_for_loop fuel obs now finish i' (k' + 1)
        else Some (False, i')
      })"

definition trylock_for :: "nat \<Rightarrow> (nat \<Rightarrow> bool) \<Rightarrow> (nat \<Rightarrow> int) \<Rightarrow> int \<Rightarrow> (bool \<times> nat) option" where
  "trylock_for fuel obs now timespan = trylock_for_loop fuel obs now (now 0 + timespan) 0 1"

definition trylock_until :: "nat \<Rightarrow> (nat \<Rightarrow> bool) \<Rightarrow> (nat \<Rightarrow> int) \<Rightarrow> int \<Rightarrow> (bool \<times> nat) option" where
  "trylock_until fuel obs now deadline = trylock_for fuel obs (\<lambda>k. now (k + 1)) (deadline - now 0)"

lemma for_wait_returns:
  assumes "\<And>k. N \<le> k \<Longrightarrow> finish \<le> now k" "0 < fuel" "N < k + fuel"
  shows "\<exists>i' k'. for_wait fuel obs now finish i k = Some (i', k') \<and> k \<le> k'"
  using assms(2,3)
proof (induction fuel arbitrary: i k)
  case 0
  then show ?case by simp
next
  case (Suc fuel)
  show ?case
  proof (cases "obs i \<and> now k < finish")
    case True
    then have "k < N" using assms(1) [of k] by (cases "N \<le> k") auto
    then show ?thesis using Suc.IH [of "k + 1" "i + 1"] Suc.prems True by fastforce
  next
    case False
    then show ?thesis by auto
  qed
qed

lemma trylock_for_loop_returns:
  assumes "\<And>k. N \<le> k \<Longrightarrow> finish \<le> now k" "N < k + fuel" "0 < fuel"
  shows "\<exists>r n. trylock_for_loop fuel obs now finish i k = Some (r, n) \<and> (r \<or> obs i)"
  using assms(2,3)
proof (induction fuel arbitrary: i k)
  case 0
  then show ?case by simp
next
  case (Suc fuel)
  obtain i' k' where w: "for_wait (Suc fuel) obs now finish (i + 1) k = Some (i', k')" "k \<le> k'"
    using for_wait_returns [of N finish now "Suc fuel" k obs "i + 1", OF assms(1)] Suc.prems by blast
  show ?case
  proof (cases "obs i \<and> now k' < finish")
    case True
    then have "k' < N" using assms(1) [of k'] by (cases "N \<le> k'") auto
    then have "N < k' + 1 + fuel" "0 < fuel" using Suc.prems w by auto
    from Suc.IH [OF this, of i'] show ?thesis using True w by (auto simp: trylock_def)
  next
    case False
    then show ?thesis using w by (auto simp: trylock_def)
  qed
qed

text \<open>C36. The timed \<open>trylock_for\<close> returns: once the clock stays at or past the deadline from its
  \<open>N\<close>-th reading on, \<open>N + 1\<close> iterations are enough, whatever the other threads do, and the answer is
  false only when the mandatory first attempt found the lock taken.\<close>

theorem trylock_for_terminates:
  assumes "\<And>k. N \<le> k \<Longrightarrow> now 0 + timespan \<le> now k" "N < fuel"
  shows "\<exists>r n. trylock_for fuel obs now timespan = Some (r, n) \<and> (r \<or> obs 0)"
  using trylock_for_loop_returns [of N "now 0 + timespan" now 1 fuel obs 0] assms
  by (simp add: trylock_for_def)

theorem trylock_for_terminates_witness:
  "\<exists>r n. trylock_for 5 (\<lambda>i. True) int 4 = Some (r, n)"
  using trylock_for_terminates [of 4 int 4 5 "\<lambda>i. True"] by auto

end
