(* ===== verification/Mpsc_Unbounded.thy ===== *)
theory Mpsc_Unbounded
  imports Prelude
begin

text \<open>
  The unbounded lock-free queue of \<open>src/qb/system/lockfree/mpsc_unbounded_queue.h\<close>: a linked list of
  nodes, any number of pushing threads and one popping thread, one step per access to a shared
  variable. Nodes live in a heap of addresses; \<open>new\<close> returns any address that is not live, so a
  deleted node's address may come back. There are \<open>2 ^ 60\<close> addresses: a node takes at least 16
  bytes of a 64-bit address space.
\<close>

section \<open>State\<close>

type_synonym addr = nat

abbreviation addr_space :: nat where
  "addr_space \<equiv> 2 ^ 60"

text \<open>
  Where a pushing thread stands: it holds a fresh node; it has exchanged the tail and got the
  previous one; it has also counted the item. Where the popping thread stands: it has loaded
  the head; it has found no successor; it waits for a successor that a pusher is linking; it has a
  successor; it has advanced the head; it has moved the value out; it has uncounted the item.
\<close>

datatype push_pc = Push_idle | Push_node addr | Push_link addr addr | Push_counted addr addr

datatype 'a pop_pc = Pop_idle | Pop_at addr | Pop_none addr | Pop_spin addr | Pop_next addr addr
  | Pop_head addr addr | Pop_value addr | Pop_delete addr

record 'a uqueue =
  head_ptr :: addr
  tail_ptr :: addr
  count :: size_t
  nxt :: "addr \<Rightarrow> addr option"
  val :: "addr \<Rightarrow> 'a"
  live :: "addr set"
  pushers :: "nat \<Rightarrow> push_pc"
  popper :: "'a pop_pc"
  order :: "'a list"
  taken :: "'a list"

text \<open>
  \<open>order\<close> records the items in the order of the tail exchanges, \<open>taken\<close> the items popped.
\<close>

definition uqueue_new :: "addr \<Rightarrow> 'a uqueue" where
  "uqueue_new sentinel =
     \<lparr>head_ptr = sentinel, tail_ptr = sentinel, count = 0, nxt = (\<lambda>a. None), val = (\<lambda>a. undefined),
      live = {sentinel}, pushers = (\<lambda>t. Push_idle), popper = Pop_idle, order = [], taken = []\<rparr>"

definition uqueue_size :: "'a uqueue \<Rightarrow> size_t" where
  "uqueue_size s = count s"

definition uqueue_empty :: "'a uqueue \<Rightarrow> bool" where
  "uqueue_empty s \<longleftrightarrow> nxt s (head_ptr s) = None \<and> tail_ptr s = head_ptr s"

section \<open>Steps\<close>

inductive uq_step :: "'a uqueue \<Rightarrow> 'a uqueue \<Rightarrow> bool" where
  push_new: "pushers s t = Push_idle \<Longrightarrow> n \<notin> live s \<Longrightarrow> n < addr_space \<Longrightarrow>
     uq_step s (s\<lparr>live := insert n (live s), nxt := (nxt s)(n := None), val := (val s)(n := x),
       pushers := (pushers s)(t := Push_node n)\<rparr>)"
| push_exchange: "pushers s t = Push_node n \<Longrightarrow>
     uq_step s (s\<lparr>tail_ptr := n, pushers := (pushers s)(t := Push_link (tail_ptr s) n),
       order := order s @ [val s n]\<rparr>)"
| push_count: "pushers s t = Push_link p n \<Longrightarrow>
     uq_step s (s\<lparr>count := szadd (count s) 1, pushers := (pushers s)(t := Push_counted p n)\<rparr>)"
| push_publish: "pushers s t = Push_counted p n \<Longrightarrow>
     uq_step s (s\<lparr>nxt := (nxt s)(p \<mapsto> n), pushers := (pushers s)(t := Push_idle)\<rparr>)"
| pop_begin: "popper s = Pop_idle \<Longrightarrow> uq_step s (s\<lparr>popper := Pop_at (head_ptr s)\<rparr>)"
| pop_load: "popper s = Pop_at h \<Longrightarrow>
     uq_step s (s\<lparr>popper := (case nxt s h of Some n \<Rightarrow> Pop_next h n | None \<Rightarrow> Pop_none h)\<rparr>)"
| pop_check: "popper s = Pop_none h \<Longrightarrow>
     uq_step s (s\<lparr>popper := (if tail_ptr s = h then Pop_idle else Pop_spin h)\<rparr>)"
| pop_spin: "popper s = Pop_spin h \<Longrightarrow>
     uq_step s (s\<lparr>popper := (case nxt s h of Some n \<Rightarrow> Pop_next h n | None \<Rightarrow> Pop_spin h)\<rparr>)"
| pop_advance: "popper s = Pop_next h n \<Longrightarrow>
     uq_step s (s\<lparr>head_ptr := n, popper := Pop_head h n\<rparr>)"
| pop_take: "popper s = Pop_head h n \<Longrightarrow>
     uq_step s (s\<lparr>taken := taken s @ [val s n], popper := Pop_value h\<rparr>)"
| pop_uncount: "popper s = Pop_value h \<Longrightarrow>
     uq_step s (s\<lparr>count := szsub (count s) 1, popper := Pop_delete h\<rparr>)"
| pop_free: "popper s = Pop_delete h \<Longrightarrow>
     uq_step s (s\<lparr>live := live s - {h}, popper := Pop_idle\<rparr>)"

inductive uq_reach :: "addr \<Rightarrow> 'a uqueue \<Rightarrow> bool" for sentinel where
  start: "uq_reach sentinel (uqueue_new sentinel)"
| step: "uq_reach sentinel s \<Longrightarrow> uq_step s s' \<Longrightarrow> uq_reach sentinel s'"

text \<open>The addresses the next step of each thread dereferences or deletes.\<close>

fun push_derefs :: "push_pc \<Rightarrow> addr set" where
  "push_derefs (Push_counted p n) = {p}"
| "push_derefs _ = {}"

fun pop_derefs :: "'a pop_pc \<Rightarrow> addr set" where
  "pop_derefs (Pop_at h) = {h}"
| "pop_derefs (Pop_spin h) = {h}"
| "pop_derefs (Pop_head h n) = {n}"
| "pop_derefs (Pop_delete h) = {h}"
| "pop_derefs _ = {}"

section \<open>Chains with pending links\<close>

text \<open>
  The nodes from the head on, in exchange order, form a chain whose links are all stored except
  the pending ones \<open>L\<close>, which some pusher has still to store.
\<close>

abbreviation pairs :: "addr list \<Rightarrow> (addr \<times> addr) set" where
  "pairs c \<equiv> set (zip c (tl c))"

definition chained :: "(addr \<Rightarrow> addr option) \<Rightarrow> (addr \<times> addr) set \<Rightarrow> addr list \<Rightarrow> bool" where
  "chained nx L c \<longleftrightarrow> c \<noteq> [] \<and> nx (last c) = None \<and>
     (\<forall>(a, b) \<in> pairs c. nx a = (if (a, b) \<in> L then None else Some b))"

lemma in_set_tlD: "x \<in> set (tl c) \<Longrightarrow> x \<in> set c"
  by (cases c) auto

lemma pairs_nth: "(a, b) \<in> pairs c \<longleftrightarrow> (\<exists>i. Suc i < length c \<and> a = c ! i \<and> b = c ! Suc i)"
proof
  assume "(a, b) \<in> pairs c"
  then obtain i where "i < length c - 1" "a = c ! i" "b = c ! Suc i"
    by (auto simp: in_set_zip nth_tl)
  then show "\<exists>i. Suc i < length c \<and> a = c ! i \<and> b = c ! Suc i" by (intro exI [of _ i]) auto
qed (auto simp: in_set_zip nth_tl)

lemma pairs_Cons: "pairs (a # b # c) = insert (a, b) (pairs (b # c))"
  by simp

lemma pairs_snoc: "c \<noteq> [] \<Longrightarrow> pairs (c @ [n]) = insert (last c, n) (pairs c)"
  by (induction c rule: induct_list012) auto

lemma pairs_in:
  assumes "(a, b) \<in> pairs c"
  shows "a \<in> set c" "b \<in> set (tl c)"
  using assms by (meson set_zip_leftD set_zip_rightD)+

lemma pairs_fst_neq_last:
  assumes "distinct c" "(a, b) \<in> pairs c"
  shows "a \<noteq> last c"
proof -
  obtain i where i: "Suc i < length c" "a = c ! i" using assms(2) by (auto simp: pairs_nth)
  then have "last c = c ! (length c - 1)" by (metis last_conv_nth list.size(3) not_less_zero)
  then show ?thesis using i assms(1) by (simp add: nth_eq_iff_index_eq)
qed

lemma pairs_unique:
  assumes "distinct c" "(a, b) \<in> pairs c" "(a', b') \<in> pairs c"
  shows "a' = a \<longleftrightarrow> b' = b"
  using assms by (auto simp: pairs_nth nth_eq_iff_index_eq)

lemma chainedD:
  assumes "chained nx L c" "(a, b) \<in> pairs c"
  shows "nx a = (if (a, b) \<in> L then None else Some b)"
  using assms unfolding chained_def by blast

lemma chainedI:
  assumes "c \<noteq> []" "nx (last c) = None"
    and "\<And>a b. (a, b) \<in> pairs c \<Longrightarrow> nx a = (if (a, b) \<in> L then None else Some b)"
  shows "chained nx L c"
  using assms unfolding chained_def by blast

lemma chained_cong:
  assumes "chained nx L c" "\<And>a. a \<in> set c \<Longrightarrow> nx' a = nx a"
  shows "chained nx' L c"
proof (rule chainedI)
  show "c \<noteq> []" "nx' (last c) = None" using assms by (auto simp: chained_def)
  show "nx' a = (if (a, b) \<in> L then None else Some b)" if "(a, b) \<in> pairs c" for a b
    using chainedD [OF assms(1) that] assms(2) pairs_in(1) [OF that] by simp
qed

lemma chained_snoc:
  assumes c: "chained nx L c" and n: "n \<notin> set c" "nx n = None" and l: "nx (last c) = None"
  shows "chained nx (insert (last c, n) L) (c @ [n])"
proof (rule chainedI)
  show "c @ [n] \<noteq> []" "nx (last (c @ [n])) = None" using n by auto
  fix a b assume "(a, b) \<in> pairs (c @ [n])"
  moreover have "c \<noteq> []" using c by (simp add: chained_def)
  ultimately consider "(a, b) = (last c, n)" | "(a, b) \<in> pairs c"
    using pairs_snoc [of c n] by blast
  then show "nx a = (if (a, b) \<in> insert (last c, n) L then None else Some b)"
  proof cases
    case 2
    then have "b \<noteq> n" using n pairs_in(2) [OF 2] by (auto dest: in_set_tlD)
    then show ?thesis using chainedD [OF c 2] by simp
  qed (use l in simp)
qed

lemma chained_link:
  assumes c: "chained nx L c" and d: "distinct c" and pn: "(p, n) \<in> pairs c"
  shows "chained (nx(p \<mapsto> n)) (L - {(p, n)}) c"
proof (rule chainedI)
  show "c \<noteq> []" "(nx(p \<mapsto> n)) (last c) = None"
    using c pairs_fst_neq_last [OF d pn] by (auto simp: chained_def)
  show "(nx(p \<mapsto> n)) a = (if (a, b) \<in> L - {(p, n)} then None else Some b)" if "(a, b) \<in> pairs c" for a b
    using chainedD [OF c that] pairs_unique [OF d pn that] by auto
qed

lemma chained_tl:
  assumes "chained nx L (h # c)" "nx h = Some n"
  shows "\<exists>c'. c = n # c' \<and> chained nx L c \<and> (h, n) \<notin> L"
  using assms by (cases c) (auto simp: chained_def split: if_splits)

section \<open>The invariant\<close>

fun held :: "push_pc \<Rightarrow> addr option" where
  "held Push_idle = None"
| "held (Push_node n) = Some n"
| "held (Push_link p n) = Some n"
| "held (Push_counted p n) = Some n"

definition links :: "(nat \<Rightarrow> push_pc) \<Rightarrow> (addr \<times> addr) set" where
  "links P = {(p, n). \<exists>t. P t = Push_link p n \<or> P t = Push_counted p n}"

definition uncounted :: "(nat \<Rightarrow> push_pc) \<Rightarrow> addr set" where
  "uncounted P = {n. \<exists>t p. P t = Push_link p n}"

definition owners_ok :: "(nat \<Rightarrow> push_pc) \<Rightarrow> bool" where
  "owners_ok P \<longleftrightarrow> (\<forall>t u n. held (P t) = Some n \<longrightarrow> held (P u) = Some n \<longrightarrow> t = u)"

definition chain_ok :: "'a uqueue \<Rightarrow> addr list \<Rightarrow> bool" where
  "chain_ok s c \<longleftrightarrow> chained (nxt s) (links (pushers s)) c \<and> distinct c \<and> set c \<subseteq> live s \<and>
     hd c = head_ptr s \<and> last c = tail_ptr s \<and> links (pushers s) \<subseteq> pairs c \<and>
     live s \<subseteq> {..<addr_space}"

definition fresh_ok :: "'a uqueue \<Rightarrow> addr list \<Rightarrow> bool" where
  "fresh_ok s c \<longleftrightarrow> (\<forall>t n. pushers s t = Push_node n \<longrightarrow> n \<in> live s \<and> n \<notin> set c \<and> nxt s n = None)"

fun popper_ok :: "'a pop_pc \<Rightarrow> 'a uqueue \<Rightarrow> addr list \<Rightarrow> bool" where
  "popper_ok Pop_idle s c = True"
| "popper_ok (Pop_at h) s c = (h = hd c)"
| "popper_ok (Pop_none h) s c = (h = hd c)"
| "popper_ok (Pop_spin h) s c = (h = hd c \<and> tl c \<noteq> [])"
| "popper_ok (Pop_next h n) s c = (h = hd c \<and> nxt s h = Some n)"
| "popper_ok (Pop_head h n) s c = (n = hd c \<and> h \<in> live s \<and> h \<notin> set c \<and> (\<forall>t. held (pushers s t) \<noteq> Some h))"
| "popper_ok (Pop_value h) s c = (h \<in> live s \<and> h \<notin> set c \<and> (\<forall>t. held (pushers s t) \<noteq> Some h))"
| "popper_ok (Pop_delete h) s c = (h \<in> live s \<and> h \<notin> set c \<and> (\<forall>t. held (pushers s t) \<noteq> Some h))"

fun popping :: "'a uqueue \<Rightarrow> 'a pop_pc \<Rightarrow> 'a list" where
  "popping s (Pop_head h n) = [val s n]"
| "popping s _ = []"

fun still_counted :: "'a pop_pc \<Rightarrow> nat" where
  "still_counted (Pop_head h n) = 1"
| "still_counted (Pop_value h) = 1"
| "still_counted _ = 0"

definition items_ok :: "'a uqueue \<Rightarrow> addr list \<Rightarrow> bool" where
  "items_ok s c \<longleftrightarrow> order s = taken s @ popping s (popper s) @ map (val s) (tl c)"

definition count_ok :: "'a uqueue \<Rightarrow> addr list \<Rightarrow> bool" where
  "count_ok s c \<longleftrightarrow> count s + card (uncounted (pushers s)) = length (tl c) + still_counted (popper s)"

definition uq_inv :: "'a uqueue \<Rightarrow> addr list \<Rightarrow> bool" where
  "uq_inv s c \<longleftrightarrow> owners_ok (pushers s) \<and> chain_ok s c \<and> fresh_ok s c \<and> popper_ok (popper s) s c \<and>
     items_ok s c \<and> count_ok s c"

lemmas uq_defs = uq_inv_def chain_ok_def fresh_ok_def items_ok_def count_ok_def

lemma links_update:
  "P t = Push_idle \<Longrightarrow> links (P(t := Push_node n)) = links P"
  "P t = Push_node n \<Longrightarrow> links (P(t := Push_link p n)) = insert (p, n) (links P)"
  "P t = Push_link p n \<Longrightarrow> links (P(t := Push_counted p n)) = links P"
  by (auto simp: links_def split: if_splits; metis push_pc.distinct push_pc.inject)+

lemma links_publish:
  assumes "owners_ok P" "P t = Push_counted p n"
  shows "links (P(t := Push_idle)) = links P - {(p, n)}"
  using assms unfolding links_def owners_ok_def
  by (auto split: if_splits) (metis assms(2) held.simps(3,4) push_pc.distinct push_pc.inject)+

lemma uncounted_update:
  "P t = Push_idle \<Longrightarrow> uncounted (P(t := Push_node n)) = uncounted P"
  "P t = Push_node n \<Longrightarrow> uncounted (P(t := Push_link p n)) = insert n (uncounted P)"
  "P t = Push_counted p n \<Longrightarrow> uncounted (P(t := Push_idle)) = uncounted P"
  by (auto simp: uncounted_def split: if_splits; metis push_pc.distinct push_pc.inject)+

lemma uncounted_count:
  assumes "owners_ok P" "P t = Push_link p n"
  shows "uncounted (P(t := Push_counted p n)) = uncounted P - {n}"
  using assms unfolding uncounted_def owners_ok_def
  by (auto split: if_splits) (metis assms(2) held.simps(3,4) push_pc.distinct push_pc.inject)+

lemma owners_keep:
  assumes "owners_ok P" "held x = held (P t) \<or> held x = None"
  shows "owners_ok (P(t := x))"
  using assms unfolding owners_ok_def fun_upd_apply by (metis option.distinct(1))

lemma owners_new:
  assumes "owners_ok P" "\<And>u. held (P u) \<noteq> Some n" "held x = Some n"
  shows "owners_ok (P(t := x))"
  using assms unfolding owners_ok_def by (auto split: if_splits)

lemma uncounted_links: "n \<in> uncounted P \<Longrightarrow> \<exists>p. (p, n) \<in> links P"
  by (auto simp: uncounted_def links_def)

lemma held_cases:
  assumes "held (pushers s t) = Some n" "chain_ok s c" "fresh_ok s c"
  shows "n \<in> live s" "pushers s t = Push_node n \<or> n \<in> set (tl c)"
proof -
  have "pushers s t = Push_node n \<or> (\<exists>p. (p, n) \<in> links (pushers s))"
    using assms(1) by (cases "pushers s t") (auto simp: links_def)
  then have *: "pushers s t = Push_node n \<or> n \<in> set (tl c)"
    using assms(2) unfolding chain_ok_def by (meson pairs_in(2) subsetD)
  then show "pushers s t = Push_node n \<or> n \<in> set (tl c)" .
  from * show "n \<in> live s"
    using assms(2,3) unfolding chain_ok_def fresh_ok_def by (metis list.sel(2) list.set_sel(2) subsetD)
qed

lemma popper_ok_mono:
  assumes "popper_ok pc s c" "live s \<subseteq> live s'" "hd c' = hd c" "tl c \<noteq> [] \<Longrightarrow> tl c' \<noteq> []"
    and "\<And>n. nxt s (hd c) = Some n \<Longrightarrow> nxt s' (hd c) = Some n"
    and "\<And>a. a \<in> live s \<Longrightarrow> a \<in> set c' \<Longrightarrow> a \<in> set c \<or> (\<exists>u. held (pushers s u) = Some a)"
    and "\<And>a u. a \<in> live s \<Longrightarrow> held (pushers s' u) = Some a \<Longrightarrow> \<exists>u. held (pushers s u) = Some a"
  shows "popper_ok pc s' c'"
  using assms by (cases pc) (simp; blast)+

lemma uncounted_chain:
  assumes "chain_ok s c"
  shows "uncounted (pushers s) \<subseteq> set (tl c)" "finite (uncounted (pushers s))"
    "card (uncounted (pushers s)) \<le> length (tl c)" "length c \<le> addr_space"
proof -
  show sub: "uncounted (pushers s) \<subseteq> set (tl c)"
    using assms uncounted_links pairs_in(2) unfolding chain_ok_def by blast
  then show "finite (uncounted (pushers s))" by (rule finite_subset) simp
  show "card (uncounted (pushers s)) \<le> length (tl c)"
    using card_mono [OF _ sub] card_length [of "tl c"] by simp
  have "set c \<subseteq> {..<addr_space}" "distinct c" using assms unfolding chain_ok_def by auto
  then show "length c \<le> addr_space"
    using card_mono [of "{..<addr_space}" "set c"] by (simp add: distinct_card del: power_numeral power.simps)
qed

lemma push_new_inv:
  assumes inv: "uq_inv s c" and t: "pushers s t = Push_idle" and n: "n \<notin> live s" "n < addr_space"
  shows "uq_inv (s\<lparr>live := insert n (live s), nxt := (nxt s)(n := None), val := (val s)(n := x),
       pushers := (pushers s)(t := Push_node n)\<rparr>) c" (is "uq_inv ?s c")
proof -
  note defs = inv [unfolded uq_inv_def]
  have nc: "n \<notin> set c" "n \<notin> set (tl c)"
    using n defs unfolding chain_ok_def by (auto dest: in_set_tlD)
  have nhd: "n \<noteq> hd c"
    using defs nc(1) unfolding chain_ok_def chained_def by (metis list.set_sel(1))
  have unheld: "held (pushers s u) \<noteq> Some n" for u
    using held_cases(1) [of s u n c] n defs by blast
  have 1: "owners_ok (pushers ?s)"
    using defs by (auto intro: owners_new [OF _ unheld])
  have 2: "chain_ok ?s c"
    using defs n nc t unfolding chain_ok_def
    by (auto simp: links_update intro: chained_cong)
  have 3: "fresh_ok ?s c"
    using defs n nc unfolding fresh_ok_def by auto
  have 4: "popper_ok (popper s) ?s c"
    by (rule popper_ok_mono [of _ s c]) (use defs n nhd in \<open>auto split: if_splits\<close>)
  have val: "map (val ?s) (tl c) = map (val s) (tl c)" using nc by auto
  have 5: "items_ok ?s c"
    using defs nhd val by (cases "popper s") (auto simp: items_ok_def)
  have 6: "count_ok ?s c"
    using defs t unfolding count_ok_def by (simp add: uncounted_update)
  from 1 2 3 4 5 6 show ?thesis by (simp add: uq_inv_def)
qed

lemma push_exchange_inv:
  assumes inv: "uq_inv s c" and t: "pushers s t = Push_node n"
  shows "uq_inv (s\<lparr>tail_ptr := n, pushers := (pushers s)(t := Push_link (tail_ptr s) n),
       order := order s @ [val s n]\<rparr>) (c @ [n])" (is "uq_inv ?s _")
proof -
  note defs = inv [unfolded uq_inv_def]
  have n: "n \<in> live s" "n \<notin> set c" "nxt s n = None" using defs t unfolding fresh_ok_def by auto
  have c: "c \<noteq> []" "last c = tail_ptr s" "nxt s (last c) = None"
    using defs unfolding chain_ok_def chained_def by auto
  have 1: "owners_ok (pushers ?s)" using defs t by (auto intro: owners_keep)
  have "chained (nxt s) (insert (last c, n) (links (pushers s))) (c @ [n])"
    using defs n c unfolding chain_ok_def by (intro chained_snoc) auto
  then have 2: "chain_ok ?s (c @ [n])"
    using defs n c t pairs_snoc [OF c(1), of n] unfolding chain_ok_def by (auto simp: links_update)
  have 3: "fresh_ok ?s (c @ [n])"
    using defs t unfolding fresh_ok_def owners_ok_def by (auto split: if_splits) 
  have 4: "popper_ok (popper s) ?s (c @ [n])"
    by (rule popper_ok_mono [of _ s c]) (use defs t c in \<open>auto split: if_splits intro: exI [of _ t]\<close>)
  have 5: "items_ok ?s (c @ [n])"
    using defs c by (cases "popper s") (auto simp: items_ok_def)
  have "n \<notin> uncounted (pushers s)" "finite (uncounted (pushers s))"
    using n(2) defs uncounted_chain(1,2) [of s c] by (auto dest: in_set_tlD)
  then have 6: "count_ok ?s (c @ [n])"
    using defs t c unfolding count_ok_def by (simp add: uncounted_update)
  from 1 2 3 4 5 6 show ?thesis by (simp add: uq_inv_def)
qed

lemma push_count_inv:
  assumes inv: "uq_inv s c" and t: "pushers s t = Push_link p n"
  shows "uq_inv (s\<lparr>count := szadd (count s) 1, pushers := (pushers s)(t := Push_counted p n)\<rparr>) c"
    (is "uq_inv ?s _")
proof -
  note defs = inv [unfolded uq_inv_def]
  note un = uncounted_chain [of s c]
  have 1: "owners_ok (pushers ?s)" using defs t by (auto intro: owners_keep)
  have 2: "chain_ok ?s c" using defs t unfolding chain_ok_def by (simp add: links_update)
  have 3: "fresh_ok ?s c" using defs unfolding fresh_ok_def by auto
  have 4: "popper_ok (popper s) ?s c"
    by (rule popper_ok_mono [of _ s c]) (use defs t in \<open>auto split: if_splits intro: exI [of _ t]\<close>)
  have 5: "items_ok ?s c" using defs by (cases "popper s") (auto simp: items_ok_def)
  have "n \<in> uncounted (pushers s)" using t by (auto simp: uncounted_def)
  then have "card (uncounted (pushers s)) = Suc (card (uncounted (pushers s) - {n}))"
    using un defs by (metis card.remove)
  moreover have "count s \<le> length c"
    using defs un unfolding count_ok_def
    by (cases "popper s") (auto simp: chain_ok_def chained_def intro: le_trans)
  ultimately have 6: "count_ok ?s c"
    using defs t un unfolding count_ok_def by (simp add: uncounted_count szadd_small)
  from 1 2 3 4 5 6 show ?thesis by (simp add: uq_inv_def)
qed

lemma push_publish_inv:
  assumes inv: "uq_inv s c" and t: "pushers s t = Push_counted p n"
  shows "uq_inv (s\<lparr>nxt := (nxt s)(p \<mapsto> n), pushers := (pushers s)(t := Push_idle)\<rparr>) c"
    (is "uq_inv ?s _")
proof -
  note defs = inv [unfolded uq_inv_def]
  have pn: "(p, n) \<in> links (pushers s)" using t by (auto simp: links_def)
  then have pc: "(p, n) \<in> pairs c" using defs unfolding chain_ok_def by blast
  have pNone: "nxt s p = None"
    using chainedD [OF _ pc] pn defs unfolding chain_ok_def by fastforce
  have 1: "owners_ok (pushers ?s)" using defs by (auto intro: owners_keep)
  have "chained ((nxt s)(p \<mapsto> n)) (links (pushers s) - {(p, n)}) c"
    using defs pc unfolding chain_ok_def by (intro chained_link) auto
  then have 2: "chain_ok ?s c"
    using defs links_publish [of "pushers s", OF _ t] unfolding chain_ok_def by auto
  have 3: "fresh_ok ?s c"
    using defs pairs_in(1) [OF pc] unfolding fresh_ok_def by (auto split: if_splits)
  have 4: "popper_ok (popper s) ?s c"
    by (rule popper_ok_mono [of _ s c]) (use defs pNone in \<open>auto split: if_splits\<close>)
  have 5: "items_ok ?s c" using defs by (cases "popper s") (auto simp: items_ok_def)
  have 6: "count_ok ?s c" using defs t unfolding count_ok_def by (simp add: uncounted_update)
  from 1 2 3 4 5 6 show ?thesis by (simp add: uq_inv_def)
qed

lemma popper_move_inv:
  assumes inv: "uq_inv s c" and ok: "popper_ok pc s c"
    and same: "popping s pc = popping s (popper s)" "still_counted pc = still_counted (popper s)"
  shows "uq_inv (s\<lparr>popper := pc\<rparr>) c"
proof -
  have "popper_ok pc (s\<lparr>popper := pc\<rparr>) c" using ok by (cases pc) auto
  moreover have "popping (s\<lparr>popper := pc\<rparr>) pc = popping s pc" by (cases pc) auto
  ultimately show ?thesis using inv same by (simp add: uq_defs)
qed

lemma chain_hd: "uq_inv s c \<Longrightarrow> c \<noteq> [] \<and> hd c = head_ptr s \<and> last c = tail_ptr s \<and> set c \<subseteq> live s \<and> distinct c"
  by (simp add: uq_inv_def chain_ok_def chained_def)

lemma pop_advance_inv:
  assumes inv: "uq_inv s c" and pc: "popper s = Pop_next h n"
  shows "uq_inv (s\<lparr>head_ptr := n, popper := Pop_head h n\<rparr>) (tl c)" (is "uq_inv ?s _")
proof -
  note defs = inv [unfolded uq_inv_def]
  have "popper_ok (Pop_next h n) s c" using defs pc by metis
  then have h: "h = hd c" "nxt s h = Some n" by auto
  then obtain c0 where c0: "c = h # c0" using chain_hd [OF inv] by (metis list.exhaust_sel)
  have "chained (nxt s) (links (pushers s)) (h # c0)" using defs c0 unfolding chain_ok_def by blast
  from chained_tl [OF this h(2)] obtain c1 where c1: "c0 = n # c1"
    "chained (nxt s) (links (pushers s)) c0" "(h, n) \<notin> links (pushers s)" by blast
  have hc: "h \<notin> set c0" using chain_hd [OF inv] c0 by auto
  have links: "links (pushers s) \<subseteq> pairs c0"
    using defs c0 c1 unfolding chain_ok_def by auto
  have unheld: "held (pushers s u) \<noteq> Some h" for u
    using held_cases(2) [of s u h c] defs c0 hc unfolding fresh_ok_def by fastforce
  have 2: "chain_ok ?s c0" using defs c0 c1 links unfolding chain_ok_def by auto
  have 3: "fresh_ok ?s c0" using defs c0 unfolding fresh_ok_def by auto
  have 4: "popper_ok (popper ?s) ?s c0" using c0 c1 hc unheld chain_hd [OF inv] by auto
  have 5: "items_ok ?s c0" using defs pc c0 c1 by (auto simp: items_ok_def)
  have 6: "count_ok ?s c0" using defs pc c0 c1 by (auto simp: count_ok_def)
  from defs 2 3 4 5 6 c0 show ?thesis by (simp add: uq_inv_def)
qed

lemma pop_take_inv:
  assumes "uq_inv s c" "popper s = Pop_head h n"
  shows "uq_inv (s\<lparr>taken := taken s @ [val s n], popper := Pop_value h\<rparr>) c"
  using assms by (auto simp: uq_defs)

lemma pop_uncount_inv:
  assumes inv: "uq_inv s c" and pc: "popper s = Pop_value h"
  shows "uq_inv (s\<lparr>count := szsub (count s) 1, popper := Pop_delete h\<rparr>) c" "0 < count s"
proof -
  have cnt: "count s + card (uncounted (pushers s)) = length (tl c) + 1"
    using inv pc by (simp add: uq_inv_def count_ok_def)
  have ch: "chain_ok s c" using inv by (simp add: uq_inv_def)
  show pos: "0 < count s" using cnt uncounted_chain(3) [OF ch] by linarith
  have "count s < size_mod" using cnt uncounted_chain(4) [OF ch] by simp
  then have "szsub (count s) 1 = count s - 1" using pos by (intro szsub_small) auto
  then show "uq_inv (s\<lparr>count := szsub (count s) 1, popper := Pop_delete h\<rparr>) c"
    using inv pc cnt pos by (auto simp: uq_defs)
qed

lemma pop_free_inv:
  assumes inv: "uq_inv s c" and pc: "popper s = Pop_delete h"
  shows "uq_inv (s\<lparr>live := live s - {h}, popper := Pop_idle\<rparr>) c"
proof -
  have h: "h \<notin> set c" "\<forall>t. held (pushers s t) \<noteq> Some h" using inv pc by (auto simp: uq_inv_def)
  then have "\<forall>t. pushers s t \<noteq> Push_node h" by (metis held.simps(2))
  then show ?thesis using inv pc h by (auto simp: uq_defs)
qed

lemma uq_step_inv:
  assumes "uq_step s s'" "uq_inv s c"
  shows "\<exists>c'. uq_inv s' c'"
  using assms
proof (induction rule: uq_step.induct)
  case (pop_load s h)
  then have "popper_ok (case nxt s h of Some n \<Rightarrow> Pop_next h n | None \<Rightarrow> Pop_none h) s c"
    by (auto simp: uq_inv_def split: option.splits)
  with pop_load popper_move_inv [of s c] show ?case by (fastforce split: option.splits)
next
  case (pop_check s h)
  then have "popper_ok (if tail_ptr s = h then Pop_idle else Pop_spin h) s c"
    using chain_hd [of s c] by (cases c) (auto simp: uq_inv_def)
  with pop_check popper_move_inv [of s c] show ?case by (fastforce split: if_splits)
next
  case (pop_spin s h)
  then have "popper_ok (case nxt s h of Some n \<Rightarrow> Pop_next h n | None \<Rightarrow> Pop_spin h) s c"
    by (auto simp: uq_inv_def split: option.splits)
  with pop_spin popper_move_inv [of s c] show ?case by (fastforce split: option.splits)
next
  case (pop_begin s)
  with popper_move_inv [of s c "Pop_at (head_ptr s)"] chain_hd [of s c] show ?case by auto
qed (blast intro: push_new_inv push_exchange_inv push_count_inv push_publish_inv pop_advance_inv
    pop_take_inv pop_uncount_inv pop_free_inv)+

lemma uq_reach_inv:
  assumes "uq_reach sentinel s" "sentinel < addr_space"
  shows "\<exists>c. uq_inv s c"
  using assms(1)
proof induction
  case start
  have "uq_inv (uqueue_new sentinel) [sentinel]"
    using assms(2)
    by (simp add: uq_defs uqueue_new_def chained_def links_def uncounted_def owners_ok_def)
  then show ?case by blast
next
  case (step s s')
  then show ?case using uq_step_inv by blast
qed

section \<open>Guarantees\<close>

text \<open>A run that pushes the item 7 and pops it, up to the decrement of the counter.\<close>

definition popped_one :: "nat uqueue" where
  "popped_one = (uqueue_new 0)\<lparr>live := {0, 1}, nxt := [0 \<mapsto> 1], val := (val (uqueue_new 0))(1 := 7),
     tail_ptr := 1, head_ptr := 1, count := 1, order := [7], taken := [7], popper := Pop_value 0\<rparr>"

lemma popped_one_reach: "uq_reach 0 popped_one"
proof -
  let ?s0 = "uqueue_new 0 :: nat uqueue"
  let ?h = "?s0\<lparr>live := {0, 1}, val := (val ?s0)(1 := 7)\<rparr>"
  let ?s1 = "?h\<lparr>pushers := (\<lambda>t. Push_idle)(0 := Push_node 1)\<rparr>"
  let ?s2 = "?h\<lparr>tail_ptr := 1, pushers := (\<lambda>t. Push_idle)(0 := Push_link 0 1), order := [7]\<rparr>"
  let ?s3 = "?s2\<lparr>count := 1, pushers := (\<lambda>t. Push_idle)(0 := Push_counted 0 1)\<rparr>"
  let ?s4 = "?s3\<lparr>nxt := [0 \<mapsto> 1], pushers := (\<lambda>t. Push_idle)\<rparr>"
  let ?s5 = "?s4\<lparr>popper := Pop_at 0\<rparr>" and ?s6 = "?s4\<lparr>popper := Pop_next 0 1\<rparr>"
  let ?s7 = "?s4\<lparr>head_ptr := 1, popper := Pop_head 0 1\<rparr>"
  have 1: "uq_step ?s0 ?s1"
    using uq_step.push_new [of ?s0 0 1 7] by (simp add: uqueue_new_def fun_upd_def insert_commute)
  have 2: "uq_step ?s1 ?s2" using uq_step.push_exchange [of ?s1 0 1] by (simp add: uqueue_new_def)
  have 3: "uq_step ?s2 ?s3" using uq_step.push_count [of ?s2 0 0 1] by (simp add: uqueue_new_def szadd_def)
  have 4: "uq_step ?s3 ?s4"
    using uq_step.push_publish [of ?s3 0 0 1] by (simp add: uqueue_new_def fun_upd_idem)
  have 5: "uq_step ?s4 ?s5" using uq_step.pop_begin [of ?s4] by (simp add: uqueue_new_def)
  have 6: "uq_step ?s5 ?s6" using uq_step.pop_load [of ?s5 0] by simp
  have 7: "uq_step ?s6 ?s7" using uq_step.pop_advance [of ?s6 0 1] by simp
  have 8: "uq_step ?s7 popped_one"
    using uq_step.pop_take [of ?s7 0 1] by (simp add: popped_one_def uqueue_new_def)
  show ?thesis
    by (rule uq_reach.step [OF uq_reach.step [OF uq_reach.step [OF uq_reach.step [OF uq_reach.step [OF
          uq_reach.step [OF uq_reach.step [OF uq_reach.step [OF uq_reach.start 1] 2] 3] 4] 5] 6] 7] 8])
qed

text \<open>C4. The unbounded queue is FIFO under every interleaving of any number of pushers with the
  popper: the items popped so far are a prefix of the items in the order of their tail exchanges.
  A pop that answers "empty" does so at an instant when nothing is queued, and a pop that spins
  waits for a link that is already stored or that a pusher past its exchange is about to store.\<close>

theorem uqueue_fifo:
  assumes "uq_reach sentinel s" "sentinel < addr_space"
  shows "\<exists>pending. order s = taken s @ pending \<and>
     (\<forall>h. popper s = Pop_none h \<and> tail_ptr s = h \<longrightarrow> pending = []) \<and>
     (\<forall>h. popper s = Pop_spin h \<longrightarrow> pending \<noteq> [] \<and> (\<exists>n. nxt s h = Some n \<or>
        (\<exists>t. pushers s t = Push_link h n \<or> pushers s t = Push_counted h n)))"
proof -
  obtain c where inv: "uq_inv s c" using uq_reach_inv [OF assms] by blast
  note defs = inv [unfolded uq_inv_def]
  let ?pending = "popping s (popper s) @ map (val s) (tl c)"
  have "order s = taken s @ ?pending" using defs by (simp add: items_ok_def)
  moreover have "?pending = []" if "popper s = Pop_none h \<and> tail_ptr s = h" for h
  proof -
    have "popper_ok (Pop_none h) s c" using defs that by metis
    then have "hd c = last c" "c \<noteq> []" "distinct c" using chain_hd [OF inv] that by auto
    then have "tl c = []" by (cases c) (auto split: if_splits)
    then show ?thesis using that by simp
  qed
  moreover have "?pending \<noteq> [] \<and> (\<exists>n. nxt s h = Some n \<or>
      (\<exists>t. pushers s t = Push_link h n \<or> pushers s t = Push_counted h n))" if "popper s = Pop_spin h" for h
  proof -
    have "popper_ok (Pop_spin h) s c" using defs that by metis
    then obtain n c' where c: "c = h # n # c'"
      using chain_hd [OF inv] by (metis list.exhaust_sel popper_ok.simps(4))
    then have "nxt s h = (if (h, n) \<in> links (pushers s) then None else Some n)"
      using defs by (intro chainedD [of _ _ c]) (auto simp: chain_ok_def)
    then show ?thesis using c that by (auto simp: links_def split: if_splits)
  qed
  ultimately show ?thesis by blast
qed

theorem uqueue_fifo_witness:
  "uq_reach 0 popped_one \<and> (\<exists>pending. order popped_one = taken popped_one @ pending \<and> pending = [])"
  using uqueue_fifo [OF popped_one_reach] popped_one_reach by (auto simp: popped_one_def)

text \<open>C10. The unbounded queue is memory safe and its counter never wraps, although deleted
  addresses are reused: every address the next step of any thread dereferences or deletes is a live
  node, and whenever the popper is about to decrement \<open>count_\<close> it is positive.\<close>

theorem uqueue_memory_safe:
  assumes "uq_reach sentinel s" "sentinel < addr_space"
  shows "push_derefs (pushers s t) \<subseteq> live s \<and> pop_derefs (popper s) \<subseteq> live s \<and>
     (popper s = Pop_value h \<longrightarrow> 0 < count s) \<and> count s \<le> addr_space"
proof (intro conjI impI)
  obtain c where inv: "uq_inv s c" using uq_reach_inv [OF assms] by blast
  note defs = inv [unfolded uq_inv_def]
  note hd = chain_hd [OF inv]
  have "p \<in> live s" if "pushers s t = Push_counted p n" for p n
  proof -
    have "(p, n) \<in> pairs c" using defs that by (auto simp: chain_ok_def links_def)
    from pairs_in(1) [OF this] hd show ?thesis by auto
  qed
  then show "push_derefs (pushers s t) \<subseteq> live s" by (cases "pushers s t") auto
  have "hd c \<in> live s" using hd by (metis list.set_sel(1) subsetD)
  then show "pop_derefs (popper s) \<subseteq> live s" using defs by (cases "popper s") auto
  show "0 < count s" if "popper s = Pop_value h" using pop_uncount_inv(2) [OF inv that] .
  have ch: "chain_ok s c" using defs by blast
  have "count s \<le> length (tl c) + 1"
    using defs by (cases "popper s") (auto simp: count_ok_def)
  moreover have "length (tl c) + 1 = length c" using hd by (cases c) auto
  ultimately show "count s \<le> addr_space" using uncounted_chain(4) [OF ch] by linarith
qed

theorem uqueue_memory_safe_witness:
  "popper popped_one = Pop_value 0 \<and> 0 < count popped_one"
  using uqueue_memory_safe [OF popped_one_reach, of 0 0] by (simp add: popped_one_def)

end
