(* ===== verification/Pipe_Alloc.thy ===== *)
theory Pipe_Alloc
  imports Prelude
begin

text \<open>
  The growable buffer of \<open>src/qb/system/allocator/pipe.h\<close> (\<open>base_pipe\<close>, \<open>pipe\<close> and the character
  pipe of \<open>src/qb/io/pipe.cpp\<close>), on which the message pipes between the cores and every I/O buffer
  are built. Storage is a list of \<open>capacity\<close> elements; the standard allocator is a parameter that
  returns a block of the requested length with arbitrary content, or fails. An operation that
  throws \<open>std::bad_alloc\<close> is a \<open>Bad_alloc\<close> value with the state it leaves behind, an access outside
  the storage is \<^const>\<open>None\<close>.
\<close>

section \<open>State\<close>

record 'a pipe =
  p_begin :: size_t
  p_end :: size_t
  flag_front :: bool
  capacity :: size_t
  factor :: size_t
  storage :: "'a list"

datatype ('r, 'p) alloc_result = Ok 'r 'p | Bad_alloc 'p

type_synonym 'a allocator = "size_t \<Rightarrow> 'a list option"

abbreviation SIZE :: size_t where
  "SIZE \<equiv> 4096"

definition allocator_ok :: "'a allocator \<Rightarrow> bool" where
  "allocator_ok alloc \<longleftrightarrow> (\<forall>n b. alloc n = Some b \<longrightarrow> length b = n)"

definition getItemSize :: "size_t \<Rightarrow> size_t \<Rightarrow> size_t" where
  "getItemSize sizeof_T sizeof_U = sizeof_T div sizeof_U + (if sizeof_T mod sizeof_U \<noteq> 0 then 1 else 0)"

definition pipe_new :: "'a list \<Rightarrow> 'a pipe" where
  "pipe_new block =
     \<lparr>p_begin = 0, p_end = 0, flag_front = False, capacity = SIZE, factor = 1, storage = block\<rparr>"

definition pipe_null :: "'a pipe" where
  "pipe_null = \<lparr>p_begin = 0, p_end = 0, flag_front = False, capacity = 0, factor = 1, storage = []\<rparr>"

section \<open>Operations\<close>

definition pipe_size :: "'a pipe \<Rightarrow> size_t" where
  "pipe_size p = szsub (p_end p) (p_begin p)"

definition pipe_empty :: "'a pipe \<Rightarrow> bool" where
  "pipe_empty p \<longleftrightarrow> p_begin p = p_end p"

definition free_front :: "size_t \<Rightarrow> 'a pipe \<Rightarrow> 'a pipe" where
  "free_front n p = p\<lparr>p_begin := szadd (p_begin p) n\<rparr>"

definition free_back :: "size_t \<Rightarrow> 'a pipe \<Rightarrow> 'a pipe" where
  "free_back n p = p\<lparr>p_end := szsub (p_end p) n\<rparr>"

definition pipe_reset_to :: "size_t \<Rightarrow> 'a pipe \<Rightarrow> 'a pipe" where
  "pipe_reset_to b p = (if b \<noteq> p_end p then p\<lparr>p_begin := b\<rparr> else p\<lparr>p_begin := 0, p_end := 0\<rparr>)"

definition pipe_reset :: "'a pipe \<Rightarrow> 'a pipe" where
  "pipe_reset p = p\<lparr>p_begin := 0, p_end := 0, flag_front := False\<rparr>"

definition pipe_free :: "size_t \<Rightarrow> 'a pipe \<Rightarrow> 'a pipe" where
  "pipe_free n p =
     (if flag_front p then p\<lparr>p_begin := szadd (p_begin p) n\<rparr> else p\<lparr>p_end := szsub (p_end p) n\<rparr>)"

definition reorder :: "'a pipe \<Rightarrow> 'a pipe option" where
  "reorder p =
     (if p_begin p = 0 then Some p
      else do {
        let nb_item = szsub (p_end p) (p_begin p);
        s \<leftarrow> mem_read (storage p) (p_begin p) nb_item;
        d \<leftarrow> mem_write (storage p) 0 s;
        Some (p\<lparr>storage := d, p_begin := 0, p_end := nb_item\<rparr>)
      })"

text \<open>
  The growth loop of \<open>allocate_back\<close>: the raised factor, and the new capacity unless the loop
  throws. The factor is a member, so it stays raised when something throws afterwards.
\<close>

function grow_factor :: "size_t \<Rightarrow> size_t \<Rightarrow> size_t \<Rightarrow> size_t \<times> size_t option" where
  "grow_factor nb_item sz f =
     (if f \<ge> 2 ^ 32 then (f, None)
      else let f' = szmul f 2; new_capacity = szmul f' SIZE
           in if new_capacity > nb_item \<and> szsub new_capacity nb_item < sz
              then grow_factor nb_item sz f'
              else (f', Some new_capacity))"
  by pat_completeness auto
termination
  by (relation "measure (\<lambda>(nb_item, sz, f). 2 ^ 32 - f)") (auto simp: szmul_def)

declare grow_factor.simps [simp del]

definition allocate_back ::
  "'a allocator \<Rightarrow> size_t \<Rightarrow> 'a pipe \<Rightarrow> (size_t, 'a pipe) alloc_result option" where
  "allocate_back alloc sz p =
     (if sz \<le> szsub (capacity p) (p_end p) \<and> p_end p \<le> capacity p
      then Some (Ok (p_end p) (p\<lparr>p_end := szadd (p_end p) sz\<rparr>))
      else
        let nb_item = szsub (p_end p) (p_begin p); half = capacity p div 2
        in if p_begin p > half \<and> sz < half
           then do {
             p1 \<leftarrow> reorder p;
             Some (Ok nb_item (p1\<lparr>p_end := szadd (p_end p1) sz\<rparr>))
           }
           else case grow_factor nb_item sz (factor p) of
             (f, None) \<Rightarrow> Some (Bad_alloc (p\<lparr>factor := f\<rparr>))
           | (f, Some new_capacity) \<Rightarrow>
               if new_capacity \<le> nb_item \<or> szadd nb_item sz > new_capacity
               then Some (Bad_alloc (p\<lparr>factor := f\<rparr>))
               else case alloc new_capacity of
                 None \<Rightarrow> Some (Bad_alloc (p\<lparr>factor := f\<rparr>))
               | Some new_data \<Rightarrow> do {
                   d \<leftarrow> (if nb_item > 0
                        then do { s \<leftarrow> mem_read (storage p) (p_begin p) nb_item; mem_write new_data 0 s }
                        else Some new_data);
                   Some (Ok nb_item (p\<lparr>p_begin := 0, p_end := szadd nb_item sz,
                     capacity := new_capacity, factor := f, storage := d\<rparr>))
                 })"

definition pipe_allocate ::
  "'a allocator \<Rightarrow> size_t \<Rightarrow> 'a pipe \<Rightarrow> (size_t, 'a pipe) alloc_result option" where
  "pipe_allocate alloc sz p =
     (if p_begin p \<ge> szadd sz 1 \<and> szsub (szsub (p_begin p) sz) 1 < p_end p
      then let b = szsub (p_begin p) sz in Some (Ok b (p\<lparr>p_begin := b, flag_front := True\<rparr>))
      else allocate_back alloc sz (p\<lparr>flag_front := False\<rparr>))"

definition pipe_resize :: "'a allocator \<Rightarrow> size_t \<Rightarrow> 'a pipe \<Rightarrow> (unit, 'a pipe) alloc_result option" where
  "pipe_resize alloc new_size p =
     (if new_size \<le> pipe_size p
      then Some (Ok () (p\<lparr>p_end := szsub (p_end p) (szsub (pipe_size p) new_size)\<rparr>))
      else do {
        r \<leftarrow> allocate_back alloc (szsub new_size (pipe_size p)) p;
        Some (case r of Ok i p1 \<Rightarrow> Ok () p1 | Bad_alloc p1 \<Rightarrow> Bad_alloc p1)
      })"

definition pipe_reserve :: "'a allocator \<Rightarrow> size_t \<Rightarrow> 'a pipe \<Rightarrow> (unit, 'a pipe) alloc_result option" where
  "pipe_reserve alloc sz p =
     do {
       r \<leftarrow> allocate_back alloc sz p;
       Some (case r of Ok i p1 \<Rightarrow> Ok () (free_back sz p1) | Bad_alloc p1 \<Rightarrow> Bad_alloc p1)
     }"

text \<open>
  \<open>store\<close> fills the range an allocation returned, as the \<open>memcpy\<close> or the copy loop after the
  allocation does. \<open>put\<close> is the allocation at the back followed by the copy: \<open>put(data, size)\<close>,
  \<open>put(begin, end)\<close> and \<open>recycle_back(data, size)\<close>; \<open>recycle\<close> allocates on either side.
\<close>

definition store ::
  "'a list \<Rightarrow> (size_t, 'a pipe) alloc_result \<Rightarrow> (size_t, 'a pipe) alloc_result option" where
  "store xs r =
     (case r of
        Bad_alloc p1 \<Rightarrow> Some (Bad_alloc p1)
      | Ok i p1 \<Rightarrow> do { d \<leftarrow> mem_write (storage p1) i xs; Some (Ok i (p1\<lparr>storage := d\<rparr>)) })"

definition put :: "'a allocator \<Rightarrow> 'a list \<Rightarrow> 'a pipe \<Rightarrow> (size_t, 'a pipe) alloc_result option" where
  "put alloc xs p = do { r \<leftarrow> allocate_back alloc (length xs) p; store xs r }"

definition put_guarded :: "'a allocator \<Rightarrow> 'a list \<Rightarrow> 'a pipe \<Rightarrow> (size_t, 'a pipe) alloc_result option" where
  "put_guarded alloc xs p = (if length xs \<noteq> 0 then put alloc xs p else Some (Ok (p_end p) p))"

definition recycle_back :: "'a allocator \<Rightarrow> 'a list \<Rightarrow> 'a pipe \<Rightarrow> (size_t, 'a pipe) alloc_result option" where
  "recycle_back alloc xs p = do { r \<leftarrow> allocate_back alloc (length xs) p; store xs r }"

definition recycle :: "'a allocator \<Rightarrow> 'a list \<Rightarrow> 'a pipe \<Rightarrow> (size_t, 'a pipe) alloc_result option" where
  "recycle alloc xs p = do { r \<leftarrow> pipe_allocate alloc (length xs) p; store xs r }"

text \<open>
  The iterator overload copies element by element. The character pipe adds overloads for a
  literal (an array with its final NUL, which is not copied), a single character, a string object
  and another pipe.
\<close>

fun copy_out :: "'a list \<Rightarrow> size_t \<Rightarrow> 'a list \<Rightarrow> 'a list option" where
  "copy_out [] i d = Some d"
| "copy_out (x # xs) i d = do { d' \<leftarrow> mem_write d i [x]; copy_out xs (i + 1) d' }"

definition put_range :: "'a allocator \<Rightarrow> 'a list \<Rightarrow> 'a pipe \<Rightarrow> (size_t, 'a pipe) alloc_result option" where
  "put_range alloc xs p =
     do {
       r \<leftarrow> allocate_back alloc (length xs) p;
       case r of
         Bad_alloc p1 \<Rightarrow> Some (Bad_alloc p1)
       | Ok i p1 \<Rightarrow> do { d \<leftarrow> copy_out xs i (storage p1); Some (Ok i (p1\<lparr>storage := d\<rparr>)) }
     }"

definition put_literal :: "'a allocator \<Rightarrow> 'a list \<Rightarrow> 'a pipe \<Rightarrow> (size_t, 'a pipe) alloc_result option" where
  "put_literal alloc str p =
     do { r \<leftarrow> allocate_back alloc (szsub (length str) 1) p; store (take (szsub (length str) 1) str) r }"

definition put_char :: "'a allocator \<Rightarrow> 'a \<Rightarrow> 'a pipe \<Rightarrow> (size_t, 'a pipe) alloc_result option" where
  "put_char alloc c p = do { r \<leftarrow> allocate_back alloc 1 p; store [c] r }"

text \<open>The valid elements, \<open>[begin(), end())\<close>; the character pipe's \<open>str\<close> and \<open>view\<close>.\<close>

definition pipe_list :: "'a pipe \<Rightarrow> 'a list" where
  "pipe_list p = take (p_end p - p_begin p) (drop (p_begin p) (storage p))"

definition pipe_str :: "'a pipe \<Rightarrow> 'a list option" where
  "pipe_str p = mem_read (storage p) (p_begin p) (pipe_size p)"

text \<open>Copies, moves and the swap; the moved-from side is left as \<^const>\<open>pipe_null\<close>.\<close>

definition pipe_copy :: "'a allocator \<Rightarrow> 'a pipe \<Rightarrow> (size_t, 'a pipe) alloc_result option" where
  "pipe_copy alloc rhs =
     (if pipe_size rhs \<noteq> 0
      then do { xs \<leftarrow> pipe_str rhs; r \<leftarrow> allocate_back alloc (pipe_size rhs) pipe_null; store xs r }
      else Some (Ok 0 pipe_null))"

definition pipe_copy_assign ::
  "'a allocator \<Rightarrow> 'a pipe \<Rightarrow> 'a pipe \<Rightarrow> (size_t, 'a pipe) alloc_result option" where
  "pipe_copy_assign alloc rhs p =
     (if pipe_size rhs \<noteq> 0
      then do { xs \<leftarrow> pipe_str rhs; r \<leftarrow> allocate_back alloc (pipe_size rhs) (pipe_reset p); store xs r }
      else Some (Ok 0 (pipe_reset p)))"

definition put_pipe :: "'a allocator \<Rightarrow> 'a pipe \<Rightarrow> 'a pipe \<Rightarrow> (size_t, 'a pipe) alloc_result option" where
  "put_pipe alloc rhs p =
     (if pipe_size rhs \<noteq> 0
      then do { xs \<leftarrow> pipe_str rhs; r \<leftarrow> allocate_back alloc (pipe_size rhs) p; store xs r }
      else Some (Ok (p_end p) p))"

definition pipe_move :: "'a pipe \<Rightarrow> 'a pipe \<times> 'a pipe" where
  "pipe_move rhs = (rhs, pipe_null)"

definition pipe_move_assign :: "'a pipe \<Rightarrow> 'a pipe \<Rightarrow> 'a pipe \<times> 'a pipe" where
  "pipe_move_assign p rhs = (rhs, pipe_null)"

definition pipe_swap :: "'a pipe \<Rightarrow> 'a pipe \<Rightarrow> 'a pipe \<times> 'a pipe" where
  "pipe_swap p rhs = (rhs, p)"

section \<open>Invariant and the growth loop\<close>

definition pipe_inv :: "'a pipe \<Rightarrow> bool" where
  "pipe_inv p \<longleftrightarrow> p_begin p \<le> p_end p \<and> p_end p \<le> capacity p \<and> length (storage p) = capacity p \<and>
     capacity p \<le> factor p * SIZE \<and> (\<exists>j \<le> 32. factor p = 2 ^ j)"

lemma pipe_invD:
  assumes "pipe_inv p"
  shows "p_begin p \<le> p_end p" "p_end p \<le> capacity p" "length (storage p) = capacity p"
    "capacity p \<le> 2 ^ 44" "capacity p \<le> factor p * SIZE"
proof -
  obtain j :: nat where j: "j \<le> 32" "factor p = 2 ^ j" using assms by (auto simp: pipe_inv_def)
  have "(2::nat) ^ j \<le> 2 ^ 32" using j by (intro power_increasing) auto
  then show "capacity p \<le> 2 ^ 44" using assms j by (simp add: pipe_inv_def)
qed (use assms in \<open>auto simp: pipe_inv_def\<close>)

lemma pipe_sizes:
  assumes "pipe_inv p"
  shows "szsub (p_end p) (p_begin p) = p_end p - p_begin p" "pipe_size p = p_end p - p_begin p"
    "szsub (capacity p) (p_end p) = capacity p - p_end p" "length (pipe_list p) = p_end p - p_begin p"
    "pipe_size p = length (pipe_list p)"
  using pipe_invD [OF assms] by (simp_all add: szsub_small pipe_size_def pipe_list_def)

lemma grow_factor_correct:
  assumes "f = 2 ^ j" "j \<le> 32" "nb \<le> f * SIZE" "sz < size_mod"
  shows "case grow_factor nb sz f of
      (f', Some nc) \<Rightarrow> (\<exists>j'. j < j' \<and> j' \<le> 32 \<and> f' = 2 ^ j') \<and> nc = f' * SIZE \<and> nb + sz \<le> nc \<and> nb < nc
    | (f', None) \<Rightarrow> f' = 2 ^ 32 \<and> (j = 32 \<or> 2 ^ 44 < nb + sz)"
  using assms
proof (induction nb sz f arbitrary: j rule: grow_factor.induct)
  case (1 nb sz f)
  show ?case
  proof (cases "j = 32")
    case True
    then show ?thesis using 1 by (subst grow_factor.simps) simp
  next
    case False
    then have j: "Suc j \<le> 32" using 1 by simp
    have le: "(2::nat) ^ Suc j \<le> 2 ^ 32" using j by (intro power_increasing) auto
    have f: "\<not> f \<ge> 2 ^ 32" using 1(2) le by simp
    have f2: "szmul f 2 = 2 ^ Suc j" using 1(2) le by (simp add: szmul_small)
    have nc: "szmul (szmul f 2) SIZE = 2 ^ Suc j * SIZE" unfolding f2 using le by (intro szmul_small) simp
    have "0 < (2::nat) ^ j" by simp
    then have nb: "nb < 2 ^ Suc j * SIZE" using 1(2,4) unfolding power_Suc by linarith
    have sub: "szsub (2 ^ Suc j * SIZE) nb = 2 ^ Suc j * SIZE - nb"
      using nb le by (intro szsub_small) auto
    show ?thesis
    proof (cases "2 ^ Suc j * SIZE - nb < sz")
      case True
      have g: "grow_factor nb sz f = grow_factor nb sz (2 ^ Suc j)"
        using f f2 nc sub True nb by (subst grow_factor.simps) (simp add: Let_def)
      have big: "2 ^ Suc j * SIZE < nb + sz" using True by simp
      note IH = "1.IH" [OF f refl refl, unfolded f2 nc [unfolded f2], OF _ refl j]
      from IH show ?thesis
        unfolding g using nb True sub big "1.prems"(4) j
        by (auto split: prod.splits option.splits)
    next
      case False
      then show ?thesis
        using f f2 nc sub nb j by (subst grow_factor.simps) (auto simp: Let_def)
    qed
  qed
qed

section \<open>What the operations do to the content\<close>

lemma pipe_new_inv: "length block = SIZE \<Longrightarrow> pipe_inv (pipe_new block) \<and> pipe_list (pipe_new block) = []"
  by (simp add: pipe_inv_def pipe_new_def pipe_list_def) (rule exI [of _ 0], simp)

lemma pipe_null_inv [simp]: "pipe_inv pipe_null \<and> pipe_list pipe_null = []"
  by (simp add: pipe_inv_def pipe_null_def pipe_list_def) (rule exI [of _ 0], simp)

lemma pipe_null_fields [simp]: "factor pipe_null = 1" "capacity pipe_null = 0" "p_end pipe_null = 0"
  by (simp_all add: pipe_null_def)

lemma reorder_correct:
  assumes "pipe_inv p"
  shows "\<exists>p'. reorder p = Some p' \<and> pipe_inv p' \<and> pipe_list p' = pipe_list p \<and> p_begin p' = 0 \<and>
     p_end p' = length (pipe_list p) \<and> capacity p' = capacity p \<and> flag_front p' = flag_front p \<and>
     factor p' = factor p"
proof (cases "p_begin p = 0")
  case True
  then show ?thesis using assms pipe_sizes [OF assms] by (simp add: reorder_def)
next
  case False
  then show ?thesis
    using assms pipe_invD [OF assms]
    by (auto simp: reorder_def Let_def pipe_sizes [OF assms] mem_read_def mem_write_def pipe_inv_def pipe_list_def)
qed

definition alloc_failure :: "'a allocator \<Rightarrow> size_t \<Rightarrow> 'a pipe \<Rightarrow> bool" where
  "alloc_failure alloc sz p \<longleftrightarrow> factor p = 2 ^ 32 \<or> 2 ^ 44 < length (pipe_list p) + sz \<or>
     (\<exists>n. alloc n = None \<and> n \<le> 2 ^ 44)"

lemma power_le_44: "j \<le> 32 \<Longrightarrow> (2::nat) ^ j * SIZE \<le> 2 ^ 44"
  using power_increasing [of j 32 "2::nat"] by simp

lemma allocate_back_grow:
  assumes inv: "pipe_inv p" and ok: "allocator_ok alloc" and sz: "sz < size_mod"
    and full: "\<not> (sz \<le> capacity p - p_end p)" "\<not> (p_begin p > capacity p div 2 \<and> sz < capacity p div 2)"
  shows "case allocate_back alloc sz p of
      Some (Ok i p') \<Rightarrow> pipe_inv p' \<and> p_end p' = i + sz \<and> i = p_begin p' + length (pipe_list p) \<and>
        take (length (pipe_list p)) (pipe_list p') = pipe_list p \<and> flag_front p' = flag_front p
    | Some (Bad_alloc p') \<Rightarrow> p' = p\<lparr>factor := factor p'\<rparr> \<and> pipe_inv p' \<and> alloc_failure alloc sz p
    | None \<Rightarrow> False"
proof -
  note d = pipe_invD [OF inv] and z = pipe_sizes [OF inv]
  obtain j where j: "j \<le> 32" "factor p = 2 ^ j" using inv by (auto simp: pipe_inv_def)
  let ?nb = "length (pipe_list p)"
  have nb: "?nb \<le> factor p * SIZE" using d z by linarith
  have nbe: "szsub (p_end p) (p_begin p) = ?nb" using z by simp
  obtain f r where g: "grow_factor ?nb sz (factor p) = (f, r)" by fastforce
  note gc = grow_factor_correct [OF j(2) j(1) nb sz, unfolded g]
  show ?thesis
  proof (cases r)
    case None
    then show ?thesis
      using full z g gc j d
      by (auto simp: allocate_back_def Let_def alloc_failure_def pipe_inv_def intro: exI [of _ 32])
  next
    case (Some nc)
    then obtain j' where j': "j < j'" "j' \<le> 32" "f = 2 ^ j'" and nc: "nc = f * SIZE" "?nb + sz \<le> nc" "?nb < nc"
      using gc by auto
    have le: "nc \<le> 2 ^ 44" using nc j' power_le_44 [of j'] by simp
    have add: "szadd ?nb sz = ?nb + sz" using nc le by (intro szadd_small) simp
    have f: "factor p \<le> f" using j j' by simp
    then have capf: "capacity p \<le> f * SIZE" using d(5) mult_le_mono1 [of "factor p" f SIZE] by linarith
    show ?thesis
    proof (cases "alloc nc")
      case N: None
      then show ?thesis
        using full z g Some nc add le capf j' inv
        by (auto simp: allocate_back_def Let_def alloc_failure_def pipe_inv_def)
    next
      case A: (Some nd)
      have nd: "length nd = nc" using ok A by (auto simp: allocator_ok_def)
      have rd: "mem_read (storage p) (p_begin p) ?nb = Some (pipe_list p)"
        using d z by (simp add: mem_read_def pipe_list_def)
      have wr: "mem_write nd 0 (pipe_list p) = Some (pipe_list p @ drop ?nb nd)"
        using nd nc by (simp add: mem_write_def)
      define d1 where "d1 = (if ?nb > 0 then pipe_list p @ drop ?nb nd else nd)"
      have d1: "length d1 = nc" "take ?nb d1 = pipe_list p" using nd nc by (auto simp: d1_def)
      have "allocate_back alloc sz p = Some (Ok ?nb (p\<lparr>p_begin := 0, p_end := ?nb + sz,
                     capacity := nc, factor := f, storage := d1\<rparr>))"
        using full nbe z(3) g Some nc add A rd wr
        by (auto simp: allocate_back_def Let_def d1_def)
      then show ?thesis
        using nc d1 j' by (auto simp: pipe_inv_def pipe_list_def min_def)
    qed
  qed
qed

lemma allocate_back_correct:
  assumes inv: "pipe_inv p" and ok: "allocator_ok alloc" and sz: "sz < size_mod"
  shows "case allocate_back alloc sz p of
      Some (Ok i p') \<Rightarrow> pipe_inv p' \<and> p_end p' = i + sz \<and> i = p_begin p' + length (pipe_list p) \<and>
        take (length (pipe_list p)) (pipe_list p') = pipe_list p \<and> flag_front p' = flag_front p
    | Some (Bad_alloc p') \<Rightarrow> p' = p\<lparr>factor := factor p'\<rparr> \<and> pipe_inv p' \<and> alloc_failure alloc sz p
    | None \<Rightarrow> False"
proof -
  note d = pipe_invD [OF inv] and z = pipe_sizes [OF inv]
  consider (fits) "sz \<le> capacity p - p_end p"
    | (reorder) "\<not> sz \<le> capacity p - p_end p" "p_begin p > capacity p div 2" "sz < capacity p div 2"
    | (grow) "\<not> sz \<le> capacity p - p_end p" "\<not> (p_begin p > capacity p div 2 \<and> sz < capacity p div 2)"
    by blast
  then show ?thesis
  proof cases
    case fits
    have "szadd (p_end p) sz = p_end p + sz" using fits d by (intro szadd_small) simp
    moreover have "p_end p + sz \<le> capacity p" using fits d by linarith
    ultimately show ?thesis
      using fits d z inv by (auto simp: allocate_back_def pipe_inv_def pipe_list_def min_def)
  next
    case reorder
    obtain p1 where p1: "reorder p = Some p1" "pipe_inv p1" "pipe_list p1 = pipe_list p" "p_begin p1 = 0"
      "p_end p1 = length (pipe_list p)" "capacity p1 = capacity p" "flag_front p1 = flag_front p"
      using reorder_correct [OF inv] by blast
    have room: "length (pipe_list p) + sz \<le> capacity p" using reorder d z by linarith
    have add: "szadd (length (pipe_list p)) sz = length (pipe_list p) + sz"
      using room d by (intro szadd_small) simp
    have "allocate_back alloc sz p = Some (Ok (length (pipe_list p)) (p1\<lparr>p_end := length (pipe_list p) + sz\<rparr>))"
      using reorder z p1 add by (auto simp: allocate_back_def Let_def)
    then show ?thesis
      using p1 room by (auto simp: pipe_inv_def pipe_list_def min_def)
  next
    case grow
    then show ?thesis using allocate_back_grow [OF inv ok sz] by blast
  qed
qed

lemma store_correct:
  assumes inv: "pipe_inv p" and e: "p_end p = i + length xs" "p_begin p \<le> i"
  shows "\<exists>p'. store xs (Ok i p) = Some (Ok i p') \<and> pipe_inv p' \<and>
     pipe_list p' = take (i - p_begin p) (pipe_list p) @ xs \<and> p_begin p' = p_begin p \<and> p_end p' = p_end p"
proof -
  note d = pipe_invD [OF inv]
  let ?d = "take i (storage p) @ xs @ drop (i + length xs) (storage p)"
  have il: "i + length xs \<le> length (storage p)" using d e by simp
  have "p_end p - p_begin p = (i - p_begin p) + length xs" using e by simp
  then have "take (p_end p - p_begin p) (drop (p_begin p) ?d) = take (i - p_begin p) (drop (p_begin p) (storage p)) @ xs"
    using il e by (simp add: drop_take)
  moreover have "take (i - p_begin p) (pipe_list p) = take (i - p_begin p) (drop (p_begin p) (storage p))"
    using e by (simp add: pipe_list_def min_absorb1)
  ultimately show ?thesis
    using il inv by (simp add: store_def mem_write_def pipe_inv_def pipe_list_def)
qed

lemma put_correct:
  assumes inv: "pipe_inv p" and ok: "allocator_ok alloc" and len: "length xs < size_mod"
  shows "(\<exists>i p'. put alloc xs p = Some (Ok i p') \<and> pipe_inv p' \<and> pipe_list p' = pipe_list p @ xs) \<or>
     (\<exists>f. put alloc xs p = Some (Bad_alloc (p\<lparr>factor := f\<rparr>)) \<and> pipe_inv (p\<lparr>factor := f\<rparr>) \<and>
        alloc_failure alloc (length xs) p)"
proof -
  note ab = allocate_back_correct [OF inv ok len]
  show ?thesis
  proof (cases "allocate_back alloc (length xs) p")
    case None
    then show ?thesis using ab by simp
  next
    case (Some r)
    show ?thesis
    proof (cases r)
      case (Ok i p1)
      then show ?thesis
        using Some ab store_correct [of p1 i xs] by (auto simp: put_def)
    next
      case (Bad_alloc p1)
      then have "put alloc xs p = Some (Bad_alloc (p\<lparr>factor := factor p1\<rparr>))" "pipe_inv (p\<lparr>factor := factor p1\<rparr>)"
        using Some ab by (auto simp: put_def store_def)
      then show ?thesis using Some Bad_alloc ab by auto
    qed
  qed
qed

lemma copy_out_mem_write: "i + length xs \<le> length d \<Longrightarrow> copy_out xs i d = mem_write d i xs"
proof (induction xs arbitrary: i d)
  case Nil
  then show ?case by (simp add: mem_write_def)
next
  case (Cons x xs)
  let ?d = "take i d @ x # drop (Suc i) d"
  have "mem_write d i [x] = Some ?d" using Cons.prems by (simp add: mem_write_def)
  moreover have "copy_out xs (i + 1) ?d = mem_write ?d (i + 1) xs" using Cons.prems by (intro Cons.IH) simp
  moreover have "mem_write ?d (i + 1) xs = mem_write d i (x # xs)"
    using Cons.prems by (auto simp: mem_write_def min_absorb2 add.commute)
  ultimately show ?case by simp
qed

lemma pipe_str_list: "pipe_inv p \<Longrightarrow> pipe_str p = Some (pipe_list p)"
  using pipe_invD [of p] pipe_sizes [of p] by (simp add: pipe_str_def mem_read_def pipe_list_def)

text \<open>The overloads of \<open>put\<close> are the same append.\<close>

lemma put_range_put:
  assumes "pipe_inv p" "allocator_ok alloc" "length xs < size_mod"
  shows "put_range alloc xs p = put alloc xs p"
proof (cases "allocate_back alloc (length xs) p")
  case (Some r)
  show ?thesis
  proof (cases r)
    case (Ok i p1)
    then have "pipe_inv p1" "p_end p1 = i + length xs"
      using allocate_back_correct [OF assms] Some by auto
    then have "i + length xs \<le> length (storage p1)" using pipe_invD [of p1] by simp
    then show ?thesis using Some Ok by (simp add: put_range_def put_def store_def copy_out_mem_write)
  qed (use Some in \<open>simp add: put_range_def put_def store_def\<close>)
qed (simp add: put_range_def put_def)

lemma put_literal_put:
  assumes "str \<noteq> []" "length str < size_mod"
  shows "put_literal alloc str p = put alloc (butlast str) p"
  using assms by (cases str) (simp_all add: put_literal_def put_def szsub_small butlast_conv_take)

lemma put_pipe_put:
  assumes "pipe_inv rhs"
  shows "put_pipe alloc rhs p = put_guarded alloc (pipe_list rhs) p"
  using pipe_str_list [OF assms] pipe_sizes(5) [OF assms]
  by (simp add: put_pipe_def put_guarded_def put_def)

lemma pipe_copy_put:
  assumes "pipe_inv rhs"
  shows "pipe_copy alloc rhs = put_guarded alloc (pipe_list rhs) pipe_null"
    "pipe_copy_assign alloc rhs p = put_guarded alloc (pipe_list rhs) (pipe_reset p)"
  using pipe_str_list [OF assms] pipe_sizes(5) [OF assms]
  by (simp_all add: pipe_copy_def pipe_copy_assign_def put_guarded_def put_def pipe_reset_def)

section \<open>Buffers one can append to\<close>

text \<open>
  The contract the serialisation code relies on: an append either adds exactly its bytes at the end
  or throws and leaves the content as it was. Proved of a chain of appends (\<open>a << b << c\<close>), which
  the first exception ends.
\<close>

fun put_all ::
  "('a list \<Rightarrow> 'p \<Rightarrow> ('r, 'p) alloc_result option) \<Rightarrow> 'a list list \<Rightarrow> 'p \<Rightarrow> (unit, 'p) alloc_result option" where
  "put_all app [] p = Some (Ok () p)"
| "put_all app (xs # xss) p =
     do {
       r \<leftarrow> app xs p;
       case r of Ok i p1 \<Rightarrow> put_all app xss p1 | Bad_alloc p1 \<Rightarrow> Some (Bad_alloc p1)
     }"

locale append_buffer =
  fixes invar :: "'p \<Rightarrow> bool"
    and contents :: "'p \<Rightarrow> 'a list"
    and app :: "'a list \<Rightarrow> 'p \<Rightarrow> ('r, 'p) alloc_result option"
  assumes app_law: "invar p \<Longrightarrow> length xs < size_mod \<Longrightarrow>
      (\<exists>i p'. app xs p = Some (Ok i p') \<and> invar p' \<and> contents p' = contents p @ xs) \<or>
      (\<exists>p'. app xs p = Some (Bad_alloc p') \<and> invar p' \<and> contents p' = contents p)"
begin

lemma put_all_correct:
  assumes "invar p" "\<forall>xs \<in> set xss. length xs < size_mod"
  shows "(\<exists>p'. put_all app xss p = Some (Ok () p') \<and> invar p' \<and> contents p' = contents p @ concat xss) \<or>
    (\<exists>p' k. put_all app xss p = Some (Bad_alloc p') \<and> invar p' \<and> k < length xss \<and>
       contents p' = contents p @ concat (take k xss))"
  using assms
proof (induction xss arbitrary: p)
  case Nil
  then show ?case by simp
next
  case (Cons xs xss)
  from app_law [OF Cons.prems(1)] Cons.prems(2)
  consider i p1 where "app xs p = Some (Ok i p1)" "invar p1" "contents p1 = contents p @ xs"
    | p1 where "app xs p = Some (Bad_alloc p1)" "invar p1" "contents p1 = contents p" by force
  then show ?case
  proof cases
    case 1
    from Cons.IH [OF 1(2)] Cons.prems(2)
    consider p2 where "put_all app xss p1 = Some (Ok () p2)" "invar p2" "contents p2 = contents p1 @ concat xss"
      | p2 k where "put_all app xss p1 = Some (Bad_alloc p2)" "invar p2" "k < length xss"
          "contents p2 = contents p1 @ concat (take k xss)" by auto
    then show ?thesis
    proof cases
      case 2
      then show ?thesis using 1 by (intro disjI2 exI [of _ p2] exI [of _ "Suc k"]) simp
    qed (use 1 in simp)
  next
    case 2
    then show ?thesis by (auto intro: exI [of _ 0])
  qed
qed

end

interpretation pipe: append_buffer "\<lambda>p. allocator_ok alloc \<and> pipe_inv p" pipe_list "put alloc" for alloc
proof (unfold_locales, goal_cases)
  case (1 p xs)
  then have inv: "pipe_inv p" and ok: "allocator_ok alloc" by simp_all
  have keep: "pipe_list (p\<lparr>factor := f\<rparr>) = pipe_list p" for f by (simp add: pipe_list_def)
  from put_correct [OF inv ok 1(2)] show ?case using ok keep by blast
qed

interpretation char_pipe: append_buffer "\<lambda>p. allocator_ok alloc \<and> pipe_inv p" pipe_list "put_guarded alloc" for alloc
proof (unfold_locales, goal_cases)
  case (1 p xs)
  then show ?case using pipe.app_law [OF 1] by (simp add: put_guarded_def)
qed

text \<open>C9. A chain of appends to a pipe either appends exactly the concatenation of its arguments to
  the pipe's content, or throws \<open>bad_alloc\<close> at some argument and then the pipe holds the old content
  followed by the arguments before it. Growth, compaction and the copies they make never leave the
  storage and never lose or change an element, for every allocator.\<close>

theorem pipe_appends:
  assumes "pipe_inv p" "allocator_ok alloc" "\<forall>xs \<in> set xss. length xs < size_mod"
  shows "(\<exists>p'. put_all (put alloc) xss p = Some (Ok () p') \<and> pipe_inv p' \<and>
       pipe_list p' = pipe_list p @ concat xss) \<or>
    (\<exists>p' k. put_all (put alloc) xss p = Some (Bad_alloc p') \<and> pipe_inv p' \<and> k < length xss \<and>
       pipe_list p' = pipe_list p @ concat (take k xss))"
  using pipe.put_all_correct [of alloc p xss] assms by auto

theorem pipe_appends_witness:
  "\<exists>p'. put_all (put (\<lambda>n. None)) [[1, 2], [3]] (pipe_new (replicate 4096 (0::nat))) = Some (Ok () p') \<and>
     pipe_list p' = [1, 2, 3]"
proof -
  let ?p = "pipe_new (replicate 4096 (0::nat))"
  have "put_all (put (\<lambda>n. None)) [[1, 2], [3]] ?p \<noteq> Some (Bad_alloc p')" for p'
    by (simp add: put_def allocate_back_def pipe_new_def store_def mem_write_def szsub_def szadd_def)
  with pipe_appends [of ?p "\<lambda>n. None" "[[1, 2], [3]]"] pipe_new_inv [of "replicate 4096 (0::nat)"]
  show ?thesis by (simp add: allocator_ok_def) blast
qed

text \<open>C30. An append of \<open>n\<close> elements succeeds whenever the allocator can provide blocks of up to
  \<open>2 ^ 44\<close> elements, the pipe has not reached its largest factor and the elements fit in
  \<open>2 ^ 44\<close>: the doubling loop terminates with a capacity that holds them.\<close>

theorem pipe_put_succeeds:
  assumes "pipe_inv p" "allocator_ok alloc" "\<forall>n \<le> 2 ^ 44. alloc n \<noteq> None"
    and "factor p \<noteq> 2 ^ 32" "length (pipe_list p) + length xs \<le> 2 ^ 44"
  shows "\<exists>i p'. put alloc xs p = Some (Ok i p') \<and> pipe_inv p' \<and> pipe_list p' = pipe_list p @ xs"
proof -
  have "length xs < size_mod" using assms(5) by simp
  moreover have "\<not> alloc_failure alloc (length xs) p" using assms by (auto simp: alloc_failure_def)
  ultimately show ?thesis using put_correct [OF assms(1,2)] by blast
qed

theorem pipe_put_succeeds_witness:
  "\<exists>i p'. put (\<lambda>n. Some (replicate n 0)) [1, 2, 3] pipe_null = Some (Ok i p') \<and> pipe_list p' = [1, 2, 3::nat]"
  using pipe_put_succeeds [of pipe_null "\<lambda>n. Some (replicate n 0)" "[1, 2, 3::nat]"]
  by (auto simp: allocator_ok_def)

section \<open>Releasing\<close>

lemma free_front_correct:
  assumes "pipe_inv p" "n \<le> length (pipe_list p)"
  shows "pipe_inv (free_front n p)" "pipe_list (free_front n p) = drop n (pipe_list p)"
proof -
  note d = pipe_invD [OF assms(1)] and z = pipe_sizes [OF assms(1)]
  have n: "szadd (p_begin p) n = p_begin p + n" "p_begin p + n \<le> p_end p"
    using d z assms(2) by (auto simp: szadd_small)
  show "pipe_inv (free_front n p)" using assms(1) n by (simp add: pipe_inv_def free_front_def)
  show "pipe_list (free_front n p) = drop n (pipe_list p)"
    using n by (simp add: pipe_list_def free_front_def drop_take add.commute)
qed

lemma free_back_correct:
  assumes "pipe_inv p" "n \<le> length (pipe_list p)"
  shows "pipe_inv (free_back n p)" "pipe_list (free_back n p) = take (length (pipe_list p) - n) (pipe_list p)"
proof -
  note d = pipe_invD [OF assms(1)] and z = pipe_sizes [OF assms(1)]
  have n: "szsub (p_end p) n = p_end p - n" "p_begin p \<le> p_end p - n"
    using d z assms(2) by (auto simp: szsub_small)
  show "pipe_inv (free_back n p)" using assms(1) n by (auto simp: pipe_inv_def free_back_def)
  show "pipe_list (free_back n p) = take (length (pipe_list p) - n) (pipe_list p)"
    using n z diff_le_mono2 [of "p_begin p" "n + p_begin p" "p_end p"]
    by (simp add: pipe_list_def free_back_def add.commute min_absorb1)
qed

lemma pipe_reset_correct:
  assumes "pipe_inv p"
  shows "pipe_inv (pipe_reset p)" "pipe_list (pipe_reset p) = []"
  using assms by (auto simp: pipe_reset_def pipe_inv_def pipe_list_def)

lemma pipe_reset_to_correct:
  assumes "pipe_inv p" "p_begin p \<le> b" "b \<le> p_end p"
  shows "pipe_inv (pipe_reset_to b p)" "pipe_list (pipe_reset_to b p) = drop (b - p_begin p) (pipe_list p)"
proof -
  show "pipe_inv (pipe_reset_to b p)" using assms by (auto simp: pipe_reset_to_def pipe_inv_def)
  show "pipe_list (pipe_reset_to b p) = drop (b - p_begin p) (pipe_list p)"
    using assms(2,3) by (auto simp: pipe_reset_to_def pipe_list_def drop_take)
qed

text \<open>An allocation on either side, then \<open>free\<close> of as many elements, gives back the old content.\<close>

lemma pipe_allocate_front:
  assumes inv: "pipe_inv p" and room: "p_begin p \<ge> szadd sz 1" "sz < size_mod - 1"
  shows "pipe_allocate alloc sz p = Some (Ok (p_begin p - sz) (p\<lparr>p_begin := p_begin p - sz, flag_front := True\<rparr>))"
proof -
  note d = pipe_invD [OF inv]
  have add: "szadd sz 1 = sz + 1" using room(2) by (simp add: szadd_small)
  then have b: "sz < p_begin p" using room by simp
  have "szsub (p_begin p) sz = p_begin p - sz" using b d by (intro szsub_small) auto
  moreover have "szsub (p_begin p - sz) 1 = p_begin p - sz - 1" using b d by (intro szsub_small) auto
  moreover have "p_begin p - sz - 1 < p_end p" using b d by linarith
  ultimately show ?thesis using room by (simp add: pipe_allocate_def Let_def)
qed

text \<open>Round trip of the two-sided allocation: whether \<open>allocate(n)\<close> placed the block in front of
  the content or behind it, \<open>free(n)\<close> directly afterwards restores exactly the content before.\<close>

theorem pipe_allocate_free:
  assumes inv: "pipe_inv p" and ok: "allocator_ok alloc" and sz: "sz < size_mod - 1"
    and r: "pipe_allocate alloc sz p = Some (Ok i p')"
  shows "pipe_list (pipe_free sz p') = pipe_list p \<and> pipe_inv (pipe_free sz p') \<and>
     i + sz \<le> capacity p' \<and> length (pipe_list p') = length (pipe_list p) + sz"
proof (cases "p_begin p \<ge> szadd sz 1")
  case True
  note d = pipe_invD [OF inv]
  have add: "szadd sz 1 = sz + 1" using sz by (simp add: szadd_small)
  have b: "sz < p_begin p" using True add by simp
  have p': "p' = p\<lparr>p_begin := p_begin p - sz, flag_front := True\<rparr>" and i: "i = p_begin p - sz"
    using r pipe_allocate_front [OF inv True sz] by auto
  have "szadd (p_begin p - sz) sz = p_begin p" using b d by (simp add: szadd_small)
  then show ?thesis
    using b d inv by (auto simp: p' i pipe_free_def pipe_list_def pipe_inv_def)
next
  case False
  let ?q = "p\<lparr>flag_front := False\<rparr>"
  have q: "pipe_inv ?q" "pipe_list ?q = pipe_list p" using inv by (simp_all add: pipe_inv_def pipe_list_def)
  have "allocate_back alloc sz ?q = Some (Ok i p')" using r False by (simp add: pipe_allocate_def)
  with allocate_back_correct [OF q(1) ok, of sz] sz q(2)
  have p': "pipe_inv p'" "p_end p' = i + sz" "i = p_begin p' + length (pipe_list p)"
    "take (length (pipe_list p)) (pipe_list p') = pipe_list p" "\<not> flag_front p'" by simp_all
  note d' = pipe_invD [OF p'(1)] and z' = pipe_sizes [OF p'(1)]
  have len: "length (pipe_list p') = length (pipe_list p) + sz" using z' p' by simp
  have "pipe_free sz p' = free_back sz p'" using p'(5) by (simp add: pipe_free_def free_back_def)
  with free_back_correct [OF p'(1), of sz] len p'(2,4) d' show ?thesis by auto
qed

theorem pipe_allocate_free_witness:
  "\<exists>p'. pipe_allocate (\<lambda>n. None) 2 (pipe_new (replicate 4096 (0::nat))) = Some (Ok 0 p') \<and>
     pipe_list (pipe_free 2 p') = []"
proof -
  let ?p = "pipe_new (replicate 4096 (0::nat))"
  have r: "pipe_allocate (\<lambda>n. None) 2 ?p = Some (Ok 0 (?p\<lparr>p_end := 2\<rparr>))"
    by (simp add: pipe_allocate_def allocate_back_def pipe_new_def szsub_def szadd_def)
  have "pipe_inv ?p" "pipe_list ?p = []" using pipe_new_inv [of "replicate SIZE (0::nat)"] by simp_all
  then show ?thesis using pipe_allocate_free [OF _ _ _ r] r by (simp add: allocator_ok_def)
qed



end
