(* ===== verification/Ring_Buffer.thy ===== *)
theory Ring_Buffer
  imports Prelude
begin

text \<open>
  The fixed-size circular container of \<open>src/qb/system/container/ring_buffer.h\<close>, for an element type
  with a destructor. A slot of the storage is \<^const>\<open>None\<close> while it is raw memory and \<^const>\<open>Some\<close>
  while an object lives in it; constructing over a live object, destroying raw memory, or reading
  it, is an error (\<^const>\<open>None\<close> as the result), so the theorems also say that every element is
  constructed and destroyed exactly once.
\<close>

section \<open>State and slots\<close>

record 'a ring_buffer =
  elements :: "'a option list"
  head_idx :: size_t
  tail_idx :: size_t
  count_el :: size_t

definition construct_at :: "size_t \<Rightarrow> 'a \<Rightarrow> 'a option list \<Rightarrow> 'a option list option" where
  "construct_at i x es = (if i < length es \<and> es ! i = None then Some (es[i := Some x]) else None)"

definition destroy_at :: "size_t \<Rightarrow> 'a option list \<Rightarrow> 'a option list option" where
  "destroy_at i es = (if i < length es \<and> es ! i \<noteq> None then Some (es[i := None]) else None)"

definition slot_at :: "size_t \<Rightarrow> 'a ring_buffer \<Rightarrow> 'a option" where
  "slot_at index rb = (if index < length (elements rb) then elements rb ! index else None)"

section \<open>Operations\<close>

definition rb_new :: "size_t \<Rightarrow> 'a ring_buffer" where
  "rb_new N = \<lparr>elements = replicate N None, head_idx = 0, tail_idx = 0, count_el = 0\<rparr>"

definition rb_empty :: "'a ring_buffer \<Rightarrow> bool" where
  "rb_empty rb \<longleftrightarrow> count_el rb = 0"

definition rb_full :: "size_t \<Rightarrow> 'a ring_buffer \<Rightarrow> bool" where
  "rb_full N rb \<longleftrightarrow> count_el rb = N"

definition push_back_impl :: "size_t \<Rightarrow> 'a \<Rightarrow> 'a ring_buffer \<Rightarrow> 'a ring_buffer option" where
  "push_back_impl N value rb =
     do {
       es \<leftarrow> (if rb_full N rb then destroy_at (head_idx rb) (elements rb) else Some (elements rb));
       es' \<leftarrow> construct_at (head_idx rb) value es;
       let rb1 = rb\<lparr>elements := es', head_idx := szadd (head_idx rb) 1 mod N\<rparr>;
       let rb2 = (if rb_full N rb1 then rb1\<lparr>tail_idx := szadd (tail_idx rb1) 1 mod N\<rparr> else rb1);
       Some (if \<not> rb_full N rb2 then rb2\<lparr>count_el := szadd (count_el rb2) 1\<rparr> else rb2)
     }"

definition push_back :: "size_t \<Rightarrow> bool \<Rightarrow> 'a \<Rightarrow> 'a ring_buffer \<Rightarrow> 'a ring_buffer option" where
  "push_back N overwrite value rb =
     (if \<not> overwrite \<and> rb_full N rb then Some rb else push_back_impl N value rb)"

definition pop_front :: "size_t \<Rightarrow> 'a ring_buffer \<Rightarrow> 'a ring_buffer option" where
  "pop_front N rb =
     (if rb_empty rb then Some rb
      else do {
        es \<leftarrow> destroy_at (tail_idx rb) (elements rb);
        Some (rb\<lparr>elements := es, count_el := szsub (count_el rb) 1, tail_idx := szadd (tail_idx rb) 1 mod N\<rparr>)
      })"

definition rb_back :: "size_t \<Rightarrow> 'a ring_buffer \<Rightarrow> 'a option" where
  "rb_back N rb = slot_at (if head_idx rb = 0 then szsub N 1 else szsub (head_idx rb) 1) rb"

definition rb_front :: "'a ring_buffer \<Rightarrow> 'a option" where
  "rb_front rb = slot_at (tail_idx rb) rb"

text \<open>The loop of \<open>clear\<close>, and \<open>clear\<close>.\<close>

fun clear_loop :: "size_t \<Rightarrow> size_t \<Rightarrow> size_t \<Rightarrow> 'a option list \<Rightarrow> 'a option list option" where
  "clear_loop N tail 0 es = Some es"
| "clear_loop N tail (Suc n) es = do { es' \<leftarrow> destroy_at tail es; clear_loop N (szadd tail 1 mod N) n es' }"

definition rb_clear :: "size_t \<Rightarrow> 'a ring_buffer \<Rightarrow> 'a ring_buffer option" where
  "rb_clear N rb =
     do {
       es \<leftarrow> clear_loop N (tail_idx rb) (count_el rb) (elements rb);
       Some (rb\<lparr>elements := es, head_idx := 0, tail_idx := 0, count_el := 0\<rparr>)
     }"

text \<open>
  \<open>copy_impl\<close>: \<open>cp k x\<close> is the copy constructor's result for the \<open>k\<close>-th element, \<^const>\<open>None\<close> if
  it throws. A throw destroys the elements constructed so far and empties the buffer; the flag of
  the result tells whether the copy completed.
\<close>

fun destroy_prefix :: "size_t \<Rightarrow> size_t \<Rightarrow> size_t \<Rightarrow> 'a option list \<Rightarrow> 'a option list option" where
  "destroy_prefix N tail 0 es = Some es"
| "destroy_prefix N tail (Suc k) es =
     do { es' \<leftarrow> destroy_prefix N tail k es; destroy_at ((tail + k) mod N) es' }"

function copy_loop ::
  "(size_t \<Rightarrow> 'a \<Rightarrow> 'a option) \<Rightarrow> size_t \<Rightarrow> 'a ring_buffer \<Rightarrow> size_t \<Rightarrow> size_t \<Rightarrow> 'a option list \<Rightarrow>
     (bool \<times> 'a option list) option" where
  "copy_loop cp N rhs n k es =
     (if k < n
      then do {
        x \<leftarrow> slot_at ((tail_idx rhs + k) mod N) rhs;
        case cp k x of
          None \<Rightarrow> do { es' \<leftarrow> destroy_prefix N (tail_idx rhs) k es; Some (False, es') }
        | Some y \<Rightarrow> do {
            es' \<leftarrow> construct_at ((tail_idx rhs + k) mod N) y es;
            copy_loop cp N rhs n (k + 1) es'
          }
      }
      else Some (True, es))"
  by pat_completeness auto
termination by (relation "measure (\<lambda>(cp, N, rhs, n, k, es). n - k)") auto

declare copy_loop.simps [simp del]

definition copy_impl ::
  "(size_t \<Rightarrow> 'a \<Rightarrow> 'a option) \<Rightarrow> size_t \<Rightarrow> 'a ring_buffer \<Rightarrow> 'a ring_buffer \<Rightarrow> (bool \<times> 'a ring_buffer) option" where
  "copy_impl cp N rhs rb =
     do {
       (ok, es) \<leftarrow> copy_loop cp N rhs (count_el rhs) 0 (elements rb);
       Some (ok, if ok then \<lparr>elements = es, head_idx = head_idx rhs, tail_idx = tail_idx rhs, count_el = count_el rhs\<rparr>
                 else \<lparr>elements = es, head_idx = 0, tail_idx = 0, count_el = 0\<rparr>)
     }"

definition rb_assign ::
  "(size_t \<Rightarrow> 'a \<Rightarrow> 'a option) \<Rightarrow> size_t \<Rightarrow> 'a ring_buffer \<Rightarrow> 'a ring_buffer \<Rightarrow> (bool \<times> 'a ring_buffer) option" where
  "rb_assign cp N rhs rb = do { rb1 \<leftarrow> rb_clear N rb; copy_impl cp N rhs rb1 }"

text \<open>Iteration from \<open>begin()\<close> to \<open>end()\<close>: the iterator is the slot index and the count.\<close>

function iterate :: "size_t \<Rightarrow> 'a ring_buffer \<Rightarrow> size_t \<Rightarrow> size_t \<Rightarrow> 'a list option" where
  "iterate N rb index cnt =
     (if cnt < count_el rb
      then do {
        x \<leftarrow> slot_at index rb;
        xs \<leftarrow> iterate N rb (szadd index 1 mod N) (cnt + 1);
        Some (x # xs)
      }
      else Some [])"
  by pat_completeness auto
termination by (relation "measure (\<lambda>(N, rb, index, cnt). count_el rb - cnt)") auto

declare iterate.simps [simp del]

section \<open>Refinement\<close>

text \<open>
  \<open>rb_rel N rb xs\<close>: read from the tail once around, the storage is the list's elements, then raw
  slots.
\<close>

definition rb_rel :: "size_t \<Rightarrow> 'a ring_buffer \<Rightarrow> 'a list \<Rightarrow> bool" where
  "rb_rel N rb xs \<longleftrightarrow> 0 < N \<and> N < 2 ^ 63 \<and> length (elements rb) = N \<and> tail_idx rb < N \<and>
     count_el rb = length xs \<and> length xs \<le> N \<and> head_idx rb = (tail_idx rb + length xs) mod N \<and>
     window (elements rb) (tail_idx rb) N = map Some xs @ replicate (N - length xs) None"

fun bounded_push :: "size_t \<Rightarrow> bool \<Rightarrow> 'a \<Rightarrow> 'a list \<Rightarrow> 'a list" where
  "bounded_push N overwrite x xs =
     (if length xs < N then xs @ [x] else if overwrite then tl xs @ [x] else xs)"

lemma rb_new_rel: "0 < N \<Longrightarrow> N < 2 ^ 63 \<Longrightarrow> rb_rel N (rb_new N) []"
  by (auto simp: rb_rel_def rb_new_def intro: nth_equalityI)

lemma rb_rel_bounds:
  assumes "rb_rel N rb xs"
  shows "0 < N" "N < 2 ^ 63" "length (elements rb) = N" "tail_idx rb < N" "count_el rb = length xs"
    "length xs \<le> N" "head_idx rb = (tail_idx rb + length xs) mod N"
    "window (elements rb) (tail_idx rb) N = map Some xs @ replicate (N - length xs) None"
  using assms by (auto simp: rb_rel_def)

lemma rb_slot:
  assumes "rb_rel N rb xs" "k < N"
  shows "elements rb ! ((tail_idx rb + k) mod N) = (if k < length xs then Some (xs ! k) else None)"
proof -
  note b = rb_rel_bounds [OF assms(1)]
  have "elements rb ! ((tail_idx rb + k) mod N) = window (elements rb) (tail_idx rb) N ! k"
    using b(3) assms(2) by simp
  then show ?thesis using b(8) assms(2) by (auto simp: nth_append)
qed

lemma rb_succ: "i < N \<Longrightarrow> N < 2 ^ 63 \<Longrightarrow> szadd i (Suc 0) mod N = Suc i mod N"
  by (simp add: szadd_small)

lemma push_back_correct:
  assumes rel: "rb_rel N rb xs"
  shows "\<exists>rb'. push_back N overwrite x rb = Some rb' \<and> rb_rel N rb' (bounded_push N overwrite x xs)"
proof -
  note b = rb_rel_bounds [OF rel]
  let ?es = "elements rb" and ?t = "tail_idx rb" and ?h = "head_idx rb"
  have h: "?h < N" using b by simp
  note upd = window_update [of _ ?es ?t, unfolded b(3)]
  show ?thesis
  proof (cases "length xs < N")
    case True
    have raw: "?es ! ?h = None" using rb_slot [OF rel True] b by simp
    obtain r where r: "N - length xs = Suc r" using True by (cases "N - length xs") auto
    have "window (?es[?h := Some x]) ?t N = map Some (xs @ [x]) @ replicate r None"
      using upd [OF True, of "Some x"] b(7,8) r by (simp add: list_update_append)
    then show ?thesis
      using True b raw h r
      by (auto simp: push_back_def push_back_impl_def rb_full_def construct_at_def Let_def rb_rel_def
          rb_succ szadd_small mod_Suc_eq)
  next
    case False
    then have full: "length xs = N" and ht: "?h = ?t" using b by simp_all
    obtain y ys where xs: "xs = y # ys" using full b(1) by (cases xs) auto
    show ?thesis
    proof (cases overwrite)
      case True
      have live: "?es ! ?t = Some y" using rb_slot [OF rel b(1)] b(4) xs by simp
      let ?es' = "?es[?t := Some x]"
      have "window ?es' ?t N = Some x # map Some ys"
        using upd [OF b(1), of "Some x"] b(4,8) full xs by simp
      then have "window ?es' (Suc ?t) N = map Some (ys @ [x])"
        using window_rotate [of ?es' ?t] b(1,3) by auto
      then have "window ?es' (Suc ?t mod N) N = map Some (ys @ [x])"
        using window_mod [of ?es' "Suc ?t" N] b(3) by simp
      then show ?thesis
        using True b live h full ht xs
        by (auto simp: push_back_def push_back_impl_def rb_full_def construct_at_def destroy_at_def Let_def
            rb_rel_def rb_succ)
    next
      case False
      then show ?thesis using rel b full by (simp add: push_back_def rb_full_def)
    qed
  qed
qed

lemma pop_front_correct:
  assumes rel: "rb_rel N rb xs"
  shows "\<exists>rb'. pop_front N rb = Some rb' \<and> rb_rel N rb' (tl xs)"
proof (cases xs)
  case Nil
  then show ?thesis using rel rb_rel_bounds(5) [OF rel] by (simp add: pop_front_def rb_empty_def)
next
  case (Cons y ys)
  note b = rb_rel_bounds [OF rel]
  let ?es = "elements rb" and ?t = "tail_idx rb"
  let ?es' = "?es[?t := None]"
  have live: "?es ! ?t = Some y" using rb_slot [OF rel b(1)] b(4) Cons by simp
  have "window ?es' ?t N = None # map Some ys @ replicate (N - length xs) None"
    using window_update [of 0 ?es ?t None] b(1,3,4,8) Cons by simp
  then have "window ?es' (Suc ?t) N = map Some ys @ replicate (Suc (N - length xs)) None"
    using window_rotate [of ?es' ?t] b(1,3) by (auto simp: replicate_append_same)
  moreover have len: "N - length ys = Suc (N - length xs)" using b(6) Cons by simp
  ultimately have "window ?es' (Suc ?t mod N) N = map Some ys @ replicate (N - length ys) None"
    using window_mod [of ?es' "Suc ?t" N] b(3) unfolding len by simp
  moreover have "(Suc ?t mod N + length ys) mod N = (?t + length xs) mod N"
    using Cons by (simp add: mod_add_left_eq)
  ultimately show ?thesis
    using b live Cons
    by (auto simp: pop_front_def rb_empty_def destroy_at_def rb_rel_def rb_succ szsub_small)
qed

lemma clear_loop_correct:
  assumes "rb_rel N rb xs"
  shows "\<exists>es. clear_loop N (tail_idx rb) (length xs) (elements rb) = Some es \<and> es = replicate N None"
  using assms
proof (induction xs arbitrary: rb)
  case Nil
  note b = rb_rel_bounds [OF Nil]
  have "elements rb ! i = None" if i: "i < N" for i
  proof -
    have "(tail_idx rb + (i + N - tail_idx rb) mod N) mod N = i"
      using i b(4) by (simp add: mod_add_right_eq)
    then show ?thesis using rb_slot [OF Nil, of "(i + N - tail_idx rb) mod N"] b(1) by simp
  qed
  then show ?case using b(3) by (auto intro!: nth_equalityI)
next
  case (Cons x xs)
  note b = rb_rel_bounds [OF Cons.prems]
  obtain rb' where "pop_front N rb = Some rb'" "rb_rel N rb' xs"
    using pop_front_correct [OF Cons.prems] by auto
  moreover from this obtain es where es: "destroy_at (tail_idx rb) (elements rb) = Some es"
    "elements rb' = es" "tail_idx rb' = szadd (tail_idx rb) 1 mod N"
    using b by (auto simp: pop_front_def rb_empty_def split: bind_splits)
  ultimately show ?case using Cons.IH [of rb'] by simp
qed

lemma rb_clear_correct:
  assumes "rb_rel N rb xs"
  shows "\<exists>rb'. rb_clear N rb = Some rb' \<and> rb' = rb_new N"
  using clear_loop_correct [OF assms] rb_rel_bounds(5) [OF assms]
  by (auto simp: rb_clear_def rb_new_def)

lemma rb_front_correct:
  assumes "rb_rel N rb xs" "xs \<noteq> []"
  shows "rb_front rb = Some (hd xs)"
  using rb_slot [OF assms(1), of 0] rb_rel_bounds [OF assms(1)] assms(2)
  by (simp add: rb_front_def slot_at_def hd_conv_nth)

lemma rb_back_correct:
  assumes rel: "rb_rel N rb xs" and ne: "xs \<noteq> []"
  shows "rb_back N rb = Some (last xs)"
proof -
  note b = rb_rel_bounds [OF rel]
  let ?h = "head_idx rb" and ?k = "length xs - 1"
  have k: "?k < N" "?k < length xs" using b(6) ne by (cases xs, auto)+
  have h: "?h = ((tail_idx rb + ?k) + 1) mod N" using b(7) ne by (cases xs) auto
  have "(if ?h = 0 then szsub N 1 else szsub ?h 1) = (tail_idx rb + ?k) mod N"
  proof (cases "(tail_idx rb + ?k) mod N = N - 1")
    case True
    then have "?h = 0" using h b(1) by (simp add: mod_Suc)
    then show ?thesis using True b(1,2) by (simp add: szsub_small)
  next
    case False
    then have "?h = (tail_idx rb + ?k) mod N + 1" using h b(1) by (auto simp: mod_Suc)
    moreover have "?h < N" using h b(1) by simp
    ultimately show ?thesis using b(2) by (simp add: szsub_small)
  qed
  moreover have "(tail_idx rb + ?k) mod N < N" using b(1) by simp
  ultimately show ?thesis
    using rb_slot [OF rel k(1)] k(2) b(3) ne by (simp add: rb_back_def slot_at_def last_conv_nth)
qed

lemma iterate_correct:
  assumes "rb_rel N rb xs" "k \<le> length xs"
  shows "iterate N rb ((tail_idx rb + k) mod N) k = Some (drop k xs)"
  using assms(2)
proof (induction "length xs - k" arbitrary: k)
  case 0
  then show ?case using rb_rel_bounds(5) [OF assms(1)] by (simp add: iterate.simps)
next
  case (Suc d)
  note b = rb_rel_bounds [OF assms(1)]
  have k: "k < length xs" using Suc by simp
  then have slot: "slot_at ((tail_idx rb + k) mod N) rb = Some (xs ! k)"
    using rb_slot [OF assms(1), of k] b by (simp add: slot_at_def)
  have "szadd ((tail_idx rb + k) mod N) 1 mod N = (tail_idx rb + Suc k) mod N"
    using rb_succ [of "(tail_idx rb + k) mod N" N] b by (simp add: mod_Suc_eq)
  then show ?case
    using Suc.hyps(1) [of "Suc k"] Suc.hyps(2) k slot b(5)
    by (subst iterate.simps) (simp add: Cons_nth_drop_Suc)
qed

section \<open>Copies that may throw\<close>

lemma window_slot:
  assumes "length es = N" "k < N"
  shows "es ! ((t + k) mod N) = window es t N ! k" "(t + k) mod N < length es"
  using assms by (auto simp: mod_less_divisor)

lemma raw_storage:
  assumes "length es = N" "t < N" "window es t N = replicate N None"
  shows "es = replicate N None"
proof (rule nth_equalityI)
  fix i assume "i < length es"
  then have i: "i < N" using assms by simp
  then have "(t + (i + N - t) mod N) mod N = i" using assms(2) by (simp add: mod_add_right_eq)
  moreover have "(i + N - t) mod N < N" using i by simp
  ultimately show "es ! i = replicate N None ! i"
    using window_slot(1) [OF assms(1), of "(i + N - t) mod N" t] assms(3) i by simp
qed (use assms in simp)

lemma destroy_prefix_correct:
  assumes "length es = N" "window es t N = map Some zs @ replicate (N - length zs) None" "k \<le> length zs" "length zs \<le> N"
  shows "\<exists>es'. destroy_prefix N t k es = Some es' \<and> length es' = N \<and>
     window es' t N = replicate k None @ map Some (drop k zs) @ replicate (N - length zs) None"
  using assms(3)
proof (induction k)
  case 0
  then show ?case using assms by simp
next
  case (Suc k)
  then obtain es' where es': "destroy_prefix N t k es = Some es'" "length es' = N"
    "window es' t N = replicate k None @ map Some (drop k zs) @ replicate (N - length zs) None" by auto
  have k: "k < N" "k < length zs" using Suc.prems assms(4) by auto
  have "es' ! ((t + k) mod N) = Some (zs ! k)" "(t + k) mod N < length es'"
    using window_slot [OF es'(2) k(1), of t] es'(3) k(2) by (auto simp: nth_append)
  moreover have "window (es'[(t + k) mod N := None]) t N =
      replicate (Suc k) None @ map Some (drop (Suc k) zs) @ replicate (N - length zs) None"
    using window_update [of k es' t None] es'(2,3) k
    by (simp add: list_update_append Cons_nth_drop_Suc [symmetric] replicate_append_same replicate_app_Cons_same)
  ultimately show ?case using es' by (simp add: destroy_at_def)
qed

lemma copy_loop_correct:
  assumes rel: "rb_rel N rhs ys"
    and es: "length es = N" "window es (tail_idx rhs) N = map Some zs @ replicate (N - length zs) None"
    and k: "length zs = k" "k \<le> length ys"
  shows "if \<forall>i. k \<le> i \<and> i < length ys \<longrightarrow> cp i (ys ! i) \<noteq> None
     then \<exists>es'. copy_loop cp N rhs (length ys) k es = Some (True, es') \<and> length es' = N \<and>
       window es' (tail_idx rhs) N =
         map Some (zs @ map (\<lambda>i. the (cp i (ys ! i))) [k..<length ys]) @ replicate (N - length ys) None
     else copy_loop cp N rhs (length ys) k es = Some (False, replicate N None)"
  using es k
proof (induction "length ys - k" arbitrary: k es zs)
  case 0
  then show ?case by (auto simp: copy_loop.simps)
next
  case (Suc d)
  note b = rb_rel_bounds [OF rel]
  let ?t = "tail_idx rhs"
  have k: "k < length ys" "k < N" using Suc.hyps(2) b(6) by auto
  have rd: "slot_at ((?t + k) mod N) rhs = Some (ys ! k)"
    using rb_slot [OF rel k(2)] k b(1,3) by (simp add: slot_at_def)
  show ?case
  proof (cases "cp k (ys ! k)")
    case None
    obtain es' where "destroy_prefix N ?t k es = Some es'" "length es' = N"
      "window es' ?t N = replicate k None @ replicate (N - k) None"
      using destroy_prefix_correct [OF Suc.prems(1,2), of k] Suc.prems(3) k by auto
    moreover have "replicate k None @ replicate (N - k) None = (replicate N None :: 'a option list)"
      using k replicate_add [of k "N - k" "None :: 'a option"] by simp
    ultimately have "destroy_prefix N ?t k es = Some (replicate N None)"
      using raw_storage [OF _ b(4), of es'] by simp
    then have "copy_loop cp N rhs (length ys) k es = Some (False, replicate N None)"
      using None rd k by (subst copy_loop.simps) simp
    then show ?thesis using None k by auto
  next
    case (Some y)
    let ?es = "es[(?t + k) mod N := Some y]"
    have "es ! ((?t + k) mod N) = None" "(?t + k) mod N < length es"
      using window_slot [OF Suc.prems(1) k(2), of ?t] Suc.prems(2,3) k by (auto simp: nth_append)
    then have step: "copy_loop cp N rhs (length ys) k es = copy_loop cp N rhs (length ys) (Suc k) ?es"
      using Some rd k by (subst copy_loop.simps) (simp add: construct_at_def)
    obtain r where r: "N - k = Suc r" using k by (cases "N - k") auto
    have "window ?es ?t N = map Some (zs @ [y]) @ replicate (N - length (zs @ [y])) None"
      using window_update [of k es ?t "Some y"] Suc.prems k r by (simp add: list_update_append)
    note IH = Suc.hyps(1) [of "Suc k" ?es "zs @ [y]", OF _ _ this]
    have up: "[k..<length ys] = k # [Suc k..<length ys]" using k by (simp add: upt_conv_Cons)
    have all: "(\<forall>i. k \<le> i \<and> i < length ys \<longrightarrow> cp i (ys ! i) \<noteq> None) \<longleftrightarrow>
        (\<forall>i. Suc k \<le> i \<and> i < length ys \<longrightarrow> cp i (ys ! i) \<noteq> None)"
      using Some by (metis Suc_leI le_eq_less_or_eq option.distinct(1) Suc_leD)
    show ?thesis
      using IH Suc.hyps(2) Suc.prems(1,3) k Some unfolding step all up by auto
  qed
qed

section \<open>Guarantees\<close>

datatype 'a rb_op = Push 'a | Pop | Clear

fun rb_step :: "size_t \<Rightarrow> bool \<Rightarrow> 'a rb_op \<Rightarrow> 'a ring_buffer \<Rightarrow> 'a ring_buffer option" where
  "rb_step N ov (Push x) rb = push_back N ov x rb"
| "rb_step N ov Pop rb = pop_front N rb"
| "rb_step N ov Clear rb = rb_clear N rb"

fun list_step :: "size_t \<Rightarrow> bool \<Rightarrow> 'a rb_op \<Rightarrow> 'a list \<Rightarrow> 'a list" where
  "list_step N ov (Push x) xs = bounded_push N ov x xs"
| "list_step N ov Pop xs = tl xs"
| "list_step N ov Clear xs = []"

primrec rb_run :: "size_t \<Rightarrow> bool \<Rightarrow> 'a rb_op list \<Rightarrow> 'a ring_buffer \<Rightarrow> 'a ring_buffer option" where
  "rb_run N ov [] rb = Some rb"
| "rb_run N ov (x # xs) rb = do { rb' \<leftarrow> rb_step N ov x rb; rb_run N ov xs rb' }"

lemma rb_run_rel:
  assumes "rb_rel N rb xs"
  shows "\<exists>rb'. rb_run N ov ops rb = Some rb' \<and> rb_rel N rb' (fold (list_step N ov) ops xs)"
  using assms
proof (induction ops arbitrary: rb xs)
  case Nil
  then show ?case by simp
next
  case (Cons x ops)
  have "\<exists>rb'. rb_step N ov x rb = Some rb' \<and> rb_rel N rb' (list_step N ov x xs)"
    using push_back_correct [OF Cons.prems] pop_front_correct [OF Cons.prems] rb_clear_correct [OF Cons.prems]
      rb_new_rel rb_rel_bounds(1,2) [OF Cons.prems]
    by (cases x) auto
  with Cons.IH show ?case by fastforce
qed



text \<open>Copying a buffer whose element type has a throwing copy constructor: if every copy
  succeeds the target holds the copies in order; if any copy throws, every element constructed so
  far is destroyed, none twice, and the target is left empty with all its storage raw.\<close>

theorem ring_buffer_copy_safe:
  assumes "rb_rel N rhs ys" "rb_rel N rb xs"
  shows "if \<forall>i < length ys. cp i (ys ! i) \<noteq> None
     then \<exists>rb'. rb_assign cp N rhs rb = Some (True, rb') \<and>
       rb_rel N rb' (map (\<lambda>i. the (cp i (ys ! i))) [0..<length ys])
     else rb_assign cp N rhs rb = Some (False, rb_new N)"
proof -
  note b = rb_rel_bounds [OF assms(1)]
  have clear: "rb_clear N rb = Some (rb_new N)" using rb_clear_correct [OF assms(2)] by blast
  have raw: "window (replicate N None) (tail_idx rhs) N = replicate N None"
    using b(1) by (intro nth_equalityI) simp_all
  have cnt: "count_el rhs = length ys" by (rule b(5))
  note cl = copy_loop_correct [OF assms(1), of "replicate N None" "[]" 0 cp]
  show ?thesis
  proof (cases "\<forall>i < length ys. cp i (ys ! i) \<noteq> None")
    case True
    let ?zs = "map (\<lambda>i. the (cp i (ys ! i))) [0..<length ys]"
    obtain es where es: "copy_loop cp N rhs (length ys) 0 (replicate N None) = Some (True, es)" "length es = N"
      "window es (tail_idx rhs) N = map Some ?zs @ replicate (N - length ys) None"
      using cl True raw by auto
    let ?rb = "\<lparr>elements = es, head_idx = head_idx rhs, tail_idx = tail_idx rhs, count_el = count_el rhs\<rparr>"
    have "rb_rel N ?rb ?zs" using b es by (simp add: rb_rel_def)
    moreover have "rb_assign cp N rhs rb = Some (True, ?rb)"
      using es(1) by (simp add: rb_assign_def clear copy_impl_def cnt rb_new_def)
    ultimately show ?thesis using True by auto
  next
    case False
    then have no: "\<not> (\<forall>i. 0 \<le> i \<and> i < length ys \<longrightarrow> cp i (ys ! i) \<noteq> None)" by blast
    have "copy_loop cp N rhs (length ys) 0 (replicate N None) = Some (False, replicate N None)"
      using cl [unfolded if_not_P [OF no]] raw by simp
    then show ?thesis
      using False by (auto simp: rb_assign_def clear copy_impl_def cnt rb_new_def)
  qed
qed

theorem ring_buffer_copy_safe_witness:
  "rb_assign (\<lambda>i x. if i = 1 then None else Some x) 2
     \<lparr>elements = [Some 1, Some (2::nat)], head_idx = 0, tail_idx = 0, count_el = 2\<rparr> (rb_new 2) = Some (False, rb_new 2)"
proof -
  let ?rhs = "\<lparr>elements = [Some 1, Some (2::nat)], head_idx = 0, tail_idx = 0, count_el = 2\<rparr>"
  have "rb_rel 2 ?rhs [1, 2]" by (simp add: rb_rel_def window_def upt_rec)
  from ring_buffer_copy_safe [OF this rb_new_rel, of "\<lambda>i x. if i = 1 then None else Some x"]
  show ?thesis by (auto split: if_splits)
qed

end
