(* ===== verification/Actor_Id.thy ===== *)
theory Actor_Id
  imports Prelude
begin

text \<open>
  Addresses: \<open>ActorId\<close> (\<open>src/qb/core/ActorId.h\<close>, \<open>ActorId.cpp\<close>), the set of core ids
  \<open>CoreIdBitSet\<close>, and \<open>CoreSet\<close> (\<open>src/qb/core/CoreSet.cpp\<close>), which maps the logical ids of the cores
  in use to dense indices.
\<close>

unbundle bit_operations_syntax

section \<open>\<open>ActorId\<close>\<close>

text \<open>
  Two 16-bit members; the conversions to and from \<open>uint32_t\<close> are \<open>std::bit_cast\<close>s, which on the
  little-endian targets of the framework put the service id in the low half.
\<close>

type_synonym core_id = "16 word"
type_synonym service_id = "16 word"

record actor_id =
  service_id :: service_id
  core_id :: core_id

definition ActorId :: "service_id \<Rightarrow> core_id \<Rightarrow> actor_id" where
  "ActorId sid index = \<lparr>service_id = sid, core_id = index\<rparr>"

definition NotFound :: "32 word" where
  "NotFound = 0"

definition BroadcastSid :: service_id where
  "BroadcastSid = 65535"

definition actor_id_to_u32 :: "actor_id \<Rightarrow> 32 word" where
  "actor_id_to_u32 a = ucast (service_id a) OR push_bit 16 (ucast (core_id a))"

definition actor_id_of_u32 :: "32 word \<Rightarrow> actor_id" where
  "actor_id_of_u32 w = \<lparr>service_id = ucast w, core_id = ucast (drop_bit 16 w)\<rparr>"

definition is_broadcast :: "actor_id \<Rightarrow> bool" where
  "is_broadcast a \<longleftrightarrow> service_id a = BroadcastSid"

definition is_valid :: "actor_id \<Rightarrow> bool" where
  "is_valid a \<longleftrightarrow> actor_id_to_u32 a \<noteq> NotFound"

definition BroadcastId :: "32 word \<Rightarrow> actor_id" where
  "BroadcastId cid = ActorId BroadcastSid (ucast cid)"

definition actor_id_hash :: "actor_id \<Rightarrow> 64 word" where
  "actor_id_hash a = ucast (actor_id_to_u32 a)"

lemma actor_id_of_to [simp]: "actor_id_of_u32 (actor_id_to_u32 a) = a"
proof -
  have "(ucast (ucast (service_id a) OR push_bit 16 (ucast (core_id a)) :: 32 word) :: 16 word) = service_id a"
    by (rule bit_word_eqI) (auto simp: bit_simps)
  moreover have "(ucast (drop_bit 16 (ucast (service_id a) OR push_bit 16 (ucast (core_id a)) :: 32 word)) :: 16 word)
      = core_id a"
    by (rule bit_word_eqI) (auto simp: bit_simps dest: bit_imp_le_length)
  ultimately show ?thesis
    by (simp add: actor_id_of_u32_def actor_id_to_u32_def)
qed

lemma actor_id_to_of [simp]: "actor_id_to_u32 (actor_id_of_u32 w) = w"
  by (rule bit_word_eqI) (auto simp: actor_id_of_u32_def actor_id_to_u32_def bit_simps)

lemma actor_id_to_inj: "actor_id_to_u32 a = actor_id_to_u32 b \<longleftrightarrow> a = b"
  by (metis actor_id_of_to)

lemma ucast_32_64: "(ucast (ucast (u :: 32 word) :: 64 word) :: 32 word) = u"
  by (rule bit_word_eqI) (auto simp: bit_simps)

lemma is_valid_iff: "is_valid a \<longleftrightarrow> service_id a \<noteq> 0 \<or> core_id a \<noteq> 0"
proof -
  have "actor_id_to_u32 a = actor_id_to_u32 \<lparr>service_id = 0, core_id = 0\<rparr> \<longleftrightarrow> service_id a = 0 \<and> core_id a = 0"
    by (auto simp: actor_id_to_inj)
  then show ?thesis by (simp add: is_valid_def NotFound_def actor_id_to_u32_def)
qed

text \<open>C37. An actor id survives its trip through \<open>uint32_t\<close> in both directions, so the integer form (and the
  hash built from it) identifies it: distinct actors have distinct integers, the only invalid id is the
  all-zero one, and a broadcast id keeps the core it names.\<close>

theorem actor_id_u32_bijection:
  "actor_id_of_u32 (actor_id_to_u32 a) = a \<and> actor_id_to_u32 (actor_id_of_u32 w) = w \<and>
   (actor_id_hash a = actor_id_hash b \<longleftrightarrow> a = b) \<and>
   (\<not> is_valid a \<longleftrightarrow> a = ActorId 0 0) \<and>
   is_broadcast (BroadcastId c) \<and> core_id (BroadcastId c) = ucast c \<and> is_valid (BroadcastId c)"
proof -
  have "actor_id_hash a = actor_id_hash b \<longleftrightarrow> actor_id_to_u32 a = actor_id_to_u32 b"
    unfolding actor_id_hash_def by (metis ucast_32_64)
  then show ?thesis
    by (auto simp: actor_id_to_inj is_valid_iff ActorId_def BroadcastId_def is_broadcast_def BroadcastSid_def
        intro: actor_id.equality)
qed

section \<open>\<open>CoreIdBitSet\<close>\<close>

abbreviation MaxCores :: nat where
  "MaxCores \<equiv> 256"

type_synonym core_bits = "256 word"

definition core_contains :: "core_id \<Rightarrow> core_bits \<Rightarrow> bool" where
  "core_contains cid s \<longleftrightarrow> unat cid < MaxCores \<and> bit s (unat cid)"

definition core_insert :: "core_id \<Rightarrow> core_bits \<Rightarrow> core_bits" where
  "core_insert cid s = (if unat cid < MaxCores then set_bit (unat cid) s else s)"

definition core_remove :: "core_id \<Rightarrow> core_bits \<Rightarrow> core_bits" where
  "core_remove cid s = (if unat cid < MaxCores then unset_bit (unat cid) s else s)"

definition core_of_list :: "core_id list \<Rightarrow> core_bits" where
  "core_of_list ids = fold (\<lambda>cid s. if cid < 256 then set_bit (unat cid) s else s) ids 0"

definition core_clear :: "core_bits \<Rightarrow> core_bits" where
  "core_clear s = 0"

definition core_empty :: "core_bits \<Rightarrow> bool" where
  "core_empty s \<longleftrightarrow> s = 0"

definition core_size :: "core_bits \<Rightarrow> size_t" where
  "core_size s = length (filter (bit s) [0..<MaxCores])"

definition to_vector :: "core_bits \<Rightarrow> core_id list" where
  "to_vector s = map word_of_nat (filter (bit s) [0..<MaxCores])"

text \<open>The iterator: \<open>advance\<close> moves to the next set bit, \<open>core_iter\<close> runs from a position to \<open>end()\<close>.\<close>

function advance :: "core_bits \<Rightarrow> size_t \<Rightarrow> size_t" where
  "advance s pos = (if pos < MaxCores \<and> \<not> bit s pos then advance s (pos + 1) else pos)"
  by pat_completeness auto
termination by (relation "measure (\<lambda>(s, pos). MaxCores - pos)") auto

declare advance.simps [simp del]

lemma advance_ge: "pos \<le> advance s pos"
proof (induction s pos rule: advance.induct)
  case (1 s pos)
  show ?case
  proof (cases "pos < MaxCores \<and> \<not> bit s pos")
    case True
    then show ?thesis using 1 by (subst advance.simps) simp
  next
    case False
    then show ?thesis by (subst advance.simps) auto
  qed
qed

function core_iter :: "core_bits \<Rightarrow> size_t \<Rightarrow> core_id list" where
  "core_iter s pos = (if pos < MaxCores then word_of_nat pos # core_iter s (advance s (pos + 1)) else [])"
  by pat_completeness auto
termination
proof (relation "measure (\<lambda>(s, pos). MaxCores - pos)", goal_cases)
  case (2 s pos)
  then show ?case using advance_ge [of "pos + 1" s] by simp
qed simp

declare core_iter.simps [simp del]

definition core_begin :: "core_bits \<Rightarrow> size_t" where
  "core_begin s = advance s 0"

lemma core_bit_set:
  "unat cid < MaxCores \<Longrightarrow> bit (set_bit (unat cid) (s :: core_bits)) i \<longleftrightarrow> bit s i \<or> i = unat cid"
  "unat cid < MaxCores \<Longrightarrow> bit (unset_bit (unat cid) (s :: core_bits)) i \<longleftrightarrow> bit s i \<and> i \<noteq> unat cid"
  by (auto simp: bit_simps)

lemma core_insert_bit: "bit (core_insert cid s) i \<longleftrightarrow> bit s i \<or> i = unat cid \<and> i < MaxCores"
  by (auto simp: core_insert_def core_bit_set)

lemma advance_filter:
  "pos \<le> MaxCores \<Longrightarrow>
     filter (bit s) [pos..<MaxCores] =
       (if advance s pos < MaxCores then advance s pos # filter (bit s) [Suc (advance s pos)..<MaxCores] else [])"
proof (induction s pos rule: advance.induct)
  case (1 s pos)
  show ?case
  proof (cases "pos < MaxCores")
    case True
    then have up: "[pos..<MaxCores] = pos # [Suc pos..<MaxCores]" by (rule upt_conv_Cons)
    show ?thesis
    proof (cases "bit s pos")
      case b: True
      then have "advance s pos = pos" by (simp add: advance.simps)
      then show ?thesis using b True up by simp
    next
      case False
      then have "advance s pos = advance s (pos + 1)" using True by (subst advance.simps) simp
      then show ?thesis using 1 False True up by simp
    qed
  next
    case False
    then have "pos = MaxCores" using 1 by simp
    then show ?thesis by (simp add: advance.simps)
  qed
qed

lemma core_iter_filter:
  "pos \<le> MaxCores \<Longrightarrow>
     core_iter s (advance s pos) = map word_of_nat (filter (bit s) [pos..<MaxCores])"
proof (induction "MaxCores - pos" arbitrary: pos rule: less_induct)
  case less
  let ?a = "advance s pos"
  show ?case
  proof (cases "?a < MaxCores")
    case True
    have "core_iter s ?a = word_of_nat ?a # core_iter s (advance s (Suc ?a))"
      using True by (subst core_iter.simps) simp
    moreover have "core_iter s (advance s (Suc ?a)) = map word_of_nat (filter (bit s) [Suc ?a..<MaxCores])"
      using less.hyps [of "Suc ?a"] True advance_ge [of pos s] by simp
    ultimately show ?thesis using advance_filter [OF less.prems, of s] True by simp
  next
    case False
    then show ?thesis using advance_filter [OF less.prems, of s] by (subst core_iter.simps) simp
  qed
qed

lemma core_iter_to_vector: "core_iter s (core_begin s) = to_vector s"
  by (simp add: core_begin_def core_iter_filter to_vector_def)

lemma core_of_list_contains: "core_contains cid (core_of_list ids) \<longleftrightarrow> unat cid < MaxCores \<and> cid \<in> set ids"
proof -
  have "bit (fold (\<lambda>cid s. if cid < 256 then set_bit (unat cid) s else s) ids s) (unat cid) \<longleftrightarrow>
      bit s (unat cid) \<or> cid \<in> set ids" if "unat cid < MaxCores" for s :: core_bits
    using that
    by (induction ids arbitrary: s) (auto simp: core_bit_set word_less_nat_alt simp flip: word_unat_eq_iff)
  then show ?thesis by (auto simp: core_contains_def core_of_list_def)
qed

section \<open>\<open>CoreSet\<close>\<close>

record core_set =
  raw_set :: core_bits
  nb_core :: size_t
  cs_size :: size_t
  cs_table :: "8 word list"

text \<open>
  \<open>max_core_loop\<close> is the descending search of the constructor's lambda, \<open>fill_table\<close> its loop over
  the set; the running index is the constructor's \<open>uint8_t\<close>.
\<close>

fun max_core_loop :: "core_bits \<Rightarrow> nat \<Rightarrow> size_t" where
  "max_core_loop s 0 = 0"
| "max_core_loop s (Suc i) = (if core_contains (word_of_nat i) s then i + 1 else max_core_loop s i)"

fun fill_table :: "core_id list \<Rightarrow> 8 word \<Rightarrow> 8 word list \<Rightarrow> 8 word list" where
  "fill_table [] idx t = t"
| "fill_table (cid # ids) idx t = fill_table ids (idx + 1) (t[unat cid := idx])"

definition CoreSet :: "core_bits \<Rightarrow> core_set" where
  "CoreSet s =
     \<lparr>raw_set = s, nb_core = core_size s, cs_size = max_core_loop s MaxCores,
      cs_table = fill_table (core_iter s (core_begin s)) 0 (replicate MaxCores 0)\<rparr>"

definition resolve :: "core_set \<Rightarrow> size_t \<Rightarrow> core_id" where
  "resolve cs cid = (if cid < MaxCores then ucast (cs_table cs ! cid) else 0)"

definition getSize :: "core_set \<Rightarrow> size_t" where
  "getSize cs = cs_size cs"

definition getNbCore :: "core_set \<Rightarrow> size_t" where
  "getNbCore cs = nb_core cs"

definition core_set_build :: "32 word \<Rightarrow> core_set" where
  "core_set_build n =
     (let bound = min (unat n) 65536
      in CoreSet (fold (\<lambda>i. core_insert (word_of_nat i)) [0..<bound] 0))"

abbreviation core_members :: "core_bits \<Rightarrow> nat list" where
  "core_members s \<equiv> filter (bit s) [0..<MaxCores]"

lemma core_members_bounds:
  shows "k < length (core_members s) \<Longrightarrow> core_members s ! k < MaxCores"
    and "distinct (core_members s)" "length (core_members s) \<le> MaxCores"
proof -
  show "distinct (core_members s)" by simp
  show "length (core_members s) \<le> MaxCores" using length_filter_le [of "bit s" "[0..<MaxCores]"] by simp
  assume "k < length (core_members s)"
  then have "core_members s ! k \<in> set (core_members s)" by (rule nth_mem)
  then show "core_members s ! k < MaxCores" by simp
qed

lemma fill_table_nth:
  assumes "\<forall>x \<in> set xs. x < length t" "distinct xs" "\<forall>x \<in> set xs. x < 2 ^ 16" "j < length t"
  shows "fill_table (map word_of_nat xs) idx t ! j =
     (if j \<in> set xs then idx + word_of_nat (length (takeWhile (\<lambda>x. x \<noteq> j) xs)) else t ! j)"
  using assms
proof (induction xs arbitrary: idx t)
  case Nil
  then show ?case by simp
next
  case (Cons x xs)
  then have "unat (word_of_nat x :: core_id) = x" by (simp add: unat_of_nat)
  then show ?case
    using Cons.IH [of "t[x := idx]" "idx + 1"] Cons.prems by (auto simp: ac_simps)
qed

lemma length_takeWhile_nth:
  "distinct xs \<Longrightarrow> k < length xs \<Longrightarrow> length (takeWhile (\<lambda>x. x \<noteq> xs ! k) xs) = k"
  by (induction xs arbitrary: k) (auto simp: nth_Cons split: nat.splits)

lemma resolve_nth:
  assumes "k < length (core_members s)"
  shows "unat (resolve (CoreSet s) (core_members s ! k)) = k"
proof -
  let ?xs = "core_members s"
  note b = core_members_bounds(1) [OF assms] core_members_bounds(2,3) [of s]
  have tw: "length (takeWhile (\<lambda>x. x \<noteq> ?xs ! k) ?xs) = k"
    using assms b(2) by (intro length_takeWhile_nth)
  have "bit s (?xs ! k)" using nth_mem [OF assms] by simp
  then have "cs_table (CoreSet s) ! (?xs ! k) = word_of_nat k"
    using fill_table_nth [of ?xs "replicate MaxCores 0" "?xs ! k" 0] b assms tw
    by (auto simp: CoreSet_def core_iter_to_vector to_vector_def)
  moreover have "k < 256" using assms b(3) by simp
  ultimately show ?thesis
    using b(1) by (simp add: resolve_def unsigned_ucast_eq take_bit_nat_def unat_of_nat)
qed

lemma resolve_non_member:
  assumes "cid \<ge> MaxCores \<or> \<not> bit s cid"
  shows "resolve (CoreSet s) cid = 0"
proof (cases "cid < MaxCores")
  case True
  then show ?thesis
    using fill_table_nth [of "core_members s" "replicate MaxCores 0" cid 0] assms
    by (auto simp: resolve_def CoreSet_def core_iter_to_vector to_vector_def)
qed (simp add: resolve_def)

lemma max_core_loop_correct:
  "n \<le> MaxCores \<Longrightarrow> max_core_loop s n = (if \<exists>i < n. bit s i then Suc (Max {i. i < n \<and> bit s i}) else 0)"
proof (induction n)
  case 0
  then show ?case by simp
next
  case (Suc n)
  have c: "core_contains (word_of_nat n) s \<longleftrightarrow> bit s n"
    using Suc.prems by (simp add: core_contains_def unat_of_nat)
  show ?case
  proof (cases "bit s n")
    case True
    then have "Max {i. i < Suc n \<and> bit s i} = n"
      by (intro Max_eqI) (auto intro: finite_subset [of _ "{..<Suc n}"])
    then show ?thesis using True c by auto
  next
    case False
    then have "{i. i < Suc n \<and> bit s i} = {i. i < n \<and> bit s i}" by (auto simp: less_Suc_eq)
    moreover have "(\<exists>i < Suc n. bit s i) \<longleftrightarrow> (\<exists>i < n. bit s i)" using False by (auto simp: less_Suc_eq)
    ultimately show ?thesis using False c Suc by simp
  qed
qed

lemma core_members_image:
  "{cid. cid < MaxCores \<and> bit s cid} = (!) (core_members s) ` {..<length (core_members s)}"
proof -
  have "{cid. cid < MaxCores \<and> bit s cid} = set (core_members s)" by auto
  then show ?thesis unfolding set_conv_nth by blast
qed

lemma core_set_dense_bij:
  "bij_betw (\<lambda>cid. unat (resolve (CoreSet s) cid)) {cid. cid < MaxCores \<and> bit s cid} {..<getNbCore (CoreSet s)}"
proof -
  let ?r = "\<lambda>cid. unat (resolve (CoreSet s) cid)" and ?xs = "core_members s"
  have nb: "getNbCore (CoreSet s) = length ?xs" by (simp add: getNbCore_def CoreSet_def core_size_def)
  have id: "?r (?xs ! k) = k" if "k < length ?xs" for k using resolve_nth [OF that] .
  show ?thesis unfolding core_members_image nb
  proof (rule bij_betw_imageI)
    show "inj_on ?r ((!) ?xs ` {..<length ?xs})" by (rule inj_onI) (auto simp: id)
    show "?r ` (!) ?xs ` {..<length ?xs} = {..<length ?xs}" by (force simp: image_image id)
  qed
qed

text \<open>C34. The dense index of a core set: \<open>resolve\<close> maps the member ids one to one onto
  \<open>0, \<dots>, getNbCore() - 1\<close> in increasing order, also when all 256 ids are used and the
  constructor's 8-bit counter wraps. Every id that is no member, in range or not, resolves to 0, which
  is the index of the smallest member.\<close>

theorem core_set_resolve_dense:
  "bij_betw (\<lambda>cid. unat (resolve (CoreSet s) cid)) {cid. cid < MaxCores \<and> bit s cid}
     {..<getNbCore (CoreSet s)} \<and>
   (\<forall>a b. a < b \<and> b < MaxCores \<and> bit s a \<and> bit s b \<longrightarrow>
      unat (resolve (CoreSet s) a) < unat (resolve (CoreSet s) b)) \<and>
   (\<forall>cid. \<not> (cid < MaxCores \<and> bit s cid) \<longrightarrow> resolve (CoreSet s) cid = 0)"
proof (intro conjI allI impI)
  let ?r = "\<lambda>cid. unat (resolve (CoreSet s) cid)" and ?xs = "core_members s"
  note mem = core_members_image [of s]
  have id: "?r (?xs ! k) = k" if "k < length ?xs" for k using resolve_nth [OF that] .
  show "bij_betw ?r {cid. cid < MaxCores \<and> bit s cid} {..<getNbCore (CoreSet s)}" by (rule core_set_dense_bij)
  fix a b assume ab: "a < b \<and> b < MaxCores \<and> bit s a \<and> bit s b"
  then have "a \<in> {cid. cid < MaxCores \<and> bit s cid}" "b \<in> {cid. cid < MaxCores \<and> bit s cid}" by auto
  then obtain i j where ij: "i < length ?xs" "j < length ?xs" "a = ?xs ! i" "b = ?xs ! j"
    unfolding mem by blast
  have "sorted ?xs" by (intro sorted_filter [where f = id, simplified] sorted_upt)
  then have "i < j" using ab ij by (metis leD not_le_imp_less sorted_nth_mono)
  then show "?r a < ?r b" using ij id by simp
next
  fix cid assume "\<not> (cid < MaxCores \<and> bit s cid)"
  then show "resolve (CoreSet s) cid = 0" by (intro resolve_non_member) auto
qed

theorem core_set_resolve_dense_witness:
  "unat (resolve (CoreSet 5) 0) < unat (resolve (CoreSet 5) 2) \<and> resolve (CoreSet 5) 300 = 0"
  using core_set_resolve_dense [of "5"] by (simp add: bit_simps)

lemma core_set_build_members: "bit (raw_set (core_set_build n)) j \<longleftrightarrow> j < min (unat n) MaxCores"
proof -
  have "bit (fold (\<lambda>i. core_insert (word_of_nat i)) [0..<b] 0) j \<longleftrightarrow> j < min b MaxCores" if "b \<le> 65536" for b
    using that
  proof (induction b)
    case (Suc b)
    then have "unat (word_of_nat b :: core_id) = b" by (simp add: unat_of_nat)
    then show ?case
      using Suc by (auto simp: core_insert_bit less_Suc_eq)
  qed simp
  from this [of "min (unat n) 65536"] show ?thesis by (auto simp: core_set_build_def CoreSet_def Let_def)
qed

end
