(* ===== verification/Service_Id_Pool.thy ===== *)
theory Service_Id_Pool
  imports Actor_Id
begin

text \<open>
  \<open>VirtualCore::ServiceIdPool\<close> (\<open>src/qb/core/VirtualCore.h\<close>): the free service ids of a core as 1024
  words of 64 bits with a scan cursor and a cached population count. The interface the core uses it
  through is the locale \<open>id_pool\<close>, interpreted on the code's operations.
\<close>

unbundle bit_operations_syntax

section \<open>The pool\<close>

abbreviation kBits :: nat where "kBits \<equiv> 65535"
abbreviation kWords :: nat where "kWords \<equiv> 1024"

record service_id_pool =
  bits :: "64 word list"
  next_word :: size_t
  pool_count :: size_t

definition countr_zero :: "64 word \<Rightarrow> size_t" where
  "countr_zero w = length (takeWhile (\<lambda>i. \<not> bit w i) [0..<64])"

definition set_free :: "64 word list \<Rightarrow> size_t \<Rightarrow> 64 word list" where
  "set_free bs sid = bs[sid div 64 := bs ! (sid div 64) OR push_bit (sid mod 64) 1]"

definition pool_init :: "service_id \<Rightarrow> service_id_pool" where
  "pool_init min_sid =
     (let sids = [unat min_sid..<kBits];
          (bs, c) = fold (\<lambda>sid (bs, c). (set_free bs sid, szadd c 1)) sids (replicate kWords 0, 0)
      in \<lparr>bits = bs, next_word = unat min_sid div 64, pool_count = c\<rparr>)"

function acquire_scan :: "service_id_pool \<Rightarrow> size_t \<Rightarrow> service_id \<times> service_id_pool" where
  "acquire_scan p w =
     (if w < kWords
      then let word = bits p ! w
           in if word \<noteq> 0
              then (word_of_nat (w * 64 + countr_zero word),
                    p\<lparr>bits := (bits p)[w := word AND (word - 1)], next_word := w,
                      pool_count := szsub (pool_count p) 1\<rparr>)
              else acquire_scan p (w + 1)
      else (BroadcastSid, p))"
  by pat_completeness auto
termination by (relation "measure (\<lambda>(p, w). kWords - w)") auto

declare acquire_scan.simps [simp del]

definition pool_acquire :: "service_id_pool \<Rightarrow> service_id \<times> service_id_pool" where
  "pool_acquire p = (if pool_count p = 0 then (BroadcastSid, p) else acquire_scan p (next_word p))"

definition pool_release :: "service_id \<Rightarrow> service_id_pool \<Rightarrow> service_id_pool" where
  "pool_release sid p =
     (if unat sid \<ge> kBits then p
      else let w = unat sid div 64; m = push_bit (unat sid mod 64) 1
           in if bits p ! w AND m = 0
              then p\<lparr>bits := (bits p)[w := bits p ! w OR m], pool_count := szadd (pool_count p) 1,
                     next_word := if w < next_word p then w else next_word p\<rparr>
              else p)"

definition pool_empty :: "service_id_pool \<Rightarrow> bool" where
  "pool_empty p \<longleftrightarrow> pool_count p = 0"

definition pool_size :: "service_id_pool \<Rightarrow> size_t" where
  "pool_size p = pool_count p"

section \<open>Bit tricks\<close>

lemma bit_and_pred_nat:
  fixes n :: nat
  assumes "0 < n"
  shows "\<exists>k. bit n k \<and> (\<forall>i < k. \<not> bit n i) \<and> (\<forall>i. bit (n AND (n - 1)) i \<longleftrightarrow> bit n i \<and> i \<noteq> k)"
  using assms
proof (induction n rule: less_induct)
  case (less n)
  show ?case
  proof (cases "odd n")
    case True
    then obtain m where n: "n = 2 * m + 1" by (elim oddE)
    then have "n AND (n - 1) = 2 * m" by (simp add: and_nat_rec [of "Suc (2 * m)"])
    moreover have "bit n i \<longleftrightarrow> (case i of 0 \<Rightarrow> True | Suc j \<Rightarrow> bit m j)"
      "bit (2 * m) i \<longleftrightarrow> (case i of 0 \<Rightarrow> False | Suc j \<Rightarrow> bit m j)" for i
      by (auto simp: n bit_0 bit_Suc bit_double_iff split: nat.splits)
    ultimately show ?thesis by (intro exI [of _ 0]) (auto split: nat.splits)
  next
    case False
    then obtain m where n: "n = 2 * m" by auto
    then have m: "m < n" "0 < m" using less.prems by auto
    from less.IH [OF this] obtain k where k: "bit m k" "\<forall>i < k. \<not> bit m i"
      "\<forall>i. bit (m AND (m - 1)) i \<longleftrightarrow> bit m i \<and> i \<noteq> k" by blast
    have half: "(2 * m - Suc 0) div 2 = m - Suc 0" using m by (cases m) auto
    have "n AND (n - 1) = 2 * (m AND (m - 1))"
      using n half by (simp add: and_nat_rec [of "2 * m"])
    moreover have "bit (2 * x) i \<longleftrightarrow> (case i of 0 \<Rightarrow> False | Suc j \<Rightarrow> bit x j)" for i and x :: nat
      by (auto simp: bit_0 bit_Suc split: nat.splits)
    ultimately show ?thesis
      using k unfolding n by (intro exI [of _ "Suc k"]) (auto split: nat.splits simp: less_Suc_eq_0_disj)
  qed
qed

lemma bit_and_pred_word:
  fixes w :: "64 word"
  assumes "w \<noteq> 0"
  shows "bit w (countr_zero w)" "i < countr_zero w \<Longrightarrow> \<not> bit w i" "countr_zero w < 64"
    "bit (w AND (w - 1)) i \<longleftrightarrow> bit w i \<and> i \<noteq> countr_zero w"
proof -
  have pos: "0 < unat w" using assms by (simp add: unat_gt_0)
  obtain k where k: "bit (unat w) k" "\<forall>i < k. \<not> bit (unat w) i"
    "\<forall>i. bit (unat w AND (unat w - 1)) i \<longleftrightarrow> bit (unat w) i \<and> i \<noteq> k"
    using bit_and_pred_nat [OF pos] by blast
  have bw: "bit (unat w) i \<longleftrightarrow> bit w i" for i by (simp add: bit_unsigned_iff)
  have k64: "k < 64" using k(1) bw bit_imp_le_length [of w k] by simp
  have "takeWhile (\<lambda>i. \<not> bit w i) [0..<64] = [0..<k]"
  proof -
    have "[0..<64] = [0..<k] @ k # [Suc k..<64]"
      using k64 by (metis le_add1 plus_nat.add_0 upt_add_eq_append upt_conv_Cons le_add_diff_inverse less_imp_le)
    moreover have "takeWhile (\<lambda>i. \<not> bit w i) ([0..<k] @ k # [Suc k..<64]) = [0..<k]"
      using k(1,2) bw by (subst takeWhile_append2) auto
    ultimately show ?thesis by simp
  qed
  then have cz: "countr_zero w = k" by (simp add: countr_zero_def)
  show "bit w (countr_zero w)" "i < countr_zero w \<Longrightarrow> \<not> bit w i" "countr_zero w < 64"
    using k bw k64 cz by auto
  have "unat (w - 1) = unat w - 1" using assms by (metis unat_minus_one)
  then have "bit (w AND (w - 1)) i \<longleftrightarrow> bit (unat w AND (unat w - 1)) i"
    by (metis bit_and_iff bit_unsigned_iff bw)
  then show "bit (w AND (w - 1)) i \<longleftrightarrow> bit w i \<and> i \<noteq> countr_zero w"
    using k(3) bw cz by simp
qed

section \<open>The pool as a set\<close>

definition free_ids :: "64 word list \<Rightarrow> nat set" where
  "free_ids bs = {sid. sid < kWords * 64 \<and> bit (bs ! (sid div 64)) (sid mod 64)}"

definition pool_inv :: "service_id_pool \<Rightarrow> bool" where
  "pool_inv p \<longleftrightarrow> length (bits p) = kWords \<and> free_ids (bits p) \<subseteq> {..<kBits} \<and>
     pool_count p = card (free_ids (bits p)) \<and> next_word p < kWords \<and> (\<forall>w < next_word p. bits p ! w = 0)"

lemma free_ids_finite [simp]: "finite (free_ids bs)"
  by (rule finite_subset [of _ "{..<kWords * 64}"]) (auto simp: free_ids_def)

lemma free_ids_update:
  assumes "length bs = kWords" "w < kWords"
  shows "free_ids (bs[w := x]) = (free_ids bs - {sid. sid div 64 = w}) \<union> {sid. sid div 64 = w \<and> bit x (sid mod 64)}"
  using assms by (auto simp: free_ids_def nth_list_update split: if_splits)

lemma sid_split: "k < 64 \<Longrightarrow> sid div 64 = w \<and> sid mod 64 = k \<longleftrightarrow> sid = w * 64 + (k::nat)"
  by auto

lemma free_ids_clear:
  assumes "length bs = kWords" "w < kWords" "k < 64" "\<And>i. bit x i \<longleftrightarrow> bit (bs ! w) i \<and> i \<noteq> k"
  shows "free_ids (bs[w := x]) = free_ids bs - {w * 64 + k}"
  unfolding free_ids_update [OF assms(1,2)] using assms sid_split [OF assms(3)] by (auto simp: free_ids_def)

lemma free_ids_set:
  assumes "length bs = kWords" "w < kWords" "k < 64" "\<And>i. bit x i \<longleftrightarrow> bit (bs ! w) i \<or> i = k"
  shows "free_ids (bs[w := x]) = insert (w * 64 + k) (free_ids bs)"
  unfolding free_ids_update [OF assms(1,2)] using assms sid_split [OF assms(3)] by (auto simp: free_ids_def)

lemma bit_or_push: "k < 64 \<Longrightarrow> bit ((x :: 64 word) OR push_bit k 1) i \<longleftrightarrow> bit x i \<or> i = k"
  by (auto simp: bit_simps)

lemma and_push_zero: "k < 64 \<Longrightarrow> (x :: 64 word) AND push_bit k 1 = 0 \<longleftrightarrow> \<not> bit x k"
proof
  assume k: "k < 64" and "x AND push_bit k 1 = 0"
  then have "\<not> bit (x AND push_bit k 1) k" by simp
  then show "\<not> bit x k" using k by (simp add: bit_simps)
next
  assume "k < 64" "\<not> bit x k"
  then show "x AND push_bit k 1 = 0" by (intro bit_word_eqI) (auto simp: bit_simps)
qed

lemma set_free_ids:
  assumes "length bs = kWords" "sid < kBits"
  shows "free_ids (set_free bs sid) = insert sid (free_ids bs)" "length (set_free bs sid) = kWords"
  using assms free_ids_set [of bs "sid div 64" "sid mod 64"] bit_or_push [of "sid mod 64" "bs ! (sid div 64)"]
  by (auto simp: set_free_def)

lemma pool_init_fold:
  assumes "length bs = kWords" "finite (free_ids bs)" "c + length sids < size_mod" "distinct sids"
    "set sids \<inter> free_ids bs = {}" "set sids \<subseteq> {..<kBits}"
  shows "\<exists>bs'. fold (\<lambda>sid (bs, c). (set_free bs sid, szadd c 1)) sids (bs, c) = (bs', c + length sids) \<and>
     length bs' = kWords \<and> free_ids bs' = free_ids bs \<union> set sids"
  using assms
proof (induction sids arbitrary: bs c)
  case Nil
  then show ?case by simp
next
  case (Cons x xs)
  then have x: "x < kBits" by simp
  note sf = set_free_ids [OF Cons.prems(1) x]
  have "szadd c 1 = c + 1" using Cons.prems(3) by (intro szadd_small) simp
  then show ?case using Cons.IH [of "set_free bs x" "c + 1"] Cons.prems sf by auto
qed

lemma unat16: "unat (m :: 16 word) < 65536"
  using unsigned_less [of m] by simp

lemma pool_init_correct: "pool_inv (pool_init m) \<and> free_ids (bits (pool_init m)) = {unat m..<kBits}"
proof -
  have raw: "free_ids (replicate kWords 0) = {}" by (auto simp: free_ids_def)
  obtain bs where bs: "fold (\<lambda>sid (bs, c). (set_free bs sid, szadd c 1)) [unat m..<kBits] (replicate kWords 0, 0) =
      (bs, kBits - unat m)" "length bs = kWords" "free_ids bs = {unat m..<kBits}"
  proof -
    have "kBits - unat m < size_mod" "{unat m..<kBits} \<subseteq> {..<kBits}" by (linarith, auto)
    then show thesis
      using that pool_init_fold [of "replicate kWords 0" 0 "[unat m..<kBits]"] raw by auto
  qed
  have "bs ! w = 0" if w: "w < unat m div 64" for w
  proof (rule bit_word_eqI)
    fix i :: nat assume "i < LENGTH(64)"
    then have "w * 64 + i \<notin> free_ids bs" "w * 64 + i < kWords * 64" "(w * 64 + i) div 64 = w" "(w * 64 + i) mod 64 = i"
      using bs(3) w unat16 [of m] by auto
    then show "bit (bs ! w) i = bit 0 i" by (simp add: free_ids_def)
  qed
  moreover have "unat m div 64 < kWords" using unat16 [of m] by simp
  ultimately show ?thesis using bs by (auto simp: pool_init_def pool_inv_def)
qed

lemma acquire_scan_correct:
  assumes len: "length (bits p) = kWords" and below: "\<forall>v < w. bits p ! v = 0"
    and ne: "free_ids (bits p) \<noteq> {}" and w: "w \<le> kWords"
  shows "\<exists>bs v. acquire_scan p w = (word_of_nat (Min (free_ids (bits p))),
       p\<lparr>bits := bs, next_word := v, pool_count := szsub (pool_count p) 1\<rparr>) \<and>
     length bs = kWords \<and> free_ids bs = free_ids (bits p) - {Min (free_ids (bits p))} \<and>
     v < kWords \<and> (\<forall>u < v. bs ! u = 0)"
  using below w
proof (induction "kWords - w" arbitrary: w)
  case 0
  then have "free_ids (bits p) = {}" by (auto simp: free_ids_def)
  then show ?case using ne by simp
next
  case (Suc d)
  then have wk: "w < kWords" by simp
  show ?case
  proof (cases "bits p ! w = 0")
    case True
    then have "\<forall>v < Suc w. bits p ! v = 0" using Suc.prems(1) by (simp add: less_Suc_eq)
    from Suc.hyps(1) [OF _ this] Suc.hyps(2) wk True show ?thesis
      by (subst acquire_scan.simps) (simp add: Let_def)
  next
    case False
    let ?x = "bits p ! w" and ?F = "free_ids (bits p)"
    note b = bit_and_pred_word [OF False]
    let ?sid = "w * 64 + countr_zero ?x"
    have mem: "?sid \<in> ?F" using wk b(1,3) by (simp add: free_ids_def)
    have least: "?sid \<le> y" if y: "y \<in> ?F" for y
    proof (rule ccontr)
      assume "\<not> ?sid \<le> y"
      then have lt: "y < w * 64 + countr_zero ?x" by simp
      then have "y < (w + 1) * 64" using b(3) by simp
      then have "y div 64 < w + 1" by (rule less_mult_imp_div_less)
      moreover have "y mod 64 < countr_zero ?x" if "y div 64 = w"
        using lt that div_mult_mod_eq [of y 64] by simp
      ultimately consider "y div 64 < w" | "y div 64 = w" "y mod 64 < countr_zero ?x" by linarith
      then show False
        using y b(2) Suc.prems(1) by cases (auto simp: free_ids_def)
    qed
    have min: "Min ?F = ?sid" using mem least by (intro Min_eqI) auto
    have "free_ids ((bits p)[w := ?x AND (?x - 1)]) = ?F - {?sid}"
      using b(3,4) wk by (intro free_ids_clear [OF len]) auto
    moreover have "acquire_scan p w = (word_of_nat ?sid, p\<lparr>bits := (bits p)[w := ?x AND (?x - 1)],
        next_word := w, pool_count := szsub (pool_count p) 1\<rparr>)"
      using wk False by (subst acquire_scan.simps) (simp add: Let_def)
    ultimately show ?thesis
      using len wk Suc.prems(1) unfolding min
      by (intro exI [of _ "(bits p)[w := ?x AND (?x - 1)]"] exI [of _ w]) simp
  qed
qed

lemma pool_acquire_correct:
  assumes inv: "pool_inv p"
  shows "if free_ids (bits p) = {} then pool_acquire p = (BroadcastSid, p)
     else \<exists>p'. pool_acquire p = (word_of_nat (Min (free_ids (bits p))), p') \<and> pool_inv p' \<and>
       free_ids (bits p') = free_ids (bits p) - {Min (free_ids (bits p))}"
proof (cases "free_ids (bits p) = {}")
  case True
  then show ?thesis using inv by (simp add: pool_inv_def pool_acquire_def)
next
  case False
  let ?F = "free_ids (bits p)"
  have len: "length (bits p) = kWords" and below: "\<forall>v < next_word p. bits p ! v = 0"
    and w: "next_word p \<le> kWords" and sub: "?F \<subseteq> {..<kBits}" and cnt: "pool_count p = card ?F"
    using inv by (auto simp: pool_inv_def)
  obtain bs v where a: "acquire_scan p (next_word p) = (word_of_nat (Min ?F),
       p\<lparr>bits := bs, next_word := v, pool_count := szsub (pool_count p) 1\<rparr>)"
    and bs: "length bs = kWords" "free_ids bs = ?F - {Min ?F}" "v < kWords" "\<forall>u < v. bs ! u = 0"
    using acquire_scan_correct [OF len below False w] by blast
  have pos: "0 < card ?F" using False by (simp add: card_gt_0_iff)
  have "card ?F \<le> kBits" using card_mono [OF _ sub] by simp
  then have "szsub (pool_count p) 1 = card ?F - 1" using cnt pos by (simp add: szsub_small)
  moreover have "card (?F - {Min ?F}) = card ?F - 1" using False by simp
  ultimately have "pool_inv (p\<lparr>bits := bs, next_word := v, pool_count := szsub (pool_count p) 1\<rparr>)"
    using bs sub by (auto simp: pool_inv_def)
  then show ?thesis using False a bs cnt pos by (simp add: pool_acquire_def)
qed

lemma pool_release_correct:
  assumes inv: "pool_inv p"
  shows "pool_inv (pool_release sid p) \<and>
     free_ids (bits (pool_release sid p)) = (if unat sid < kBits then insert (unat sid) (free_ids (bits p)) else free_ids (bits p))"
proof (cases "unat sid < kBits")
  case False
  then show ?thesis using inv by (simp add: pool_release_def)
next
  case True
  let ?F = "free_ids (bits p)" and ?w = "unat sid div 64" and ?k = "unat sid mod 64"
  let ?m = "push_bit ?k 1 :: 64 word"
  have len: "length (bits p) = kWords" and sub: "?F \<subseteq> {..<kBits}" and cnt: "pool_count p = card ?F"
    and nw: "next_word p < kWords" "\<forall>w < next_word p. bits p ! w = 0"
    using inv by (auto simp: pool_inv_def)
  have w: "?w < kWords" and k: "?k < 64" using True by auto
  have mem: "unat sid \<in> ?F \<longleftrightarrow> bit (bits p ! ?w) ?k" using True by (simp add: free_ids_def)
  show ?thesis
  proof (cases "bit (bits p ! ?w) ?k")
    case in_pool: True
    then show ?thesis
      using True inv mem and_push_zero [OF k, of "bits p ! ?w"] by (auto simp: pool_release_def Let_def)
  next
    case False
    let ?bs = "(bits p)[?w := bits p ! ?w OR ?m]"
    have F: "free_ids ?bs = insert (unat sid) ?F"
      using free_ids_set [OF len w k] bit_or_push [OF k] by simp
    have card: "card (free_ids ?bs) = card ?F + 1" using F mem False by simp
    have "card ?F \<le> kBits" using card_mono [OF _ sub] by simp
    then have "szadd (pool_count p) 1 = card ?F + 1" using cnt by (simp add: szadd_small)
    moreover have "?bs ! u = 0" if "u < (if ?w < next_word p then ?w else next_word p)" for u
      using that nw(2) by (auto split: if_splits)
    ultimately have "pool_inv (p\<lparr>bits := ?bs, pool_count := szadd (pool_count p) 1,
        next_word := if ?w < next_word p then ?w else next_word p\<rparr>)"
      using F sub True card len nw(1) w by (auto simp: pool_inv_def)
    then show ?thesis
      using True False F and_push_zero [OF k, of "bits p ! ?w"] by (simp add: pool_release_def Let_def)
  qed
qed

section \<open>The interface the core relies on\<close>

text \<open>
  A core takes an id when it creates an actor and gives it back when the actor is removed. The
  client lemma: along any sequence of such requests no id is handed out while it is in use, and
  no id is lost.
\<close>

datatype pool_op = Acquire | Release service_id

fun pool_run ::
  "('p \<Rightarrow> service_id \<times> 'p) \<Rightarrow> (service_id \<Rightarrow> 'p \<Rightarrow> 'p) \<Rightarrow> pool_op list \<Rightarrow> service_id list \<Rightarrow> 'p \<Rightarrow> service_id list \<times> 'p" where
  "pool_run acq rel [] held p = (held, p)"
| "pool_run acq rel (Acquire # ops) held p =
     (let (sid, p') = acq p
      in pool_run acq rel ops (if sid = BroadcastSid then held else sid # held) p')"
| "pool_run acq rel (Release sid # ops) held p =
     (if sid \<in> set held then pool_run acq rel ops (remove1 sid held) (rel sid p)
      else pool_run acq rel ops held p)"

locale id_pool =
  fixes invar :: "'p \<Rightarrow> bool"
    and free :: "'p \<Rightarrow> nat set"
    and acq :: "'p \<Rightarrow> service_id \<times> 'p"
    and rel :: "service_id \<Rightarrow> 'p \<Rightarrow> 'p"
  assumes free_bound: "invar p \<Longrightarrow> free p \<subseteq> {..<kBits}"
    and acq_empty: "invar p \<Longrightarrow> free p = {} \<Longrightarrow> acq p = (BroadcastSid, p)"
    and acq_least: "invar p \<Longrightarrow> free p \<noteq> {} \<Longrightarrow>
      \<exists>p'. acq p = (word_of_nat (Min (free p)), p') \<and> invar p' \<and> free p' = free p - {Min (free p)}"
    and rel_adds: "invar p \<Longrightarrow> unat sid < kBits \<Longrightarrow> invar (rel sid p) \<and> free (rel sid p) = insert (unat sid) (free p)"
begin

definition run_ok :: "service_id list \<Rightarrow> 'p \<Rightarrow> nat set \<Rightarrow> bool" where
  "run_ok held p ids \<longleftrightarrow> invar p \<and> distinct held \<and> unat ` set held \<inter> free p = {} \<and>
     unat ` set held \<union> free p = ids \<and> (\<forall>sid \<in> set held. unat sid < kBits)"

lemma acquire_ok:
  assumes ok: "run_ok held p ids" and a: "acq p = (sid, p')"
  shows "run_ok (if sid = BroadcastSid then held else sid # held) p' ids"
proof (cases "free p = {}")
  case True
  then have "sid = BroadcastSid" "p' = p" using a acq_empty [of p] ok by (auto simp: run_ok_def)
  then show ?thesis using ok by simp
next
  case False
  have inv: "invar p" using ok by (simp add: run_ok_def)
  let ?n = "Min (free p)"
  have s: "sid = word_of_nat ?n" "invar p'" "free p' = free p - {?n}"
    using acq_least [OF inv False] a by auto
  have fin: "finite (free p)" using free_bound [OF inv] by (rule finite_subset) simp
  have n: "?n \<in> free p" "?n < kBits" using Min_in [OF fin False] free_bound [OF inv] by auto
  have u: "unat sid = ?n" using n(2) s(1) by (simp add: unat_of_nat)
  then have nb: "sid \<noteq> BroadcastSid" using n(2) by (auto simp: BroadcastSid_def)
  have "sid \<notin> set held" using ok u n(1) by (auto simp: run_ok_def)
  then show ?thesis using ok s(2,3) u n nb by (auto simp: run_ok_def)
qed

lemma release_ok:
  assumes ok: "run_ok held p ids" and m: "sid \<in> set held"
  shows "run_ok (remove1 sid held) (rel sid p) ids"
proof -
  have "unat sid < kBits" "invar p" using ok m by (auto simp: run_ok_def)
  from rel_adds [OF this(2,1)] have r: "invar (rel sid p)" "free (rel sid p) = insert (unat sid) (free p)" by auto
  have "set (remove1 sid held) = set held - {sid}" using ok by (simp add: run_ok_def)
  moreover have "unat sid \<notin> unat ` (set held - {sid})" by (auto simp: word_unat_eq_iff)
  ultimately show ?thesis using ok m r by (auto simp: run_ok_def)
qed

lemma pool_run_ok:
  "run_ok held p ids \<Longrightarrow> pool_run acq rel ops held p = (held', p') \<Longrightarrow> run_ok held' p' ids"
proof (induction ops arbitrary: held p)
  case Nil
  then show ?case by simp
next
  case (Cons x ops)
  show ?case
  proof (cases x)
    case Acquire
    obtain sid q where q: "acq p = (sid, q)" by fastforce
    then show ?thesis
      using Cons.IH [OF acquire_ok [OF Cons.prems(1) q]] Cons.prems(2) Acquire by simp
  next
    case (Release sid)
    then show ?thesis
      using Cons.IH Cons.prems release_ok [OF Cons.prems(1)] by (auto split: if_splits)
  qed
qed

end

interpretation sid_pool: id_pool pool_inv "\<lambda>p. free_ids (bits p)" pool_acquire pool_release
proof (unfold_locales, goal_cases)
  case (1 p)
  then show ?case by (simp add: pool_inv_def)
next
  case (2 p)
  then show ?case using pool_acquire_correct [OF 2(1)] by simp
next
  case (3 p)
  then show ?case using pool_acquire_correct [OF 3(1)] by simp
next
  case (4 p sid)
  then show ?case using pool_release_correct [OF 4(1), of sid] by simp
qed

text \<open>C25. The bit-level pool of service ids is a set of free ids: \<open>acquire\<close> returns the smallest
  free id and takes exactly that one out, or returns the broadcast id when nothing is free;
  \<open>release\<close> of a service id puts exactly that one back; the cached count, the scan cursor and the
  words stay consistent.\<close>

theorem service_pool_refines_set:
  assumes "pool_inv p"
  shows "(if free_ids (bits p) = {} then pool_acquire p = (BroadcastSid, p)
      else \<exists>p'. pool_acquire p = (word_of_nat (Min (free_ids (bits p))), p') \<and> pool_inv p' \<and>
        free_ids (bits p') = free_ids (bits p) - {Min (free_ids (bits p))}) \<and>
     pool_inv (pool_release sid p) \<and>
     free_ids (bits (pool_release sid p)) =
       (if unat sid < kBits then insert (unat sid) (free_ids (bits p)) else free_ids (bits p)) \<and>
     pool_size p = card (free_ids (bits p))"
proof -
  have "pool_size p = card (free_ids (bits p))" using assms by (simp add: pool_size_def pool_inv_def)
  then show ?thesis using pool_acquire_correct [OF assms] pool_release_correct [OF assms, of sid] by blast
qed

theorem service_pool_refines_set_witness:
  "pool_inv (pool_init 7) \<and> (\<exists>p'. pool_acquire (pool_init 7) = (7, p') \<and> pool_inv p')"
proof -
  have i: "pool_inv (pool_init 7)" "free_ids (bits (pool_init 7)) = {7..<kBits}"
    using pool_init_correct [of 7] by simp_all
  have "Min {7..<kBits} = (7::nat)" by (rule Min_eqI) auto
  then show ?thesis using service_pool_refines_set [OF i(1), of 0] i by auto
qed

text \<open>C12. The service ids of a core: starting from \<open>init(min)\<close>, along every sequence of \<open>acquire\<close> and
  \<open>release\<close> calls, the ids in use are pairwise distinct and never below \<open>min\<close> nor equal to the
  broadcast id, and together with the free ones they are always exactly \<open>min, \<dots>, 65534\<close>: no id is
  handed out twice and none leaks.\<close>

theorem service_ids_unique:
  assumes "pool_run pool_acquire pool_release ops [] (pool_init m) = (held, p)"
  shows "distinct held \<and> unat ` set held \<inter> free_ids (bits p) = {} \<and>
     unat ` set held \<union> free_ids (bits p) = {unat m..<kBits} \<and> pool_size p = kBits - unat m - length held"
proof -
  have "sid_pool.run_ok [] (pool_init m) {unat m..<kBits}"
    using pool_init_correct [of m] by (simp add: sid_pool.run_ok_def)
  from sid_pool.pool_run_ok [OF this assms] have ok: "sid_pool.run_ok held p {unat m..<kBits}" .
  then have d: "distinct held" "unat ` set held \<inter> free_ids (bits p) = {}"
    "unat ` set held \<union> free_ids (bits p) = {unat m..<kBits}" "pool_inv p" by (auto simp: sid_pool.run_ok_def)
  have "card (unat ` set held) = length held"
    using d(1) by (subst card_image) (auto simp: inj_on_def word_unat_eq_iff distinct_card)
  then have "length held + card (free_ids (bits p)) = kBits - unat m"
    using card_Un_disjoint [OF _ _ d(2)] d(3) by simp
  then show ?thesis using d by (simp add: pool_size_def pool_inv_def)
qed

theorem service_ids_unique_witness:
  "\<exists>p. pool_run pool_acquire pool_release [Acquire] [] (pool_init 7) = ([7], p) \<and> pool_size p = 65527"
proof -
  have F: "free_ids (bits (pool_init 7)) = {7..<kBits}" using pool_init_correct [of 7] by simp
  then have m: "Min (free_ids (bits (pool_init 7))) = 7" by (auto intro: Min_eqI)
  from pool_acquire_correct [of "pool_init 7"] pool_init_correct [of 7] F m
  obtain p where "pool_acquire (pool_init 7) = (7, p)" by auto
  then have r: "pool_run pool_acquire pool_release [Acquire] [] (pool_init 7) = ([7], p)"
    by (simp add: BroadcastSid_def)
  from service_ids_unique [OF r] r show ?thesis by auto
qed

end
