(* ===== verification/Event.thy ===== *)
theory Event
  imports Pipe_Alloc Actor_Id
begin

text \<open>
  Events: the header word and the routing fields of \<open>qb::Event\<close> (\<open>src/qb/core/Event.h\<close>), service events,
  the process-wide registry that gives every event type its id (\<open>src/qb/core/Event.cpp\<close>), and the
  proxy pipe that constructs events in place (\<open>src/qb/core/Pipe.h\<close>). An event occupies a run of 64-byte
  buckets; a bucket is modelled by the fields that an event header placed at its start has, and the
  rest of its bytes, of an arbitrary type.
\<close>

section \<open>Header and routing fields\<close>

type_synonym event_id = "16 word"

record 'b bucket =
  b_state :: "32 word"
  bucket_size :: "16 word"
  b_id :: event_id
  b_dest :: actor_id
  b_source :: actor_id
  b_forward :: actor_id
  b_service_event_id :: event_id
  b_body :: 'b

abbreviation BUCKET_BYTES :: nat where
  "BUCKET_BYTES \<equiv> 64"

text \<open>
  The union \<open>Header\<close>: four bytes \<open>'q', 'b', 0, 4 | ((64 / 16) << 3)\<close>, read as a little-endian word
  with the bit fields \<open>alive\<close> (bit 24), \<open>qos\<close> (bits 25 and 26) and \<open>factor\<close> (bits 27 to 31).
\<close>

definition header_default :: "32 word" where
  "header_default = 0x71 OR push_bit 8 0x62 OR push_bit 16 0 OR push_bit 24 (4 OR push_bit 3 (64 div 16))"

definition state_alive :: "32 word \<Rightarrow> bool" where
  "state_alive w = bit w 24"

definition state_qos :: "32 word \<Rightarrow> 32 word" where
  "state_qos w = take_bit 2 (drop_bit 25 w)"

definition state_factor :: "32 word \<Rightarrow> 32 word" where
  "state_factor w = take_bit 5 (drop_bit 27 w)"

definition state_set_alive :: "bool \<Rightarrow> 32 word \<Rightarrow> 32 word" where
  "state_set_alive flag w = (if flag then set_bit 24 w else unset_bit 24 w)"

definition state_set_qos :: "32 word \<Rightarrow> 32 word \<Rightarrow> 32 word" where
  "state_set_qos q w = (w AND NOT (push_bit 25 (mask 2))) OR push_bit 25 (take_bit 2 q)"

definition ev_is_alive :: "'b bucket \<Rightarrow> bool" where
  "ev_is_alive e = state_alive (b_state e)"

definition ev_getID :: "'b bucket \<Rightarrow> event_id" where
  "ev_getID e = b_id e"

definition ev_getQOS :: "'b bucket \<Rightarrow> 8 word" where
  "ev_getQOS e = ucast (state_qos (b_state e))"

definition ev_getDestination :: "'b bucket \<Rightarrow> actor_id" where
  "ev_getDestination e = b_dest e"

definition ev_getSource :: "'b bucket \<Rightarrow> actor_id" where
  "ev_getSource e = b_source e"

definition ev_getSize :: "'b bucket \<Rightarrow> size_t" where
  "ev_getSize e = szmul (unat (bucket_size e)) BUCKET_BYTES"

text \<open>The constructors: a plain event keeps the default header, \<open>EventQOS0\<close> clears the QoS field.\<close>

definition event_ctor :: "'b bucket \<Rightarrow> 'b bucket" where
  "event_ctor e = e\<lparr>b_state := header_default\<rparr>"

definition event_qos0_ctor :: "'b bucket \<Rightarrow> 'b bucket" where
  "event_qos0_ctor e = (event_ctor e)\<lparr>b_state := state_set_qos 0 header_default\<rparr>"

definition set_alive :: "bool \<Rightarrow> 'b bucket \<Rightarrow> 'b bucket" where
  "set_alive flag e = e\<lparr>b_state := state_set_alive flag (b_state e)\<rparr>"

definition service_live :: "bool \<Rightarrow> 'b bucket \<Rightarrow> 'b bucket" where
  "service_live flag e = e\<lparr>b_state := state_set_alive flag (b_state e)\<rparr>"

definition service_received :: "'b bucket \<Rightarrow> 'b bucket" where
  "service_received e =
     service_live True
       (e\<lparr>b_dest := b_forward e, b_forward := b_dest e,
          b_id := b_service_event_id e, b_service_event_id := b_id e\<rparr>)"

lemmas event_defs = ev_is_alive_def ev_getID_def ev_getDestination_def ev_getSource_def set_alive_def
  service_live_def event_ctor_def event_qos0_ctor_def

lemma state_fields:
  "state_alive (state_set_alive f w) = f" "state_qos (state_set_alive f w) = state_qos w"
  "state_factor (state_set_alive f w) = state_factor w" "state_alive (state_set_qos q w) = state_alive w"
  "state_qos (state_set_qos q w) = take_bit 2 q" "state_factor (state_set_qos q w) = state_factor w"
  "take_bit 24 (state_set_alive f w) = take_bit 24 w" "take_bit 24 (state_set_qos q w) = take_bit 24 w"
  subgoal by (simp add: state_alive_def state_set_alive_def bit_simps)
  subgoal by (rule bit_word_eqI) (auto simp: state_qos_def state_set_alive_def bit_simps)
  subgoal by (rule bit_word_eqI) (auto simp: state_factor_def state_set_alive_def bit_simps)
  subgoal by (simp add: state_alive_def state_set_qos_def bit_simps)
  subgoal by (rule bit_word_eqI) (auto simp: state_qos_def state_set_qos_def bit_simps bit_numeral_rec)
  subgoal by (rule bit_word_eqI) (auto simp: state_factor_def state_set_qos_def bit_simps bit_numeral_rec)
  subgoal by (rule bit_word_eqI) (auto simp: state_set_alive_def bit_simps)
  subgoal by (rule bit_word_eqI) (auto simp: state_set_qos_def bit_simps)
  done

text \<open>The header word: a default event is tagged \<open>qb\<close>, is not alive, has QoS 2 and bucket factor 4,
  an \<open>EventQOS0\<close> differs from it only in having QoS 0; and writing the \<open>alive\<close> or the \<open>qos\<close> bit field
  is read back and changes no other part of the word.\<close>

theorem event_header_fields:
  "take_bit 24 header_default = 0x6271 \<and> \<not> state_alive header_default \<and> state_qos header_default = 2 \<and>
   state_factor header_default = 4 \<and>
   b_state (event_qos0_ctor e) = header_default XOR push_bit 26 1 \<and> ev_getQOS (event_qos0_ctor e) = 0 \<and>
   state_alive (state_set_alive f w) = f \<and> state_qos (state_set_alive f w) = state_qos w \<and>
   state_factor (state_set_alive f w) = state_factor w \<and>
   state_qos (state_set_qos q w) = take_bit 2 q \<and> state_alive (state_set_qos q w) = state_alive w \<and>
   state_factor (state_set_qos q w) = state_factor w \<and>
   take_bit 24 (state_set_alive f w) = take_bit 24 w \<and> take_bit 24 (state_set_qos q w) = take_bit 24 w"
proof -
  have h: "header_default = 0x24006271" by (simp add: header_default_def)
  have "take_bit 24 header_default = 0x6271 \<and> \<not> state_alive header_default \<and> state_qos header_default = 2 \<and>
      state_factor header_default = 4 \<and> state_set_qos 0 header_default = header_default XOR push_bit 26 1"
    unfolding h
    by (simp add: state_alive_def state_qos_def state_factor_def state_set_qos_def bit_numeral_rec mask_eq_exp_minus_1
        flip: take_bit_eq_mod)
  moreover have "state_qos (state_set_qos 0 header_default) = 0" by (simp add: state_fields)
  ultimately show ?thesis by (simp add: state_fields event_qos0_ctor_def ev_getQOS_def)
qed

section \<open>The type-id registry\<close>

text \<open>
  \<open>_type_id_counter\<close>, the intrusive list \<open>_type_id_registry\<close> (most recent slot first) and the table
  \<open>_type_names\<close>. The body of \<open>register_type_id\<close> runs under the registry's spin lock.
\<close>

record type_registry =
  tr_counter :: "16 word"
  tr_slots :: "(string \<times> event_id) list"
  tr_names :: "event_id \<Rightarrow> string option"

definition registry_new :: type_registry where
  "registry_new = \<lparr>tr_counter = 0, tr_slots = [], tr_names = (\<lambda>_. None)\<rparr>"

fun find_slot :: "string \<Rightarrow> (string \<times> event_id) list \<Rightarrow> event_id" where
  "find_slot name [] = 0"
| "find_slot name ((n, i) # slots) = (if n = name then i else find_slot name slots)"

definition register_type_name :: "event_id \<Rightarrow> string \<Rightarrow> type_registry \<Rightarrow> type_registry" where
  "register_type_name i name r = r\<lparr>tr_names := (tr_names r)(i \<mapsto> name)\<rparr>"

definition register_type_id :: "string \<Rightarrow> type_registry \<Rightarrow> event_id \<times> type_registry" where
  "register_type_id name r =
     (let result = find_slot name (tr_slots r)
      in if result = 0
         then let i = tr_counter r + 1;
                  r1 = register_type_name i name (r\<lparr>tr_counter := tr_counter r + 1\<rparr>)
              in (i, r1\<lparr>tr_slots := (name, i) # tr_slots r1\<rparr>)
         else (result, r))"

definition type_name_for :: "event_id \<Rightarrow> type_registry \<Rightarrow> string" where
  "type_name_for i r = (case tr_names r i of Some name \<Rightarrow> name | None \<Rightarrow> ''<unregistered>'')"

fun register_all :: "string list \<Rightarrow> type_registry \<Rightarrow> event_id list \<times> type_registry" where
  "register_all [] r = ([], r)"
| "register_all (n # ns) r =
     (let (i, r1) = register_type_id n r; (is, r2) = register_all ns r1 in (i # is, r2))"

definition registry_inv :: "type_registry \<Rightarrow> bool" where
  "registry_inv r \<longleftrightarrow> distinct (map fst (tr_slots r)) \<and> length (tr_slots r) \<le> 65535 \<and>
     unat (tr_counter r) = length (tr_slots r) \<and>
     map (unat \<circ> snd) (tr_slots r) = rev [1..<Suc (length (tr_slots r))] \<and>
     (\<forall>(n, i) \<in> set (tr_slots r). tr_names r i = Some n)"

lemma registry_ids:
  assumes "registry_inv r" "(n, i) \<in> set (tr_slots r)"
  shows "i \<noteq> 0" "unat i \<le> unat (tr_counter r)"
proof -
  have "unat i \<in> set (map (unat \<circ> snd) (tr_slots r))" using assms(2) by force
  then have "1 \<le> unat i \<and> unat i \<le> unat (tr_counter r)"
    using assms(1) unfolding registry_inv_def by auto
  then show "i \<noteq> 0" "unat i \<le> unat (tr_counter r)" by auto
qed

lemma registry_inj:
  assumes "registry_inv r" "(n, i) \<in> set (tr_slots r)" "(m, i) \<in> set (tr_slots r)"
  shows "n = m"
proof -
  have "\<forall>(n, i) \<in> set (tr_slots r). tr_names r i = Some n" using assms(1) by (simp add: registry_inv_def)
  from bspec [OF this assms(2)] bspec [OF this assms(3)] show ?thesis by simp
qed

lemma find_slot_member:
  "distinct (map fst slots) \<Longrightarrow> (n, i) \<in> set slots \<Longrightarrow> find_slot n slots = i"
  by (induction n slots rule: find_slot.induct) (auto simp: rev_image_eqI)

lemma find_slot_absent: "n \<notin> fst ` set slots \<Longrightarrow> find_slot n slots = 0"
  by (induction n slots rule: find_slot.induct) auto

lemma register_known:
  assumes "registry_inv r" "(n, i) \<in> set (tr_slots r)"
  shows "register_type_id n r = (i, r)"
  using registry_ids(1) [OF assms] find_slot_member [of "tr_slots r" n i] assms
  by (simp add: register_type_id_def registry_inv_def)

lemma register_new:
  assumes "registry_inv r" "n \<notin> fst ` set (tr_slots r)" "length (tr_slots r) < 65535"
  shows "\<exists>r'. register_type_id n r = (tr_counter r + 1, r') \<and> registry_inv r' \<and>
     tr_slots r' = (n, tr_counter r + 1) # tr_slots r"
proof -
  have c: "unat (tr_counter r + 1) = Suc (length (tr_slots r))"
    using assms(1,3) by (simp add: registry_inv_def unat_word_ariths(1))
  have "i \<noteq> tr_counter r + 1" if "(m, i) \<in> set (tr_slots r)" for m i
    using registry_ids(2) [OF assms(1) that] c assms(1) by (auto simp: registry_inv_def)
  then show ?thesis
    using assms c find_slot_absent [OF assms(2)]
    by (auto simp: register_type_id_def register_type_name_def registry_inv_def Let_def)
qed

lemma register_all_inv:
  assumes "registry_inv r" "card (fst ` set (tr_slots r) \<union> set ns) \<le> 65535" "register_all ns r = (is, r')"
  shows "registry_inv r' \<and> set (tr_slots r) \<subseteq> set (tr_slots r') \<and> length is = length ns \<and>
     set (zip ns is) \<subseteq> set (tr_slots r')"
  using assms
proof (induction ns arbitrary: r "is")
  case Nil
  then show ?case by simp
next
  case (Cons n ns)
  obtain i r1 where r1: "register_type_id n r = (i, r1)" by fastforce
  obtain js where js: "register_all ns r1 = (js, r')" "is = i # js"
    using Cons.prems(3) by (auto simp: r1 split: prod.splits)
  have step: "registry_inv r1 \<and> set (tr_slots r1) = insert (n, i) (set (tr_slots r))"
  proof (cases "n \<in> fst ` set (tr_slots r)")
    case True
    then obtain k where k: "(n, k) \<in> set (tr_slots r)" by force
    then show ?thesis using register_known [OF Cons.prems(1) k] r1 Cons.prems(1) by auto
  next
    case False
    have "card (fst ` set (tr_slots r)) = length (tr_slots r)"
      using Cons.prems(1) distinct_card [of "map fst (tr_slots r)"] by (simp add: registry_inv_def)
    moreover have "card (insert n (fst ` set (tr_slots r))) \<le> card (fst ` set (tr_slots r) \<union> set (n # ns))"
      by (intro card_mono) auto
    ultimately have "length (tr_slots r) < 65535" using False Cons.prems(2) by simp
    from register_new [OF Cons.prems(1) False this] show ?thesis using r1 by auto
  qed
  moreover have "fst ` set (tr_slots r1) \<union> set ns = fst ` set (tr_slots r) \<union> set (n # ns)" using step by auto
  ultimately show ?case using Cons.IH [OF _ _ js(1)] Cons.prems(2) js(2) by auto
qed

text \<open>C27. Registering any sequence of at most 65535 different type names, in any order and with any
  repetitions, gives two entries the same id exactly when they name the same type, never gives the
  id 0 of "unregistered", and afterwards the name table maps every id given out to its type.\<close>

theorem type_ids_unique:
  assumes "card (set ns) \<le> 65535" "register_all ns registry_new = (is, r)"
    and "j < length ns" "k < length ns"
  shows "(is ! j = is ! k \<longleftrightarrow> ns ! j = ns ! k) \<and> is ! j \<noteq> 0 \<and> type_name_for (is ! j) r = ns ! j"
proof -
  have "registry_inv registry_new" by (simp add: registry_inv_def registry_new_def)
  from register_all_inv [OF this _ assms(2)] assms(1)
  have inv: "registry_inv r" and len: "length is = length ns" and sub: "set (zip ns is) \<subseteq> set (tr_slots r)"
    by (simp_all add: registry_new_def)
  have mem: "(ns ! x, is ! x) \<in> set (tr_slots r)" if "x < length ns" for x
    using sub that len by (force simp: set_zip)
  show ?thesis
  proof (intro conjI iffI)
    assume "is ! j = is ! k"
    then show "ns ! j = ns ! k" using registry_inj [OF inv mem [OF assms(3)]] mem [OF assms(4)] by simp
  next
    assume "ns ! j = ns ! k"
    then show "is ! j = is ! k"
      using register_known [OF inv mem [OF assms(3)]] register_known [OF inv mem [OF assms(4)]] by simp
  next
    show "is ! j \<noteq> 0" using registry_ids(1) [OF inv mem [OF assms(3)]] .
    show "type_name_for (is ! j) r = ns ! j"
      using inv mem [OF assms(3)] by (auto simp: registry_inv_def type_name_for_def)
  qed
qed

theorem type_ids_unique_witness:
  "\<exists>r. register_all [''Kill'', ''Ping'', ''Kill''] registry_new = ([1, 2, 1], r) \<and>
     type_name_for 2 r = ''Ping''"
proof -
  obtain r where r: "register_all [''Kill'', ''Ping'', ''Kill''] registry_new = ([1, 2, 1], r)"
    by (simp add: register_type_id_def register_type_name_def registry_new_def)
  with type_ids_unique [OF _ r, of 1 1] show ?thesis by (simp add: card_insert_if)
qed

text \<open>
  With 65535 types registered the 16-bit counter wraps: the next new type gets the id 0, its slot
  reads as "not found", and the registration after that reuses the id 1 of the first type.
\<close>

lemma register_wraps:
  assumes "tr_counter r = 65535" "n \<notin> fst ` set (tr_slots r)" "m \<notin> insert n (fst ` set (tr_slots r))"
  shows "fst (register_type_id n r) = 0"
    "fst (register_type_id m (snd (register_type_id n r))) = 1"
  using assms find_slot_absent [OF assms(2)] find_slot_absent [of m "(n, 0) # tr_slots r"]
  by (auto simp: register_type_id_def register_type_name_def Let_def)

section \<open>Events in a pipe\<close>

text \<open>
  An event of a pipe or a ring is a non-empty run of buckets whose first one carries its length. The
  object that a constructor call builds in the reserved buckets is an argument of the operations.
\<close>

type_synonym 'b event = "'b bucket list"

definition event_wf :: "'b event \<Rightarrow> bool" where
  "event_wf e \<longleftrightarrow> e \<noteq> [] \<and> unat (bucket_size (hd e)) = length e"

fun on_head :: "('a \<Rightarrow> 'a) \<Rightarrow> 'a list \<Rightarrow> 'a list" where
  "on_head f [] = []"
| "on_head f (x # xs) = f x # xs"

lemma on_head_simps [simp]:
  "length (on_head f xs) = length xs" "(on_head f xs = []) = (xs = [])" "xs \<noteq> [] \<Longrightarrow> hd (on_head f xs) = f (hd xs)"
  "tl (on_head f xs) = tl xs"
  by (cases xs; simp)+

text \<open>
  \<open>fill_event\<close> of \<open>VirtualCore.h\<close>; \<open>Pipe::push\<close> and \<open>Pipe::allocated_push\<close> write the same fields. A
  service event is sent under the id of the service and keeps its own id, and the way back, inside.
\<close>

definition fill_header :: "event_id \<Rightarrow> bool \<Rightarrow> actor_id \<Rightarrow> actor_id \<Rightarrow> 'b bucket \<Rightarrow> 'b bucket" where
  "fill_header tid service dest source data =
     (let d = data\<lparr>b_id := tid, b_dest := dest, b_source := source\<rparr>
      in if service
         then d\<lparr>b_forward := source, b_id := b_service_event_id d, b_service_event_id := b_id d\<rparr>
         else d)"

definition fill_event ::
  "event_id \<Rightarrow> bool \<Rightarrow> size_t \<Rightarrow> actor_id \<Rightarrow> actor_id \<Rightarrow> 'b bucket \<Rightarrow> 'b bucket" where
  "fill_event tid service sizeof_T dest source data =
     (fill_header tid service dest source data)\<lparr>bucket_size := word_of_nat (getItemSize sizeof_T BUCKET_BYTES)\<rparr>"

definition proxy_push ::
  "'b bucket allocator \<Rightarrow> event_id \<Rightarrow> bool \<Rightarrow> size_t \<Rightarrow> actor_id \<Rightarrow> actor_id \<Rightarrow> 'b event \<Rightarrow>
     'b bucket pipe \<Rightarrow> (size_t, 'b bucket pipe) alloc_result option" where
  "proxy_push alloc tid service sizeof_T dest source obj p =
     do {
       raw \<leftarrow> allocate_back alloc (getItemSize sizeof_T BUCKET_BYTES) p;
       store (on_head (\<lambda>d. (fill_header tid service dest source d)
         \<lparr>bucket_size := word_of_nat (getItemSize sizeof_T BUCKET_BYTES)\<rparr>) obj) raw
     }"

definition allocated_buckets :: "size_t \<Rightarrow> size_t \<Rightarrow> size_t" where
  "allocated_buckets extra sizeof_T =
     (let sz = szadd extra sizeof_T
      in szadd (sz div BUCKET_BYTES) (if sz mod BUCKET_BYTES \<noteq> 0 then 1 else 0))"

definition allocated_push ::
  "'b bucket allocator \<Rightarrow> event_id \<Rightarrow> bool \<Rightarrow> size_t \<Rightarrow> size_t \<Rightarrow> actor_id \<Rightarrow> actor_id \<Rightarrow> 'b event \<Rightarrow>
     'b bucket pipe \<Rightarrow> (size_t, 'b bucket pipe) alloc_result option" where
  "allocated_push alloc tid service extra sizeof_T dest source obj p =
     do {
       let sz = allocated_buckets extra sizeof_T;
       raw \<leftarrow> allocate_back alloc sz p;
       store (on_head (\<lambda>d. (fill_header tid service dest source d)\<lparr>bucket_size := word_of_nat sz\<rparr>) obj) raw
     }"

lemma getItemSize_bounds:
  "sizeof_T \<le> getItemSize sizeof_T 64 * 64" "getItemSize sizeof_T 64 * 64 < sizeof_T + 64"
  by (auto simp: getItemSize_def) presburger+

lemma proxy_push_put:
  "length obj = getItemSize sizeof_T BUCKET_BYTES \<Longrightarrow>
     proxy_push alloc tid service sizeof_T dest source obj p =
       put alloc (on_head (fill_event tid service sizeof_T dest source) obj) p"
  by (simp add: proxy_push_def put_def fill_event_def [abs_def])

lemma allocated_push_put:
  "length obj = allocated_buckets extra sizeof_T \<Longrightarrow>
     allocated_push alloc tid service extra sizeof_T dest source obj p =
       put alloc (on_head (\<lambda>d. (fill_header tid service dest source d)\<lparr>bucket_size := word_of_nat (length obj)\<rparr>) obj) p"
  by (simp add: allocated_push_def put_def Let_def)

lemma fill_event_fields:
  "b_dest (fill_event tid service n dest source d) = dest" "b_source (fill_event tid service n dest source d) = source"
  "b_state (fill_event tid service n dest source d) = b_state d"
  "b_body (fill_event tid service n dest source d) = b_body d"
  "b_id (fill_event tid False n dest source d) = tid" "b_id (fill_event tid True n dest source d) = b_service_event_id d"
  "b_forward (fill_event tid True n dest source d) = source"
  "b_service_event_id (fill_event tid True n dest source d) = tid"
  by (simp_all add: fill_event_def fill_header_def Let_def)

lemma unat_of_nat16: "unat (word_of_nat n :: 16 word) = n mod 65536"
  by (simp add: unat_of_nat)

lemma fill_event_wf:
  assumes "length obj = getItemSize sizeof_T BUCKET_BYTES" "obj \<noteq> []" "length obj < 65536"
  shows "event_wf (on_head (fill_event tid service sizeof_T dest source) obj)"
  using assms by (simp add: event_wf_def fill_event_def unat_of_nat16)



text \<open>C39. The 16-bit \<open>bucket_size\<close> of an \<open>allocated_push\<close>: it is the event's true footprint exactly when
  that is below 65536 buckets (the event is then well-formed); from 65536 on it is the footprint
  modulo 65536, and 0, which the receiving loops take for malformed, for every multiple.\<close>

theorem allocated_push_footprint:
  assumes n: "n = allocated_buckets extra sizeof_T" and pos: "0 < sizeof_T" "extra + sizeof_T < size_mod"
    and obj: "length obj = n"
    and ev: "ev = on_head (\<lambda>d. (fill_header tid service dest source d)\<lparr>bucket_size := word_of_nat n\<rparr>) obj"
  shows "allocated_push alloc tid service extra sizeof_T dest source obj p = put alloc ev p \<and>
     extra + sizeof_T \<le> n * 64 \<and> n * 64 < extra + sizeof_T + 64 \<and>
     unat (bucket_size (hd ev)) = n mod 65536 \<and> (event_wf ev \<longleftrightarrow> n < 65536) \<and>
     (n mod 65536 = 0 \<longleftrightarrow> bucket_size (hd ev) = 0)"
proof -
  have sz: "szadd extra sizeof_T = extra + sizeof_T" using pos by (simp add: szadd_small)
  have "n = getItemSize (extra + sizeof_T) 64"
    unfolding n allocated_buckets_def Let_def sz getItemSize_def using pos(2) by (intro szadd_small) auto
  then have b: "extra + sizeof_T \<le> n * 64" "n * 64 < extra + sizeof_T + 64"
    using getItemSize_bounds [of "extra + sizeof_T"] by auto
  then have ne: "obj \<noteq> []" using obj pos by auto
  have sizes: "unat (bucket_size (hd ev)) = n mod 65536" using ne by (simp add: ev unat_of_nat16)
  have len: "length ev = n" using obj by (simp add: ev)
  have put: "allocated_push alloc tid service extra sizeof_T dest source obj p = put alloc ev p"
    using allocated_push_put [of obj extra sizeof_T] obj n ev by simp
  have wf: "event_wf ev \<longleftrightarrow> n < 65536"
    using sizes len ne by (auto simp: event_wf_def ev)
  have zero: "n mod 65536 = 0 \<longleftrightarrow> bucket_size (hd ev) = 0"
    using sizes by (metis unat_eq_zero)
  show ?thesis using b sizes put wf zero by blast
qed

theorem allocated_push_footprint_witness:
  "allocated_buckets (4194304 - 64) 64 = 65536 \<and>
   unat (bucket_size (hd (on_head (\<lambda>d. (fill_header 7 False (ActorId 3 1) (ActorId 2 0) d)\<lparr>bucket_size := word_of_nat 3\<rparr>)
     (replicate 3 \<lparr>b_state = 0, bucket_size = 0, b_id = 0, b_dest = ActorId 0 0, b_source = ActorId 0 0,
       b_forward = ActorId 0 0, b_service_event_id = 0, b_body = ()\<rparr>)))) = 3"
  using allocated_push_footprint [of 3 100 64 "replicate 3 \<lparr>b_state = 0, bucket_size = 0, b_id = 0,
      b_dest = ActorId 0 0, b_source = ActorId 0 0, b_forward = ActorId 0 0, b_service_event_id = 0, b_body = ()\<rparr>"
      _ 7 False "ActorId 3 1" "ActorId 2 0"]
  by (simp add: allocated_buckets_def szadd_def)

text \<open>C32. The round trip of a service event: the service that receives it finds the id of the event it
  was sent as, and \<open>received()\<close> turns it into a live answer addressed to the sender under that id;
  marking it received a second time restores both addresses and both ids.\<close>

theorem service_event_round_trip:
  assumes e: "e = fill_event tid True n dest source d" and r: "r = service_received e"
  shows "b_id e = b_service_event_id d \<and> b_dest e = dest \<and>
     b_id r = tid \<and> b_dest r = source \<and> ev_is_alive r \<and> b_service_event_id r = b_service_event_id d \<and>
     b_forward r = dest \<and> b_body r = b_body d \<and>
     b_id (service_received r) = b_id e \<and> b_dest (service_received r) = dest \<and>
     b_forward (service_received r) = source"
  by (simp add: e r service_received_def fill_event_fields event_defs state_fields)

theorem service_event_round_trip_witness:
  "b_dest (service_received (fill_event 9 True 64 (ActorId 1 0) (ActorId 5 2) \<lparr>b_state = header_default, bucket_size = 0,
     b_id = 0, b_dest = ActorId 0 0, b_source = ActorId 0 0, b_forward = ActorId 0 0, b_service_event_id = 4,
     b_body = ()\<rparr>)) = ActorId 5 2"
  using service_event_round_trip [OF refl refl, of 9 64 "ActorId 1 0" "ActorId 5 2"] by blast

end
