(* ===== verification/Router.thy ===== *)
theory Router
  imports Prelude "HOL-Library.AList"
begin

text \<open>
  The event routers of \<open>src/qb/system/event/router.h\<close>: \<open>EventPolicy\<close>, \<open>sesh\<close> (one event, one handler),
  \<open>semh\<close> (one event type, many handlers), \<open>mesh\<close> (many types, one handler) and \<open>memh\<close> (many types,
  many handlers), the last with the process-wide table of disposers. What the templates are
  instantiated with, the event's accessors, the handlers' \<open>is_alive()\<close> and \<open>on()\<close> and the destructors,
  is a record of functions; handlers run on a state of any type, which holds the router itself, so
  that a handler may subscribe and unsubscribe while an event is being dispatched. A handler returns
  \<^const>\<open>None\<close> when it does not return normally.
\<close>

section \<open>Event policy\<close>

text \<open>
  Event types are identified by their ids: \<open>pol_on t h\<close> is the overload \<open>h.on(T &)\<close>,
  \<open>pol_destroy t\<close> the destructor of \<open>T\<close>. \<open>pol_has_alive\<close> is the concept \<open>has_is_alive\<close>, \<open>pol_iter\<close> the order in
  which an \<open>unordered_map\<close> is traversed, \<open>pol_snap t\<close> and \<open>pol_set_snap t\<close> access the thread-local
  \<open>bcast_snapshot\<close> of the route function for \<open>T\<close>, \<open>pol_router\<close> and \<open>pol_disposers\<close> the router and the static
  disposer table.
\<close>

record ('t, 'i, 'h) memh =
  registered_events :: "('t \<times> ('i \<times> 'h) list) list"
  disposer_cache :: "'t list"

record ('e, 't, 'i, 'h, 's) policy =
  pol_id :: "'e \<Rightarrow> 't"
  pol_dest :: "'e \<Rightarrow> 'i"
  pol_broadcast :: "'i \<Rightarrow> bool"
  pol_has_alive :: bool
  pol_event_alive :: "'e \<Rightarrow> bool"
  pol_handler_alive :: "'h \<Rightarrow> 's \<Rightarrow> bool"
  pol_on :: "'t \<Rightarrow> 'h \<Rightarrow> 'e \<Rightarrow> 's \<Rightarrow> ('e \<times> 's) option"
  pol_trivial :: "'t \<Rightarrow> bool"
  pol_destroy :: "'t \<Rightarrow> 'e \<Rightarrow> 's \<Rightarrow> 's"
  pol_iter :: "('i \<times> 'h) list \<Rightarrow> ('i \<times> 'h) list"
  pol_snap :: "'t \<Rightarrow> 's \<Rightarrow> 'h list"
  pol_set_snap :: "'t \<Rightarrow> 'h list \<Rightarrow> 's \<Rightarrow> 's"
  pol_router :: "'s \<Rightarrow> ('t, 'i, 'h) memh"
  pol_set_router :: "('t, 'i, 'h) memh \<Rightarrow> 's \<Rightarrow> 's"
  pol_disposers :: "'s \<Rightarrow> 't list"

definition invoke ::
  "('e, 't, 'i, 'h, 's) policy \<Rightarrow> 't \<Rightarrow> 'h \<Rightarrow> 'e \<Rightarrow> 's \<Rightarrow> ('e \<times> 's) option" where
  "invoke P t h e s =
     (if pol_has_alive P
      then (if pol_handler_alive P h s then pol_on P t h e s else Some (e, s))
      else pol_on P t h e s)"

definition policy_dispose :: "('e, 't, 'i, 'h, 's) policy \<Rightarrow> 't \<Rightarrow> 'e \<Rightarrow> 's \<Rightarrow> 's" where
  "policy_dispose P t e s =
     (if \<not> pol_trivial P t
      then (if pol_has_alive P
            then (if \<not> pol_event_alive P e then pol_destroy P t e s else s)
            else pol_destroy P t e s)
      else s)"

section \<open>One event type\<close>

definition sesh_route ::
  "('e, 't, 'i, 'h, 's) policy \<Rightarrow> 't \<Rightarrow> bool \<Rightarrow> 'h \<Rightarrow> 'e \<Rightarrow> 's \<Rightarrow> ('e \<times> 's) option" where
  "sesh_route P t clean handler e s =
     do {
       (e1, s1) \<leftarrow> invoke P t handler e s;
       Some (e1, if clean then policy_dispose P t e1 s1 else s1)
     }"

text \<open>
  \<open>bcast_loop\<close> is the loop over the indices \<open>base, \<dots>, end - 1\<close> of the snapshot vector, which a nested
  dispatch may have extended and cut back meanwhile; an index outside it, or a vector that is shorter
  than \<open>base\<close> at the end, is \<^const>\<open>None\<close>.
\<close>

fun bcast_loop ::
  "('e, 't, 'i, 'h, 's) policy \<Rightarrow> 't \<Rightarrow> size_t \<Rightarrow> nat \<Rightarrow> 'e \<Rightarrow> 's \<Rightarrow> ('e \<times> 's) option" where
  "bcast_loop P t i 0 e s = Some (e, s)"
| "bcast_loop P t i (Suc n) e s =
     (if i < length (pol_snap P t s)
      then do { (e1, s1) \<leftarrow> invoke P t (pol_snap P t s ! i) e s; bcast_loop P t (i + 1) n e1 s1 }
      else None)"

definition semh_route ::
  "('e, 't, 'i, 'h, 's) policy \<Rightarrow> 't \<Rightarrow> bool \<Rightarrow> ('i \<times> 'h) list \<Rightarrow> 'e \<Rightarrow> 's \<Rightarrow> ('e \<times> 's) option" where
  "semh_route P t clean subs e s =
     (if pol_broadcast P (pol_dest P e)
      then do {
        let base = length (pol_snap P t s);
        let snap = pol_snap P t s @ map snd (pol_iter P subs);
        (e1, s1) \<leftarrow> bcast_loop P t base (length snap - base) e (pol_set_snap P t snap s);
        if length (pol_snap P t s1) < base then None
        else do {
          let s2 = pol_set_snap P t (take base (pol_snap P t s1)) s1;
          Some (e1, if clean then policy_dispose P t e1 s2 else s2)
        }
      }
      else do {
        (e1, s1) \<leftarrow> (case map_of subs (pol_dest P e) of Some h \<Rightarrow> invoke P t h e s | None \<Rightarrow> Some (e, s));
        Some (e1, if clean then policy_dispose P t e1 s1 else s1)
      })"

text \<open>
  The router for one handler class erases and inserts, the one for any handler class assigns the
  entry.
\<close>

definition semh_handler_subscribe :: "'i \<Rightarrow> 'h \<Rightarrow> ('i \<times> 'h) list \<Rightarrow> ('i \<times> 'h) list" where
  "semh_handler_subscribe i h subs = (i, h) # AList.delete i subs"

definition semh_subscribe :: "'i \<Rightarrow> 'h \<Rightarrow> ('i \<times> 'h) list \<Rightarrow> ('i \<times> 'h) list" where
  "semh_subscribe i h subs = AList.update i h subs"

definition semh_unsubscribe :: "'i \<Rightarrow> ('i \<times> 'h) list \<Rightarrow> ('i \<times> 'h) list" where
  "semh_unsubscribe i subs = AList.delete i subs"

section \<open>Many event types, one handler\<close>

datatype 'a or_out_of_range = Returned 'a | Out_of_range

definition mesh_route ::
  "('e, 't, 'i, 'h, 's) policy \<Rightarrow> bool \<Rightarrow> 'h \<Rightarrow> 't list \<Rightarrow> 'e \<Rightarrow> 's \<Rightarrow> ('e \<times> 's) or_out_of_range option" where
  "mesh_route P clean handler types e s =
     (if List.member types (pol_id P e)
      then do { r \<leftarrow> sesh_route P (pol_id P e) clean handler e s; Some (Returned r) }
      else Some Out_of_range)"

definition mesh_subscribe :: "'t \<Rightarrow> 't list \<Rightarrow> 't list" where
  "mesh_subscribe t types = List.insert t types"

definition mesh_unsubscribe :: "'t \<Rightarrow> 't list \<Rightarrow> 't list" where
  "mesh_unsubscribe t types = removeAll t types"

definition mesh_unsubscribe_all :: "'t list \<Rightarrow> 't list" where
  "mesh_unsubscribe_all types = []"

section \<open>Many event types, many handlers\<close>

text \<open>
  The table of resolvers, in the version for one handler class (\<open>memh_handler_*\<close>), which leaves
  events of an unregistered type to the error function, and in the version for any class (\<open>memh_*\<close>),
  which disposes them. Subscribing there also registers the type's disposer (\<open>SafeDispose\<close>), a static
  object that is built once.
\<close>

definition memh_new :: "('t, 'i, 'h) memh" where
  "memh_new = \<lparr>registered_events = [], disposer_cache = []\<rparr>"

definition safe_dispose :: "'t \<Rightarrow> 't list \<Rightarrow> 't list" where
  "safe_dispose t disposers = List.insert t disposers"

definition ensure_disposer :: "bool \<Rightarrow> 't \<Rightarrow> 't list \<Rightarrow> 't list" where
  "ensure_disposer trivial t disposers = (if \<not> trivial then safe_dispose t disposers else disposers)"

definition find_disposer :: "'t \<Rightarrow> 't list \<Rightarrow> ('t, 'i, 'h) memh \<Rightarrow> 't option \<times> ('t, 'i, 'h) memh" where
  "find_disposer t disposers r =
     (if List.member (disposer_cache r) t then (Some t, r)
      else if List.member disposers t then (Some t, r\<lparr>disposer_cache := t # disposer_cache r\<rparr>)
      else (None, r))"

definition disposer_dispose :: "('e, 't, 'i, 'h, 's) policy \<Rightarrow> 't \<Rightarrow> 'e \<Rightarrow> 's \<Rightarrow> 's" where
  "disposer_dispose P t e s = (if \<not> pol_trivial P t then pol_destroy P t e s else s)"

definition memh_dispose :: "('e, 't, 'i, 'h, 's) policy \<Rightarrow> 'e \<Rightarrow> 's \<Rightarrow> 's" where
  "memh_dispose P e s =
     (let (d, r) = find_disposer (pol_id P e) (pol_disposers P s) (pol_router P s);
          s1 = pol_set_router P r s
      in case d of Some t \<Rightarrow> disposer_dispose P t e s1 | None \<Rightarrow> s1)"

definition memh_route ::
  "('e, 't, 'i, 'h, 's) policy \<Rightarrow> bool \<Rightarrow> ('e \<Rightarrow> 's \<Rightarrow> 's) \<Rightarrow> 'e \<Rightarrow> 's \<Rightarrow> ('e \<times> 's) option" where
  "memh_route P clean onError e s =
     (case map_of (registered_events (pol_router P s)) (pol_id P e) of
        Some subs \<Rightarrow> semh_route P (pol_id P e) clean subs e s
      | None \<Rightarrow> let s1 = onError e s in Some (e, if clean then memh_dispose P e s1 else s1))"

definition memh_handler_route ::
  "('e, 't, 'i, 'h, 's) policy \<Rightarrow> bool \<Rightarrow> ('e \<Rightarrow> 's \<Rightarrow> 's) \<Rightarrow> 'e \<Rightarrow> 's \<Rightarrow> ('e \<times> 's) option" where
  "memh_handler_route P clean onError e s =
     (case map_of (registered_events (pol_router P s)) (pol_id P e) of
        Some subs \<Rightarrow> semh_route P (pol_id P e) clean subs e s
      | None \<Rightarrow> Some (e, onError e s))"

definition memh_subscribe ::
  "'t \<Rightarrow> 'i \<Rightarrow> 'h \<Rightarrow> ('t, 'i, 'h) memh \<Rightarrow> ('t, 'i, 'h) memh" where
  "memh_subscribe t i h r =
     (case map_of (registered_events r) t of
        None \<Rightarrow> r\<lparr>registered_events := AList.update t (semh_subscribe i h []) (registered_events r)\<rparr>
      | Some subs \<Rightarrow> r\<lparr>registered_events := AList.update t (semh_subscribe i h subs) (registered_events r)\<rparr>)"

definition memh_handler_subscribe ::
  "'t \<Rightarrow> 'i \<Rightarrow> 'h \<Rightarrow> ('t, 'i, 'h) memh \<Rightarrow> ('t, 'i, 'h) memh" where
  "memh_handler_subscribe t i h r =
     (case map_of (registered_events r) t of
        None \<Rightarrow> r\<lparr>registered_events := AList.update t (semh_handler_subscribe i h []) (registered_events r)\<rparr>
      | Some subs \<Rightarrow> r\<lparr>registered_events := AList.update t (semh_handler_subscribe i h subs) (registered_events r)\<rparr>)"

definition memh_unsubscribe_type ::
  "'t \<Rightarrow> 'i \<Rightarrow> ('t, 'i, 'h) memh \<Rightarrow> ('t, 'i, 'h) memh" where
  "memh_unsubscribe_type t i r =
     (case map_of (registered_events r) t of
        None \<Rightarrow> r
      | Some subs \<Rightarrow> r\<lparr>registered_events := AList.update t (semh_unsubscribe i subs) (registered_events r)\<rparr>)"

definition memh_unsubscribe :: "'i \<Rightarrow> ('t, 'i, 'h) memh \<Rightarrow> ('t, 'i, 'h) memh" where
  "memh_unsubscribe i r =
     r\<lparr>registered_events := map (\<lambda>(t, subs). (t, semh_unsubscribe i subs)) (registered_events r)\<rparr>"

section \<open>The subscription table\<close>

text \<open>
  The interface of a routing table, and what it gives for a sequence of operations: the table is the
  finite map from type and handler id to handler that the operations describe.
\<close>

definition memh_lookup :: "('t, 'i, 'h) memh \<Rightarrow> 't \<Rightarrow> 'i \<Rightarrow> 'h option" where
  "memh_lookup r t i = (case map_of (registered_events r) t of None \<Rightarrow> None | Some subs \<Rightarrow> map_of subs i)"

datatype ('t, 'i, 'h) table_op = Subscribe 't 'i 'h | Unsubscribe_type 't 'i | Unsubscribe 'i

fun table_spec :: "('t, 'i, 'h) table_op \<Rightarrow> ('t \<Rightarrow> 'i \<Rightarrow> 'h option) \<Rightarrow> ('t \<Rightarrow> 'i \<Rightarrow> 'h option)" where
  "table_spec (Subscribe t i h) m = m(t := (m t)(i := Some h))"
| "table_spec (Unsubscribe_type t i) m = m(t := (m t)(i := None))"
| "table_spec (Unsubscribe i) m = (\<lambda>t. (m t)(i := None))"

locale subscription_table =
  fixes find :: "'r \<Rightarrow> 't \<Rightarrow> 'i \<Rightarrow> 'h option"
    and subscr :: "'t \<Rightarrow> 'i \<Rightarrow> 'h \<Rightarrow> 'r \<Rightarrow> 'r"
    and unsubscr_type :: "'t \<Rightarrow> 'i \<Rightarrow> 'r \<Rightarrow> 'r"
    and unsubscr :: "'i \<Rightarrow> 'r \<Rightarrow> 'r"
  assumes subscr_law: "find (subscr t i h r) = table_spec (Subscribe t i h) (find r)"
    and unsubscr_type_law: "find (unsubscr_type t i r) = table_spec (Unsubscribe_type t i) (find r)"
    and unsubscr_law: "find (unsubscr i r) = table_spec (Unsubscribe i) (find r)"
begin

fun step :: "('t, 'i, 'h) table_op \<Rightarrow> 'r \<Rightarrow> 'r" where
  "step (Subscribe t i h) r = subscr t i h r"
| "step (Unsubscribe_type t i) r = unsubscr_type t i r"
| "step (Unsubscribe i) r = unsubscr i r"

lemma run_spec: "find (fold step ops r) = fold table_spec ops (find r)"
proof (induction ops arbitrary: r)
  case (Cons op ops)
  have "find (step op r) = table_spec op (find r)"
    by (cases op) (simp_all only: step.simps subscr_law unsubscr_type_law unsubscr_law)
  then show ?case using Cons by simp
qed simp

lemma stays_unsubscribed:
  assumes "\<forall>op \<in> set ops. \<forall>t h. op \<noteq> Subscribe t i h"
  shows "find (fold step ops (unsubscr i r)) t i = None"
proof -
  have "fold table_spec ops m t i = None" if "\<forall>t. m t i = None" for m :: "'t \<Rightarrow> 'i \<Rightarrow> 'h option"
    using assms that
  proof (induction ops arbitrary: m)
    case (Cons op ops)
    then show ?case by (cases op) (auto intro!: Cons.IH)
  qed simp
  from this [of "find (unsubscr i r)"] show ?thesis by (simp add: run_spec unsubscr_law)
qed

end

lemma map_of_map_values: "map_of (map (\<lambda>(t, x). (t, f x)) xs) t = map_option f (map_of xs t)"
  by (induction xs) auto

lemmas table_defs = memh_lookup_def memh_subscribe_def memh_handler_subscribe_def memh_unsubscribe_type_def
  memh_unsubscribe_def semh_subscribe_def semh_handler_subscribe_def semh_unsubscribe_def

interpretation memh_table: subscription_table memh_lookup memh_subscribe memh_unsubscribe_type memh_unsubscribe
  by unfold_locales
    (auto simp: table_defs update_conv' delete_conv' map_of_map_values fun_eq_iff split: option.splits)

interpretation memh_handler_table: subscription_table memh_lookup memh_handler_subscribe memh_unsubscribe_type
    memh_unsubscribe
  by unfold_locales
    (auto simp: table_defs update_conv' delete_conv' map_of_map_values fun_eq_iff split: option.splits)

lemma memh_lookup_new: "memh_lookup memh_new = (\<lambda>t i. None)"
  by (simp add: fun_eq_iff memh_lookup_def memh_new_def)

text \<open>C11. Subscribing and unsubscribing refine a finite map: after any sequence of \<open>subscribe\<close>,
  \<open>unsubscribe<T>\<close> and \<open>unsubscribe\<close>, both the router for one handler class and the router for any
  class find, for each event type and destination, the handler the finite map describes; in
  particular an actor that was unsubscribed is not found again under any type until it subscribes.\<close>

theorem routers_refine_table:
  "memh_lookup (fold memh_table.step ops memh_new) = fold table_spec ops (\<lambda>t i. None) \<and>
   memh_lookup (fold memh_handler_table.step ops memh_new) = fold table_spec ops (\<lambda>t i. None) \<and>
   ((\<forall>op \<in> set ops'. \<forall>t h. op \<noteq> Subscribe t i h) \<longrightarrow>
      memh_lookup (fold memh_table.step ops' (memh_unsubscribe i r)) t i = None)"
  unfolding memh_table.run_spec [of ops memh_new] memh_handler_table.run_spec [of ops memh_new] memh_lookup_new
  using memh_table.stays_unsubscribed [of ops' i r t] by simp

theorem routers_refine_table_witness:
  "memh_lookup (fold memh_table.step [Subscribe 2 7 True, Unsubscribe_type (1::nat) (7::nat)]
     (memh_unsubscribe 8 memh_new)) 2 8 = None"
  using routers_refine_table [of "[]" "[Subscribe 2 7 True, Unsubscribe_type (1::nat) (7::nat)]" 8 memh_new 2]
  by fastforce

section \<open>Dispatch\<close>

text \<open>
  The reference for a broadcast: the handlers one after the other, whatever they do to the table.
  \<open>snap_ok\<close> states the vector operations on the snapshots and that a handler leaves the snapshots of
  the dispatches that are under way as they are; the route functions have that property themselves.
\<close>

fun invoke_all ::
  "('e, 't, 'i, 'h, 's) policy \<Rightarrow> 't \<Rightarrow> 'h list \<Rightarrow> 'e \<Rightarrow> 's \<Rightarrow> ('e \<times> 's) option" where
  "invoke_all P t [] e s = Some (e, s)"
| "invoke_all P t (h # hs) e s = do { (e1, s1) \<leftarrow> invoke P t h e s; invoke_all P t hs e1 s1 }"

definition snap_ok :: "('e, 't, 'i, 'h, 's) policy \<Rightarrow> bool" where
  "snap_ok P \<longleftrightarrow>
     (\<forall>t v s. pol_snap P t (pol_set_snap P t v s) = v) \<and>
     (\<forall>t t' v s. t \<noteq> t' \<longrightarrow> pol_snap P t' (pol_set_snap P t v s) = pol_snap P t' s) \<and>
     (\<forall>t h e s e' s'. pol_on P t h e s = Some (e', s') \<longrightarrow> (\<forall>t'. pol_snap P t' s' = pol_snap P t' s)) \<and>
     (\<forall>t e s t'. pol_snap P t' (pol_destroy P t e s) = pol_snap P t' s)"

lemma snap_okD:
  assumes "snap_ok P"
  shows "pol_snap P t (pol_set_snap P t v s) = v"
    "t \<noteq> t' \<Longrightarrow> pol_snap P t' (pol_set_snap P t v s) = pol_snap P t' s"
    "pol_on P t h e s = Some (e', s') \<Longrightarrow> pol_snap P t' s' = pol_snap P t' s"
    "pol_snap P t' (pol_destroy P t e s) = pol_snap P t' s"
  using assms unfolding snap_ok_def by blast+

lemma invoke_snap:
  "snap_ok P \<Longrightarrow> invoke P t h e s = Some (e', s') \<Longrightarrow> pol_snap P t' s' = pol_snap P t' s"
  using snap_okD(3) by (fastforce simp: invoke_def split: if_splits)

lemma invoke_all_snap:
  "snap_ok P \<Longrightarrow> invoke_all P t hs e s = Some (e', s') \<Longrightarrow> pol_snap P t' s' = pol_snap P t' s"
proof (induction P t hs e s rule: invoke_all.induct)
  case (2 P t h hs e s)
  then show ?case using invoke_snap by (fastforce split: Option.bind_splits)
qed simp

lemma policy_dispose_snap: "snap_ok P \<Longrightarrow> pol_snap P t' (policy_dispose P t e s) = pol_snap P t' s"
  by (simp add: policy_dispose_def snap_okD)

lemma bcast_loop_invoke_all:
  assumes "snap_ok P" "pol_snap P t s = pre @ hs" "i = length pre" "n = length hs"
  shows "bcast_loop P t i n e s = invoke_all P t hs e s"
  using assms(2-4)
proof (induction hs arbitrary: pre i n e s)
  case (Cons h hs)
  then obtain m where n: "n = Suc m" "m = length hs" by auto
  have at: "pol_snap P t s ! i = h" "i < length (pol_snap P t s)" using Cons.prems by (auto simp: nth_append)
  show ?case
  proof (cases "invoke P t h e s")
    case None
    then show ?thesis using n at by simp
  next
    case (Some es)
    obtain e1 s1 where es: "es = (e1, s1)" by fastforce
    have "pol_snap P t s1 = (pre @ [h]) @ hs"
      using invoke_snap [OF assms(1)] Some es Cons.prems(1) by simp
    from Cons.IH [OF this, of "i + 1" m e1] n Cons.prems(2) show ?thesis using Some es at by simp
  qed
qed simp

lemma semh_route_broadcast:
  assumes "snap_ok P" "pol_broadcast P (pol_dest P e)" "hs = map snd (pol_iter P subs)"
  shows "semh_route P t clean subs e s =
     (case invoke_all P t hs e (pol_set_snap P t (pol_snap P t s @ hs) s) of
        None \<Rightarrow> None
      | Some (e1, s1) \<Rightarrow> let s2 = pol_set_snap P t (pol_snap P t s) s1
          in Some (e1, if clean then policy_dispose P t e1 s2 else s2))"
proof -
  let ?s0 = "pol_set_snap P t (pol_snap P t s @ hs) s"
  have s0: "pol_snap P t ?s0 = pol_snap P t s @ hs" using snap_okD(1) [OF assms(1)] .
  have "length (pol_snap P t s @ hs) - length (pol_snap P t s) = length hs" by simp
  with bcast_loop_invoke_all [OF assms(1) s0 refl refl, of e]
  have loop: "bcast_loop P t (length (pol_snap P t s)) (length (pol_snap P t s @ hs) - length (pol_snap P t s)) e ?s0
      = invoke_all P t hs e ?s0" by simp
  show ?thesis
  proof (cases "invoke_all P t hs e ?s0")
    case None
    then show ?thesis using assms(2,3) loop by (simp add: semh_route_def Let_def)
  next
    case (Some es)
    obtain e1 s1 where es: "es = (e1, s1)" by fastforce
    have "pol_snap P t s1 = pol_snap P t s @ hs" using invoke_all_snap [OF assms(1)] Some es s0 by simp
    then show ?thesis using assms(2,3) loop Some es by (simp add: semh_route_def Let_def)
  qed
qed

lemma semh_route_snap:
  assumes ok: "snap_ok P" and r: "semh_route P t clean subs e s = Some (e', s')"
  shows "pol_snap P t' s' = pol_snap P t' s"
proof (cases "pol_broadcast P (pol_dest P e)")
  case True
  let ?hs = "map snd (pol_iter P subs)"
  obtain e1 s1 where 1: "invoke_all P t ?hs e (pol_set_snap P t (pol_snap P t s @ ?hs) s) = Some (e1, s1)"
    and s': "s' = (let s2 = pol_set_snap P t (pol_snap P t s) s1 in if clean then policy_dispose P t e1 s2 else s2)"
    using r unfolding semh_route_broadcast [OF ok True refl] by (auto simp: Let_def split: option.splits)
  show ?thesis
    using s' invoke_all_snap [OF ok 1, of t'] snap_okD(1,2) [OF ok]
    by (cases "t' = t") (auto simp: Let_def policy_dispose_snap [OF ok])
next
  case False
  then show ?thesis
    using r by (auto simp: semh_route_def Let_def policy_dispose_snap [OF ok] split: option.splits Option.bind_splits
        dest: invoke_snap [OF ok])
qed

text \<open>
  The disposer memo: a router's cache holds only registered types, so \<open>find_disposer\<close> finds exactly
  the registered ones, and a later registration is not hidden by an earlier miss.
\<close>

definition cache_ok :: "('e, 't, 'i, 'h, 's) policy \<Rightarrow> 's \<Rightarrow> bool" where
  "cache_ok P s \<longleftrightarrow> set (disposer_cache (pol_router P s)) \<subseteq> set (pol_disposers P s)"

lemma find_disposer_correct:
  assumes "set (disposer_cache r) \<subseteq> set ds" "find_disposer t ds r = (d, r')"
  shows "d = (if t \<in> set ds then Some t else None)" "registered_events r' = registered_events r"
    "set (disposer_cache r') \<subseteq> set ds"
  using assms by (auto simp: find_disposer_def split: if_splits)

lemma memh_dispose_correct:
  assumes "cache_ok P s"
  shows "\<exists>r. registered_events r = registered_events (pol_router P s) \<and>
     set (disposer_cache r) \<subseteq> set (pol_disposers P s) \<and>
     memh_dispose P e s =
       (if pol_id P e \<in> set (pol_disposers P s) \<and> \<not> pol_trivial P (pol_id P e)
        then pol_destroy P (pol_id P e) e (pol_set_router P r s) else pol_set_router P r s)"
proof -
  obtain d r where dr: "find_disposer (pol_id P e) (pol_disposers P s) (pol_router P s) = (d, r)" by fastforce
  note c = find_disposer_correct [OF assms [unfolded cache_ok_def] dr]
  show ?thesis using c by (intro exI [of _ r]) (simp add: memh_dispose_def dr disposer_dispose_def)
qed

text \<open>C7. Dispatch through the router for any handler class. A broadcast runs exactly the handlers
  that are subscribed to the event's type when it starts, one after the other, each of them skipped
  only if its actor is dead when its turn comes, whatever the handlers subscribe or unsubscribe
  meanwhile, and restores the thread's snapshot buffer; a unicast event runs the handler of its
  destination, if any. Afterwards, in both cases, the payload is destroyed once if it needs
  destruction and the event was not sent on (its \<open>alive\<close> bit is clear), and not otherwise.\<close>

theorem route_dispatch:
  assumes "snap_ok P" and subs: "map_of (registered_events (pol_router P s)) (pol_id P e) = Some subs"
    and hs: "hs = (if pol_broadcast P (pol_dest P e) then map snd (pol_iter P subs)
       else case map_of subs (pol_dest P e) of Some h \<Rightarrow> [h] | None \<Rightarrow> [])"
    and start: "start = (if pol_broadcast P (pol_dest P e)
       then pol_set_snap P (pol_id P e) (pol_snap P (pol_id P e) s @ hs) s else s)"
  shows "memh_route P True onError e s =
     (case invoke_all P (pol_id P e) hs e start of
        None \<Rightarrow> None
      | Some (e1, s1) \<Rightarrow>
          let s2 = (if pol_broadcast P (pol_dest P e) then pol_set_snap P (pol_id P e) (pol_snap P (pol_id P e) s) s1 else s1)
          in Some (e1, if \<not> pol_trivial P (pol_id P e) \<and> \<not> (pol_has_alive P \<and> pol_event_alive P e1)
                       then pol_destroy P (pol_id P e) e1 s2 else s2)) \<and>
     (\<forall>e1 s1 t. memh_route P True onError e s = Some (e1, s1) \<longrightarrow> pol_snap P t s1 = pol_snap P t s)"
proof (intro conjI allI impI)
  show "pol_snap P t s1 = pol_snap P t s" if "memh_route P True onError e s = Some (e1, s1)" for e1 s1 t
    using semh_route_snap [OF assms(1)] that subs by (simp add: memh_route_def)
  have disp: "policy_dispose P t e1 s2 = (if \<not> pol_trivial P t \<and> \<not> (pol_has_alive P \<and> pol_event_alive P e1)
      then pol_destroy P t e1 s2 else s2)" for t e1 s2 by (simp add: policy_dispose_def)
  show "memh_route P True onError e s =
     (case invoke_all P (pol_id P e) hs e start of
        None \<Rightarrow> None
      | Some (e1, s1) \<Rightarrow>
          let s2 = (if pol_broadcast P (pol_dest P e) then pol_set_snap P (pol_id P e) (pol_snap P (pol_id P e) s) s1 else s1)
          in Some (e1, if \<not> pol_trivial P (pol_id P e) \<and> \<not> (pol_has_alive P \<and> pol_event_alive P e1)
                       then pol_destroy P (pol_id P e) e1 s2 else s2))"
  proof (cases "pol_broadcast P (pol_dest P e)")
    case True
    then show ?thesis
      using semh_route_broadcast [OF assms(1) True] hs start subs
      by (simp add: memh_route_def Let_def disp split: option.splits)
  next
    case False
    then show ?thesis
      using hs start subs
      by (auto simp: memh_route_def semh_route_def Let_def disp split: option.splits Option.bind_splits)
  qed
qed


text \<open>A concrete instance: the state is the snapshots, the router and a log of handler runs.\<close>

definition demo_policy :: "(nat \<times> nat, nat, nat, nat, (nat \<Rightarrow> nat list) \<times> (nat, nat, nat) memh \<times> (nat \<times> nat) list) policy" where
  "demo_policy =
     \<lparr>pol_id = fst, pol_dest = snd, pol_broadcast = (\<lambda>i. i = 9), pol_has_alive = True, pol_event_alive = (\<lambda>e. False),
      pol_handler_alive = (\<lambda>h s. h \<noteq> 4),
      pol_on = (\<lambda>t h e (sn, r, l). Some (e, sn, memh_unsubscribe 3 r, l @ [(t, h)])),
      pol_trivial = (\<lambda>t. t \<noteq> 1), pol_destroy = (\<lambda>t e (sn, r, l). (sn, r, l @ [(t, 100)])), pol_iter = rev,
      pol_snap = (\<lambda>t s. fst s t), pol_set_snap = (\<lambda>t v (sn, r, l). (sn(t := v), r, l)),
      pol_router = (\<lambda>s. fst (snd s)), pol_set_router = (\<lambda>r (sn, r0, l). (sn, r, l)), pol_disposers = (\<lambda>s. [1, 2])\<rparr>"

lemma demo_policy_ok: "snap_ok demo_policy"
  by (auto simp: snap_ok_def demo_policy_def)

theorem route_dispatch_witness:
  "\<exists>r. memh_route demo_policy True (\<lambda>e s. s) (1, 9)
       (\<lambda>t. [], \<lparr>registered_events = [(1, [(3, 3), (4, 4), (5, 5)])], disposer_cache = []\<rparr>, []) =
     Some ((1, 9), (\<lambda>t. []), r, [(1, 5), (1, 3), (1, 100)])"
  using route_dispatch [OF demo_policy_ok, of "(\<lambda>t. [], \<lparr>registered_events = [(1, [(3, 3), (4, 4), (5, 5)])], disposer_cache = []\<rparr>, [])"
      "(1, 9)" "[(3, 3), (4, 4), (5, 5)]" "[5, 4, 3]" _ "\<lambda>e s. s"]
  by (simp add: demo_policy_def invoke_def fun_upd_def cong: if_cong)


text \<open>The routers for a single handler: an unknown type is an exception, a known one is dispatched.\<close>

lemma mesh_route_correct:
  assumes "types = fold mesh_subscribe ts (mesh_unsubscribe_all old)"
  shows "mesh_route P clean h types e s =
     (if pol_id P e \<in> set ts then map_option Returned (sesh_route P (pol_id P e) clean h e s) else Some Out_of_range)"
proof -
  have "set (fold mesh_subscribe ts acc) = set ts \<union> set acc" for acc
    by (induction ts arbitrary: acc) (auto simp: mesh_subscribe_def)
  then have "set types = set ts" by (simp add: assms mesh_unsubscribe_all_def)
  then show ?thesis
    by (auto simp: mesh_route_def map_option_case split: option.splits Option.bind_splits)
qed

lemma mesh_unsubscribed_throws:
  "pol_id P e = t \<Longrightarrow> mesh_route P clean h (mesh_unsubscribe t types) e s = Some Out_of_range"
  by (simp add: mesh_route_def mesh_unsubscribe_def)

end
