(* ===== verification/Engine.thy ===== *)
theory Engine
  imports Event Mpsc_Ring
begin

text \<open>
  \<open>SharedCoreCommunication\<close> (\<open>src/qb/core/Main.h\<close>, \<open>src/qb/core/Main.cpp\<close>): the mailboxes of the cores,
  each a multi-producer ring of event buckets with one producer slot per core, and the flags by which
  the cores announce that they stopped. A null mailbox pointer is \<^const>\<open>None\<close> in the table; using
  it, like an index outside a table, makes an operation \<^const>\<open>None\<close>.
\<close>

section \<open>Mailboxes\<close>

definition MaxRingEvents :: size_t where
  "MaxRingEvents = 65535 div BUCKET_BYTES"

lemma MaxRingEvents_val [simp]: "MaxRingEvents = 1023"
  by (simp add: MaxRingEvents_def)

text \<open>
  A mailbox: the ring, the configured latency in nanoseconds and the number of times the condition
  variable was notified. \<open>mailbox_wait\<close> is the longest time a \<open>wait\<close> may block.
\<close>

record 'b mailbox =
  mb_producers :: "'b bucket producer list"
  mb_latency :: int
  mb_notified :: nat

definition Mailbox :: "'b bucket list \<Rightarrow> size_t \<Rightarrow> int \<Rightarrow> 'b mailbox" where
  "Mailbox slots nb_producer latency =
     \<lparr>mb_producers = mpsc_new nb_producer slots, mb_latency = latency, mb_notified = 0\<rparr>"

definition mailbox_wait :: "'b mailbox \<Rightarrow> int" where
  "mailbox_wait mb = (if mb_latency mb > 0 then mb_latency mb else 0)"

definition mailbox_notify :: "'b mailbox \<Rightarrow> 'b mailbox" where
  "mailbox_notify mb = (if mb_latency mb > 0 then mb\<lparr>mb_notified := mb_notified mb + 1\<rparr> else mb)"

definition mailbox_enqueue ::
  "size_t \<Rightarrow> 'b bucket list \<Rightarrow> size_t \<Rightarrow> 'b mailbox \<Rightarrow> (size_t \<times> 'b mailbox) option" where
  "mailbox_enqueue index t sz mb =
     do {
       (n, ps) \<leftarrow> mpsc_enqueue_at MaxRingEvents True index t sz (mb_producers mb);
       Some (n, mb\<lparr>mb_producers := ps\<rparr>)
     }"

section \<open>The shared structure\<close>

record 'b engine =
  eng_core_set :: core_set
  mail_boxes :: "'b mailbox option list"
  core_stopped :: "bool list"

definition set_from_core_initializers :: "(core_id \<times> int) list \<Rightarrow> core_bits" where
  "set_from_core_initializers inits = fold core_insert (map fst inits) 0"

fun make_mailboxes ::
  "core_set \<Rightarrow> 'b bucket list \<Rightarrow> (core_id \<times> int) list \<Rightarrow> 'b mailbox option list \<Rightarrow> 'b mailbox option list" where
  "make_mailboxes cs slots [] mbs = mbs"
| "make_mailboxes cs slots ((index, latency) # inits) mbs =
     make_mailboxes cs slots inits
       (mbs[unat (resolve cs (unat index)) := Some (Mailbox slots (getNbCore cs) latency)])"

definition SharedCoreCommunication :: "'b bucket list \<Rightarrow> (core_id \<times> int) list \<Rightarrow> 'b engine" where
  "SharedCoreCommunication slots inits =
     (let cs = CoreSet (set_from_core_initializers inits)
      in \<lparr>eng_core_set = cs,
          mail_boxes = make_mailboxes cs slots inits (replicate (getSize cs) None),
          core_stopped = replicate (getSize cs) False\<rparr>)"

definition dest_index :: "actor_id \<Rightarrow> 'b engine \<Rightarrow> nat" where
  "dest_index a eng = unat (resolve (eng_core_set eng) (unat (core_id a)))"

definition engine_mailbox :: "nat \<Rightarrow> 'b engine \<Rightarrow> 'b mailbox option" where
  "engine_mailbox i eng = (if i < length (mail_boxes eng) then mail_boxes eng ! i else None)"

definition set_mailbox :: "nat \<Rightarrow> 'b mailbox \<Rightarrow> 'b engine \<Rightarrow> 'b engine" where
  "set_mailbox i mb eng = eng\<lparr>mail_boxes := (mail_boxes eng)[i := Some mb]\<rparr>"

definition engine_send :: "size_t \<Rightarrow> 'b event \<Rightarrow> 'b engine \<Rightarrow> (bool \<times> 'b engine) option" where
  "engine_send source_index ev eng =
     do {
       let d = dest_index (b_dest (hd ev)) eng;
       mb \<leftarrow> engine_mailbox d eng;
       (n, mb1) \<leftarrow> mailbox_enqueue source_index ev (unat (bucket_size (hd ev))) mb;
       if n \<noteq> 0 then Some (True, set_mailbox d (mailbox_notify mb1) eng)
       else Some (False, set_mailbox d mb1 eng)
     }"

definition getMailBox :: "actor_id \<Rightarrow> 'b engine \<Rightarrow> 'b mailbox option" where
  "getMailBox a eng = engine_mailbox (dest_index a eng) eng"

definition engine_notify :: "actor_id \<Rightarrow> 'b engine \<Rightarrow> 'b engine option" where
  "engine_notify a eng =
     do { mb \<leftarrow> getMailBox a eng; Some (set_mailbox (dest_index a eng) (mailbox_notify mb) eng) }"

definition mark_core_stopped :: "size_t \<Rightarrow> 'b engine \<Rightarrow> 'b engine option" where
  "mark_core_stopped i eng =
     (if i < length (core_stopped eng) then Some (eng\<lparr>core_stopped := (core_stopped eng)[i := True]\<rparr>) else None)"

definition is_core_stopped :: "size_t \<Rightarrow> 'b engine \<Rightarrow> bool option" where
  "is_core_stopped i eng = (if i < length (core_stopped eng) then Some (core_stopped eng ! i) else None)"

definition engine_getNbCore :: "'b engine \<Rightarrow> core_id" where
  "engine_getNbCore eng = word_of_nat (getNbCore (eng_core_set eng))"

section \<open>Walking a batch of buckets\<close>

text \<open>
  The loop that hands the events of a contiguous batch to a disposer, one after the other, and stops at
  a zero \<open>bucket_size\<close>. The same stride drives the receiving and the flushing loops.
\<close>

function dispose_walk :: "('b event \<Rightarrow> 's \<Rightarrow> 's) \<Rightarrow> 'b bucket list \<Rightarrow> 's \<Rightarrow> 's" where
  "dispose_walk disp bs s =
     (if bs = [] then s
      else let bsz = unat (bucket_size (hd bs))
           in if bsz = 0 then s else dispose_walk disp (drop bsz bs) (disp (take bsz bs) s))"
  by pat_completeness auto
termination
  by (relation "measure (\<lambda>(disp, bs, s). length bs)") auto

declare dispose_walk.simps [simp del]

fun dispose_mailboxes ::
  "('b event \<Rightarrow> 's \<Rightarrow> 's) \<Rightarrow> 'b bucket list \<Rightarrow> 'b mailbox option list \<Rightarrow> 's \<Rightarrow> ('b mailbox option list \<times> 's) option" where
  "dispose_mailboxes disp scratch [] s = Some ([], s)"
| "dispose_mailboxes disp scratch (None # mbs) s =
     do { (mbs1, s1) \<leftarrow> dispose_mailboxes disp scratch mbs s; Some (None # mbs1, s1) }"
| "dispose_mailboxes disp scratch (Some mb # mbs) s =
     do {
       (n, s1, scratch1, ps) \<leftarrow>
         mpsc_consume_all_copy MaxRingEvents (\<lambda>st buffer. dispose_walk disp buffer st) s scratch MaxRingEvents (mb_producers mb);
       (mbs1, s2) \<leftarrow> dispose_mailboxes disp scratch1 mbs s1;
       Some (Some (mb\<lparr>mb_producers := ps\<rparr>) # mbs1, s2)
     }"

definition dispose_residual_mailbox_events ::
  "('b event \<Rightarrow> 's \<Rightarrow> 's) \<Rightarrow> 'b bucket list \<Rightarrow> 'b engine \<Rightarrow> 's \<Rightarrow> ('b engine \<times> 's) option" where
  "dispose_residual_mailbox_events disp scratch eng s =
     do { (mbs, s1) \<leftarrow> dispose_mailboxes disp scratch (mail_boxes eng) s; Some (eng\<lparr>mail_boxes := mbs\<rparr>, s1) }"

section \<open>Aligned batches\<close>

text \<open>A batch is aligned when it is a sequence of whole well-formed events, \<open>events_of\<close> it.\<close>

definition aligned :: "'b bucket list \<Rightarrow> bool" where
  "aligned bs \<longleftrightarrow> (\<exists>es. bs = concat es \<and> (\<forall>e \<in> set es. event_wf e))"

function events_of :: "'b bucket list \<Rightarrow> 'b event list" where
  "events_of bs =
     (if bs = [] then []
      else let bsz = unat (bucket_size (hd bs))
           in if bsz = 0 then [] else take bsz bs # events_of (drop bsz bs))"
  by pat_completeness auto
termination
  by (relation "measure length") auto

declare events_of.simps [simp del]

lemma event_wfD:
  assumes "event_wf e"
  shows "e \<noteq> []" "unat (bucket_size (hd e)) = length e" "unat (bucket_size (hd (e @ xs))) = length e"
    "take (length e) (e @ xs) = e" "drop (length e) (e @ xs) = xs"
  using assms by (auto simp: event_wf_def)

lemma events_of_Nil [simp]: "events_of [] = []"
  by (simp add: events_of.simps)

lemma events_of_append:
  assumes "event_wf e"
  shows "events_of (e @ bs) = e # events_of bs"
  using event_wfD [OF assms] by (subst events_of.simps) (simp add: Let_def)

lemma events_of_concat: "\<forall>e \<in> set es. event_wf e \<Longrightarrow> events_of (concat es) = es"
  by (induction es) (simp_all add: events_of_append)

lemma alignedD:
  assumes "aligned bs"
  shows "concat (events_of bs) = bs" "\<forall>e \<in> set (events_of bs). event_wf e"
  using assms by (auto simp: aligned_def events_of_concat)

lemma aligned_Nil [simp]: "aligned []"
  by (auto simp: aligned_def intro: exI [of _ "[]"])

lemma aligned_event: "event_wf e \<Longrightarrow> aligned e"
  by (auto simp: aligned_def intro: exI [of _ "[e]"])

lemma aligned_append: "aligned a \<Longrightarrow> aligned b \<Longrightarrow> aligned (a @ b)"
proof -
  assume "aligned a" "aligned b"
  then obtain x y where "a = concat x" "b = concat y" "\<forall>e \<in> set x \<union> set y. event_wf e" by (auto simp: aligned_def)
  then show ?thesis unfolding aligned_def by (intro exI [of _ "x @ y"]) auto
qed

lemma events_of_append_aligned: "aligned a \<Longrightarrow> events_of (a @ b) = events_of a @ events_of b"
proof -
  assume "aligned a"
  then obtain x where "a = concat x" "\<forall>e \<in> set x. event_wf e" by (auto simp: aligned_def)
  then show ?thesis by (induction x arbitrary: a) (simp_all add: events_of_append events_of_concat)
qed

lemma dispose_walk_aligned:
  assumes "\<forall>e \<in> set es. event_wf e"
  shows "dispose_walk disp (concat es) s = fold disp es s"
  using assms
proof (induction es arbitrary: s)
  case Nil
  then show ?case by (simp add: dispose_walk.simps)
next
  case (Cons e es)
  then show ?case
    using event_wfD [of e] by (subst dispose_walk.simps) (simp add: Let_def)
qed

lemma dispose_walk_events_of: "dispose_walk disp bs s = fold disp (events_of bs) s"
proof (induction disp bs s rule: dispose_walk.induct)
  case (1 disp bs s)
  show ?case
    using 1 by (subst dispose_walk.simps, subst events_of.simps) (simp add: Let_def)
qed

section \<open>The invariant of the shared structure\<close>

definition mailbox_inv :: "nat \<Rightarrow> 'b mailbox \<Rightarrow> bool" where
  "mailbox_inv nb mb \<longleftrightarrow> length (mb_producers mb) = nb \<and> mpsc_inv MaxRingEvents (mb_producers mb) \<and>
     (\<forall>p \<in> set (mb_producers mb). aligned (producer_list p))"

definition engine_inv :: "'b engine \<Rightarrow> bool" where
  "engine_inv eng \<longleftrightarrow> (\<exists>s. s \<noteq> 0 \<and> eng_core_set eng = CoreSet s) \<and>
     length (core_stopped eng) = length (mail_boxes eng) \<and>
     getNbCore (eng_core_set eng) \<le> length (mail_boxes eng) \<and>
     (\<forall>i < length (mail_boxes eng).
        if i < getNbCore (eng_core_set eng)
        then \<exists>mb. mail_boxes eng ! i = Some mb \<and> mailbox_inv (getNbCore (eng_core_set eng)) mb
        else mail_boxes eng ! i = None)"

abbreviation eng_cores :: "'b engine \<Rightarrow> nat" where
  "eng_cores eng \<equiv> getNbCore (eng_core_set eng)"

definition ring_at :: "nat \<Rightarrow> nat \<Rightarrow> 'b engine \<Rightarrow> 'b bucket list" where
  "ring_at d src eng =
     (case engine_mailbox d eng of Some mb \<Rightarrow> producer_list (mb_producers mb ! src) | None \<Rightarrow> [])"

lemma resolve_in_range:
  assumes "s \<noteq> (0 :: core_bits)"
  shows "unat (resolve (CoreSet s) cid) < getNbCore (CoreSet s)" "0 < getNbCore (CoreSet s)"
proof -
  have nb: "getNbCore (CoreSet s) = length (core_members s)"
    by (simp add: getNbCore_def CoreSet_def core_size_def)
  obtain i where "bit s i" using assms by (metis bit_0_eq bit_word_eqI bot_apply bot_bool_def)
  then have i: "bit s i" "i < MaxCores" using bit_imp_le_length [of s i] by simp_all
  then show pos: "0 < getNbCore (CoreSet s)" unfolding nb by (auto simp: filter_empty_conv)
  show "unat (resolve (CoreSet s) cid) < getNbCore (CoreSet s)"
  proof (cases "cid < MaxCores \<and> bit s cid")
    case True
    then have "cid \<in> set (core_members s)" by auto
    then obtain k where "k < length (core_members s)" "core_members s ! k = cid" unfolding in_set_conv_nth by blast
    then show ?thesis using resolve_nth [of k s] nb by simp
  next
    case False
    then have "resolve (CoreSet s) cid = 0" by (intro resolve_non_member) auto
    then show ?thesis using pos by simp
  qed
qed

lemma engine_dest:
  assumes "engine_inv eng"
  shows "dest_index a eng < eng_cores eng"
  using assms resolve_in_range unfolding engine_inv_def dest_index_def by metis

lemma engine_mailboxD:
  assumes "engine_inv eng" "d < eng_cores eng"
  shows "\<exists>mb. engine_mailbox d eng = Some mb \<and> mailbox_inv (eng_cores eng) mb"
proof -
  have "d < length (mail_boxes eng)" using assms unfolding engine_inv_def by linarith
  then show ?thesis using assms unfolding engine_inv_def engine_mailbox_def by auto
qed

lemma engine_inv_set:
  assumes inv: "engine_inv eng" and d: "d < eng_cores eng" and mb: "mailbox_inv (eng_cores eng) mb"
  shows "engine_inv (set_mailbox d mb eng)"
  using assms by (auto simp: engine_inv_def set_mailbox_def nth_list_update)

lemma set_mailbox_simps [simp]:
  "eng_core_set (set_mailbox d mb eng) = eng_core_set eng" "core_stopped (set_mailbox d mb eng) = core_stopped eng"
  "length (mail_boxes (set_mailbox d mb eng)) = length (mail_boxes eng)"
  "dest_index a (set_mailbox d mb eng) = dest_index a eng"
  by (simp_all add: set_mailbox_def dest_index_def)

lemma engine_mailbox_set:
  "d < length (mail_boxes eng) \<Longrightarrow>
     engine_mailbox i (set_mailbox d mb eng) = (if i = d then Some mb else engine_mailbox i eng)"
  by (simp add: engine_mailbox_def set_mailbox_def nth_list_update)

lemma engine_cores_le: "engine_inv eng \<Longrightarrow> eng_cores eng \<le> length (mail_boxes eng)"
  by (simp add: engine_inv_def)

lemma mailbox_notify_simps [simp]:
  "mb_producers (mailbox_notify mb) = mb_producers mb" "mb_latency (mailbox_notify mb) = mb_latency mb"
  "mailbox_inv n (mailbox_notify mb) = mailbox_inv n mb"
  by (simp_all add: mailbox_notify_def mailbox_inv_def)

lemma mailbox_enqueue_correct:
  assumes inv: "mailbox_inv nb mb" and i: "i < nb" and ev: "event_wf ev"
    and fits: "fits \<longleftrightarrow> length (producer_list (mb_producers mb ! i)) + length ev \<le> MaxRingEvents"
  shows "\<exists>mb'. mailbox_enqueue i ev (length ev) mb = Some (if fits then length ev else 0, mb') \<and>
     mailbox_inv nb mb' \<and> mb_latency mb' = mb_latency mb \<and> mb_notified mb' = mb_notified mb \<and>
     (\<forall>j < nb. producer_list (mb_producers mb' ! j) =
        producer_list (mb_producers mb ! j) @ (if j = i \<and> fits then ev else []))"
proof -
  let ?ps = "mb_producers mb"
  have m: "mpsc_inv MaxRingEvents ?ps" and len: "length ?ps = nb" using inv by (simp_all add: mailbox_inv_def)
  have il: "i < length ?ps" using i len by simp
  have k: "(if fits then length ev else 0) = accepted True (length ev) (producer_room MaxRingEvents (?ps ! i))"
    using producer.cap_law [OF mpsc_inv_nth [OF m il]] fits by (auto simp: accepted_def)
  obtain p where e: "mpsc_enqueue_at MaxRingEvents True i ev (length ev) ?ps = Some (if fits then length ev else 0, ?ps[i := p])"
    and pl: "producer_list p = producer_list (?ps ! i) @ take (if fits then length ev else 0) ev"
    and m': "mpsc_inv MaxRingEvents (?ps[i := p])"
    using mpsc_enqueue_at_correct [OF m il order.refl k] by auto
  have "aligned (producer_list p)"
    unfolding pl using inv il aligned_event [OF ev] by (intro aligned_append) (auto simp: mailbox_inv_def)
  then have al: "\<forall>q \<in> set (?ps[i := p]). aligned (producer_list q)"
    using inv by (auto simp: mailbox_inv_def dest: set_update_subset_insert [THEN subsetD])
  show ?thesis
    using e pl m' al len il by (auto simp: mailbox_enqueue_def mailbox_inv_def nth_list_update)
qed

lemma engine_send_correct:
  assumes inv: "engine_inv eng" and src: "src < eng_cores eng" and ev: "event_wf ev"
    and d: "d = dest_index (b_dest (hd ev)) eng"
    and fits: "fits \<longleftrightarrow> length (ring_at d src eng) + length ev \<le> MaxRingEvents"
  shows "\<exists>eng'. engine_send src ev eng = Some (fits, eng') \<and> engine_inv eng' \<and>
     eng_core_set eng' = eng_core_set eng \<and> core_stopped eng' = core_stopped eng \<and>
     (\<forall>i j. i < eng_cores eng \<longrightarrow> j < eng_cores eng \<longrightarrow>
        ring_at i j eng' = ring_at i j eng @ (if i = d \<and> j = src \<and> fits then ev else []))"
proof -
  have dl: "d < eng_cores eng" using engine_dest [OF inv] d by simp
  then have dm: "d < length (mail_boxes eng)" using engine_cores_le [OF inv] by linarith
  obtain mb where mb: "engine_mailbox d eng = Some mb" "mailbox_inv (eng_cores eng) mb"
    using engine_mailboxD [OF inv dl] by blast
  have f: "fits \<longleftrightarrow> length (producer_list (mb_producers mb ! src)) + length ev \<le> MaxRingEvents"
    using fits mb(1) by (simp add: ring_at_def)
  obtain mb' where e: "mailbox_enqueue src ev (length ev) mb = Some (if fits then length ev else 0, mb')"
    and mb': "mailbox_inv (eng_cores eng) mb'"
      "\<forall>j < eng_cores eng. producer_list (mb_producers mb' ! j) =
        producer_list (mb_producers mb ! j) @ (if j = src \<and> fits then ev else [])"
    using mailbox_enqueue_correct [OF mb(2) src ev f] by blast
  have ne: "length ev \<noteq> 0" "unat (bucket_size (hd ev)) = length ev" using event_wfD [OF ev] by simp_all
  let ?mb = "if fits then mailbox_notify mb' else mb'"
  have "engine_send src ev eng = Some (fits, set_mailbox d ?mb eng)"
    using e mb(1) ne d by (simp add: engine_send_def Let_def)
  moreover have "engine_inv (set_mailbox d ?mb eng)" using engine_inv_set [OF inv dl] mb'(1) by simp
  moreover have "ring_at i j (set_mailbox d ?mb eng) = ring_at i j eng @ (if i = d \<and> j = src \<and> fits then ev else [])"
    if "i < eng_cores eng" "j < eng_cores eng" for i j
    using that mb mb'(2) by (auto simp: ring_at_def engine_mailbox_set [OF dm])
  ultimately show ?thesis by (intro exI [of _ "set_mailbox d ?mb eng"]) simp
qed

lemma engine_notify_correct:
  assumes inv: "engine_inv eng"
  shows "\<exists>eng'. engine_notify a eng = Some eng' \<and> engine_inv eng' \<and> eng_core_set eng' = eng_core_set eng"
proof -
  note d = engine_dest [OF inv, of a]
  obtain mb where "engine_mailbox (dest_index a eng) eng = Some mb" "mailbox_inv (eng_cores eng) mb"
    using engine_mailboxD [OF inv d] by blast
  then show ?thesis using engine_inv_set [OF inv d] by (simp add: engine_notify_def getMailBox_def)
qed

section \<open>Construction, sending and the final sweep\<close>

lemma make_mailboxes_nth:
  assumes "distinct (map fst inits)" "\<forall>(c, l) \<in> set inits. unat c < MaxCores \<and> bit s (unat c)"
    "cs = CoreSet s" "i < length mbs" "getNbCore cs \<le> length mbs"
  shows "length (make_mailboxes cs slots inits mbs) = length mbs \<and>
    make_mailboxes cs slots inits mbs ! i =
       (case find (\<lambda>(c, l). unat (resolve cs (unat c)) = i) inits of
          Some (c, l) \<Rightarrow> Some (Mailbox slots (getNbCore cs) l) | None \<Rightarrow> mbs ! i)"
  using assms
proof (induction inits arbitrary: mbs)
  case (Cons cl inits)
  obtain c l where cl: "cl = (c, l)" by fastforce
  let ?mbs = "mbs[unat (resolve cs (unat c)) := Some (Mailbox slots (getNbCore cs) l)]"
  have inj: "resolve cs (unat c) \<noteq> resolve cs (unat c')" if "(c', l') \<in> set inits" for c' l'
  proof -
    have "c \<noteq> c'" using Cons.prems(1) that cl by (auto simp: rev_image_eqI)
    then have "unat c \<noteq> unat c'" by (simp add: word_unat_eq_iff)
    moreover have "unat c \<in> {x. x < MaxCores \<and> bit s x}" "unat c' \<in> {x. x < MaxCores \<and> bit s x}"
      using Cons.prems(2) that cl by auto
    ultimately have "unat (resolve cs (unat c)) \<noteq> unat (resolve cs (unat c'))"
      using core_set_dense_bij [of s] Cons.prems(3) by (auto simp: bij_betw_def inj_on_def)
    then show ?thesis by metis
  qed
  have s0: "s \<noteq> 0" using Cons.prems(2) cl by auto
  have r: "unat (resolve cs (unat c)) < length mbs"
    using resolve_in_range(1) [OF s0, of "unat c"] Cons.prems(3,5) by simp
  have IH: "length (make_mailboxes cs slots inits ?mbs) = length ?mbs"
    "make_mailboxes cs slots inits ?mbs ! i =
       (case find (\<lambda>(c, l). unat (resolve cs (unat c)) = i) inits of
          Some (c, l) \<Rightarrow> Some (Mailbox slots (getNbCore cs) l) | None \<Rightarrow> ?mbs ! i)"
    using Cons.IH [of ?mbs] Cons.prems cl by auto
  have "find (\<lambda>(c, l). unat (resolve cs (unat c)) = i) inits = None" if "unat (resolve cs (unat c)) = i"
    using inj that unfolding find_None_iff by (fastforce simp: word_unat_eq_iff)
  then show ?case using IH cl r by (auto simp: nth_list_update split: option.splits)
qed simp

lemma set_from_core_initializers_bit:
  "bit (set_from_core_initializers inits) i \<longleftrightarrow> i < MaxCores \<and> (\<exists>(c, l) \<in> set inits. unat c = i)"
proof -
  have "bit (fold core_insert cs acc) i \<longleftrightarrow> bit acc i \<or> i < MaxCores \<and> (\<exists>c \<in> set cs. unat c = i)" for cs acc
    by (induction cs arbitrary: acc) (auto simp: core_insert_bit)
  then show ?thesis by (force simp: set_from_core_initializers_def)
qed

lemma getNbCore_le_getSize: "getNbCore (CoreSet s) \<le> getSize (CoreSet s)"
proof -
  let ?m = "max_core_loop s MaxCores"
  have "set (core_members s) \<subseteq> {..<?m}"
    using max_core_loop_correct [of MaxCores s]
    by (auto simp: less_Suc_eq_le intro!: Max_ge)
  from card_mono [OF _ this] show ?thesis
    by (simp add: getNbCore_def getSize_def CoreSet_def core_size_def distinct_card [symmetric])
qed

lemma Mailbox_inv:
  assumes "length slots = MaxRingEvents + 1"
  shows "mailbox_inv nb (Mailbox slots nb l)" "\<forall>p \<in> set (mb_producers (Mailbox slots nb l)). producer_list p = []"
proof -
  have new: "mpsc_inv 1023 (mpsc_new nb slots)" "mpsc_pending (mpsc_new nb slots) = []"
    using mpsc_new_inv [of slots 1023 nb] assms by simp_all
  then show e: "\<forall>p \<in> set (mb_producers (Mailbox slots nb l)). producer_list p = []"
    by (simp add: Mailbox_def mpsc_pending_def)
  show "mailbox_inv nb (Mailbox slots nb l)"
    using new(1) e by (auto simp: Mailbox_def mailbox_inv_def) (simp add: mpsc_new_def)
qed

lemma SharedCoreCommunication_inv:
  assumes d: "distinct (map fst inits)" and r: "\<forall>(c, l) \<in> set inits. unat c < MaxCores" and ne: "inits \<noteq> []"
    and st: "length slots = MaxRingEvents + 1"
  shows "engine_inv (SharedCoreCommunication slots inits) \<and>
    eng_cores (SharedCoreCommunication slots inits) = length inits \<and>
    (\<forall>i < length inits. \<forall>j < length inits. ring_at i j (SharedCoreCommunication slots inits) = [])"
proof -
  define s where "s = set_from_core_initializers inits"
  let ?cs = "CoreSet s" and ?eng = "SharedCoreCommunication slots inits"
  have bits: "bit s i \<longleftrightarrow> i < MaxCores \<and> i \<in> unat ` fst ` set inits" for i
    unfolding s_def set_from_core_initializers_bit by force
  have mem: "\<forall>(c, l) \<in> set inits. unat c < MaxCores \<and> bit s (unat c)" using r bits by (fastforce intro: rev_image_eqI)
  have s0: "s \<noteq> 0" using mem ne by (cases inits) auto
  have nb: "getNbCore ?cs = length inits"
  proof -
    have "{i. i < MaxCores \<and> bit s i} = unat ` fst ` set inits" using bits r by auto
    moreover have "inj_on unat (fst ` set inits)" by (simp add: inj_on_def word_unat_eq_iff)
    ultimately have "card {i. i < MaxCores \<and> bit s i} = length inits"
      using d by (metis card_image distinct_card length_map list.set_map)
    then show ?thesis using bij_betw_same_card [OF core_set_dense_bij [of s]] by simp
  qed
  have le: "getNbCore ?cs \<le> getSize ?cs" by (rule getNbCore_le_getSize)
  let ?mbs = "make_mailboxes ?cs slots inits (replicate (getSize ?cs) None)"
  have eng: "eng_core_set ?eng = ?cs" "mail_boxes ?eng = ?mbs" "core_stopped ?eng = replicate (getSize ?cs) False"
    by (simp_all add: SharedCoreCommunication_def s_def Let_def)
  have nth: "length ?mbs = getSize ?cs \<and>
      ?mbs ! i = (case find (\<lambda>(c, l). unat (resolve ?cs (unat c)) = i) inits of
          Some (c, l) \<Rightarrow> Some (Mailbox slots (getNbCore ?cs) l) | None \<Rightarrow> None)" if "i < getSize ?cs" for i
    using make_mailboxes_nth [OF d mem refl, of i "replicate (getSize ?cs) None" slots] that le by (simp split: option.splits)
  have pos: "0 < getNbCore ?cs" by (rule resolve_in_range(2) [OF s0])
  then have len: "length ?mbs = getSize ?cs" using nth [of 0] le by linarith
  have used: "\<exists>l. ?mbs ! i = Some (Mailbox slots (getNbCore ?cs) l)" if i: "i < getNbCore ?cs" for i
  proof -
    have "i \<in> (\<lambda>cid. unat (resolve ?cs cid)) ` {cid. cid < MaxCores \<and> bit s cid}"
      using bij_betw_imp_surj_on [OF core_set_dense_bij [of s]] i by simp
    then obtain x where x: "x < MaxCores" "bit s x" "unat (resolve ?cs x) = i" by auto
    then obtain c l where "(c, l) \<in> set inits" "unat c = x" using bits by auto
    then have "find (\<lambda>(c, l). unat (resolve ?cs (unat c)) = i) inits \<noteq> None"
      using x(3) unfolding find_None_iff by auto
    then show ?thesis using nth [of i] i le by (auto split: option.splits)
  qed
  have unused: "?mbs ! i = None" if i: "\<not> i < getNbCore ?cs" "i < getSize ?cs" for i
  proof -
    have "find (\<lambda>(c, l). unat (resolve ?cs (unat c)) = i) inits = None"
      using resolve_in_range(1) [OF s0] i(1) unfolding find_None_iff by auto
    then show ?thesis using nth [OF i(2)] by simp
  qed
  have "if i < getNbCore ?cs then \<exists>mb. ?mbs ! i = Some mb \<and> mailbox_inv (getNbCore ?cs) mb else ?mbs ! i = None"
    if "i < length ?mbs" for i
    using used [of i] unused [of i] that len Mailbox_inv(1) [OF st] by auto
  then have inv: "engine_inv ?eng" unfolding engine_inv_def eng using s0 le len by auto
  have "ring_at i j ?eng = []" if ij: "i < length inits" "j < length inits" for i j
  proof -
    obtain l where "engine_mailbox i ?eng = Some (Mailbox slots (getNbCore ?cs) l)"
      using used [of i] ij nb le len by (auto simp: engine_mailbox_def eng)
    moreover have "mb_producers (Mailbox slots (getNbCore ?cs) l) ! j \<in> set (mb_producers (Mailbox slots (getNbCore ?cs) l))"
      using ij nb by (intro nth_mem) (simp add: Mailbox_def mpsc_new_def)
    ultimately show ?thesis using Mailbox_inv(2) [OF st] by (simp add: ring_at_def)
  qed
  then show ?thesis using inv nb eng(1) by simp
qed


definition demo_bucket :: "core_id \<Rightarrow> 16 word \<Rightarrow> nat bucket" where
  "demo_bucket c n = \<lparr>b_state = header_default, bucket_size = n, b_id = 7, b_dest = ActorId 3 c, b_source = ActorId 2 0,
     b_forward = ActorId 0 0, b_service_event_id = 0, b_body = 0\<rparr>"

lemma demo_event_wf: "event_wf [demo_bucket c 1]"
  by (simp add: event_wf_def demo_bucket_def)

definition demo_engine :: "nat engine" where
  "demo_engine = SharedCoreCommunication (replicate 1024 (demo_bucket 0 1)) [(2, 0), (9, 5)]"

lemma demo_engine_inv:
  "engine_inv demo_engine" "eng_cores demo_engine = 2" "i < 2 \<Longrightarrow> j < 2 \<Longrightarrow> ring_at i j demo_engine = []"
  "dest_index a demo_engine < 2"
proof -
  let ?i = "[(2, 0), (9, 5)] :: (core_id \<times> int) list"
  have "engine_inv demo_engine \<and> eng_cores demo_engine = length ?i \<and>
      (\<forall>i < length ?i. \<forall>j < length ?i. ring_at i j demo_engine = [])"
    unfolding demo_engine_def by (rule SharedCoreCommunication_inv) (auto)
  then show inv: "engine_inv demo_engine" "eng_cores demo_engine = 2"
    "i < 2 \<Longrightarrow> j < 2 \<Longrightarrow> ring_at i j demo_engine = []" by simp_all
  show "dest_index a demo_engine < 2" using engine_dest [OF inv(1), of a] inv(2) by simp
qed


definition mailbox_events :: "'b mailbox option \<Rightarrow> 'b event list" where
  "mailbox_events mbo =
     (case mbo of None \<Rightarrow> [] | Some mb \<Rightarrow> concat (map (events_of \<circ> producer_list) (mb_producers mb)))"

definition residual_events :: "'b engine \<Rightarrow> 'b event list" where
  "residual_events eng = concat (map mailbox_events (mail_boxes eng))"

definition box_drained :: "nat \<Rightarrow> 'b mailbox option \<Rightarrow> 'b mailbox option \<Rightarrow> bool" where
  "box_drained nb x y \<longleftrightarrow> (case x of None \<Rightarrow> y = None
     | Some mb \<Rightarrow> \<exists>ps. y = Some (mb\<lparr>mb_producers := ps\<rparr>) \<and> mailbox_inv nb (mb\<lparr>mb_producers := ps\<rparr>) \<and>
         (\<forall>p \<in> set ps. producer_list p = []))"

lemma length_concat_bound: "\<forall>x \<in> set xs. length (f x) \<le> k \<Longrightarrow> length (concat (map f xs)) \<le> length xs * k"
  by (induction xs) auto

lemma fold_walk_batches:
  "fold (\<lambda>b s. dispose_walk disp b s) (filter (\<lambda>b. b \<noteq> []) bss) st = fold disp (concat (map events_of bss)) st"
  by (induction bss arbitrary: st) (auto simp: dispose_walk_events_of)

lemma mailbox_drained:
  assumes inv: "mailbox_inv nb mb" and nb: "nb \<le> 256" and sc: "length scratch = MaxRingEvents"
  shows "\<exists>n scratch' ps. mpsc_consume_all_copy MaxRingEvents (\<lambda>st buffer. dispose_walk disp buffer st) s scratch MaxRingEvents
       (mb_producers mb) =
       Some (n, fold disp (concat (map (events_of \<circ> producer_list) (mb_producers mb))) s, scratch', ps) \<and>
     length scratch' = MaxRingEvents \<and> mailbox_inv nb (mb\<lparr>mb_producers := ps\<rparr>) \<and> (\<forall>p \<in> set ps. producer_list p = [])"
proof -
  let ?ps = "mb_producers mb" and ?f = "\<lambda>st buffer. dispose_walk disp buffer st"
  have m: "\<forall>q \<in> set ?ps. producer_inv 1023 q" using inv by (simp add: mailbox_inv_def mpsc_inv_def)
  have short: "length (producer_list q) \<le> 1023" if "q \<in> set ?ps" for q
    using producer.cap_law [of 1023 q] m that by fastforce
  then have whole: "map (\<lambda>q. take 1023 (producer_list q)) ?ps = map producer_list ?ps" by simp
  have "length (concat (map producer_list ?ps)) \<le> length ?ps * 1023"
    using short by (intro length_concat_bound) auto
  then have bound: "0 + length (concat (map (\<lambda>q. take 1023 (producer_list q)) ?ps)) < size_mod"
    unfolding whole using nb inv by (simp add: mailbox_inv_def)
  from producer.drain_chunks_correct [OF m _ bound, of scratch ?f s] sc
  obtain scratch' ps where d: "drain_chunks (producer_dequeue_func 1023 ?f) 1023 0 s scratch ?ps =
      Some (length (concat (map producer_list ?ps)), fold disp (concat (map (events_of \<circ> producer_list) ?ps)) s, scratch', ps)"
    and sc': "length scratch' = 1023"
    and r: "list_all2 (\<lambda>q q'. producer_inv 1023 q' \<and> producer_list q' = drop 1023 (producer_list q)) ?ps ps"
    unfolding whole by (auto simp: fold_walk_batches)
  have "producer_inv 1023 q \<and> producer_list q = []" if "q \<in> set ps" for q
    using r that short by (force simp: list_all2_conv_all_nth in_set_conv_nth)
  moreover have "length ps = nb" using r inv by (simp add: list_all2_lengthD [symmetric] mailbox_inv_def)
  ultimately show ?thesis using d sc' by (auto simp: mpsc_consume_all_copy_def mailbox_inv_def mpsc_inv_def)
qed

lemma dispose_mailboxes_correct:
  assumes "\<forall>mb. Some mb \<in> set mbs \<longrightarrow> mailbox_inv nb mb" "nb \<le> 256" "length scratch = MaxRingEvents"
  shows "\<exists>mbs'. dispose_mailboxes disp scratch mbs s = Some (mbs', fold disp (concat (map mailbox_events mbs)) s) \<and>
     list_all2 (box_drained nb) mbs mbs'"
  using assms
proof (induction mbs arbitrary: scratch s)
  case (Cons mbo mbs)
  show ?case
  proof (cases mbo)
    case None
    then show ?thesis
      using Cons.IH [of scratch s] Cons.prems by (auto simp: mailbox_events_def box_drained_def)
  next
    case (Some mb)
    then have "mailbox_inv nb mb" using Cons.prems by simp
    from mailbox_drained [OF this Cons.prems(2,3), of disp s] obtain n scratch' ps where
      d: "mpsc_consume_all_copy MaxRingEvents (\<lambda>st buffer. dispose_walk disp buffer st) s scratch MaxRingEvents
         (mb_producers mb) = Some (n, fold disp (mailbox_events mbo) s, scratch', ps)"
      and ps: "length scratch' = MaxRingEvents" "box_drained nb mbo (Some (mb\<lparr>mb_producers := ps\<rparr>))"
      using Some by (auto simp: mailbox_events_def box_drained_def)
    have inv: "\<forall>mb. Some mb \<in> set mbs \<longrightarrow> mailbox_inv nb mb" using Cons.prems(1) by simp
    obtain mbs' where "dispose_mailboxes disp scratch' mbs (fold disp (mailbox_events mbo) s) =
        Some (mbs', fold disp (concat (map mailbox_events mbs)) (fold disp (mailbox_events mbo) s))"
      "list_all2 (box_drained nb) mbs mbs'"
      using Cons.IH [OF inv Cons.prems(2) ps(1)] by blast
    then show ?thesis using d ps(2) Some by simp
  qed
qed simp

lemma residual_sweep:
  assumes inv: "engine_inv eng" and sc: "length scratch = MaxRingEvents"
  shows "\<exists>eng'. dispose_residual_mailbox_events disp scratch eng s = Some (eng', fold disp (residual_events eng) s) \<and>
     engine_inv eng' \<and> residual_events eng' = [] \<and> (\<forall>e \<in> set (residual_events eng). event_wf e) \<and>
     eng_core_set eng' = eng_core_set eng \<and> (\<forall>i j. j < eng_cores eng \<longrightarrow> ring_at i j eng' = []) \<and>
     (\<exists>eng''. dispose_residual_mailbox_events disp scratch eng' s = Some (eng'', s))"
proof -
  let ?nb = "eng_cores eng"
  have boxes: "\<forall>mb. Some mb \<in> set (mail_boxes eng) \<longrightarrow> mailbox_inv ?nb mb"
    using inv by (auto simp: engine_inv_def in_set_conv_nth split: if_splits)
  obtain bits where "eng_core_set eng = CoreSet bits" using inv by (auto simp: engine_inv_def)
  then have nb: "?nb \<le> 256"
    using core_members_bounds(3) [of bits] by (simp add: getNbCore_def CoreSet_def core_size_def)
  obtain mbs' where d: "dispose_mailboxes disp scratch (mail_boxes eng) s = Some (mbs', fold disp (residual_events eng) s)"
    and R: "list_all2 (box_drained ?nb) (mail_boxes eng) mbs'"
    using dispose_mailboxes_correct [OF boxes nb sc, of disp s] unfolding residual_events_def by blast
  let ?eng = "eng\<lparr>mail_boxes := mbs'\<rparr>"
  have len: "length mbs' = length (mail_boxes eng)" using list_all2_lengthD [OF R] by simp
  have at: "box_drained ?nb (mail_boxes eng ! i) (mbs' ! i)" if "i < length (mail_boxes eng)" for i
    using list_all2_nthD [OF R that] .
  have "if i < ?nb then \<exists>mb. mbs' ! i = Some mb \<and> mailbox_inv ?nb mb else mbs' ! i = None"
    if "i < length (mail_boxes eng)" for i
    using at [OF that] inv that by (auto simp: box_drained_def engine_inv_def split: if_splits option.splits)
  then have inv': "engine_inv ?eng" using inv len by (simp add: engine_inv_def)
  have drained: "mailbox_inv ?nb mb \<and> (\<forall>p \<in> set (mb_producers mb). producer_list p = [])"
    if m: "Some mb \<in> set mbs'" for mb
  proof -
    obtain i where "i < length (mail_boxes eng)" "mbs' ! i = Some mb"
      using m len unfolding in_set_conv_nth by metis
    then show ?thesis using at [of i] by (auto simp: box_drained_def split: option.splits)
  qed
  then have empty: "residual_events ?eng = []"
    by (fastforce simp: residual_events_def mailbox_events_def split: option.splits)
  have wf: "\<forall>e \<in> set (residual_events eng). event_wf e"
    using boxes alignedD(2) by (fastforce simp: residual_events_def mailbox_events_def mailbox_inv_def split: option.splits)
  have boxes': "\<forall>mb. Some mb \<in> set mbs' \<longrightarrow> mailbox_inv ?nb mb" using drained by blast
  have "\<exists>mbs''. dispose_mailboxes disp scratch mbs' s = Some (mbs'', fold disp (residual_events ?eng) s)"
    using dispose_mailboxes_correct [OF boxes' nb sc, of disp s] by (auto simp: residual_events_def)
  then have "\<exists>eng''. dispose_residual_mailbox_events disp scratch ?eng s = Some (eng'', s)"
    unfolding empty by (auto simp: dispose_residual_mailbox_events_def)
  moreover have "ring_at i j ?eng = []" if j: "j < ?nb" for i j
  proof (cases "engine_mailbox i ?eng")
    case (Some mb)
    then have m: "Some mb \<in> set mbs'" by (auto simp: engine_mailbox_def in_set_conv_nth split: if_splits)
    have "length (mb_producers mb) = ?nb" using drained [OF m] by (simp add: mailbox_inv_def)
    then have "mb_producers mb ! j \<in> set (mb_producers mb)" using j by simp
    then show ?thesis using drained [OF m] Some by (simp add: ring_at_def)
  qed (simp add: ring_at_def)
  ultimately show ?thesis using d inv' empty wf unfolding dispose_residual_mailbox_events_def by auto
qed

text \<open>C17. The final sweep of \<open>Main::join\<close> hands every event that is still in some mailbox to the disposer
  exactly once, whole and in ring order, also where an event wraps around the end of its ring, and
  leaves every ring empty, so that a second sweep disposes nothing.\<close>

theorem residual_events_disposed_once:
  assumes inv: "engine_inv eng" and sc: "length scratch = MaxRingEvents"
  shows "\<exists>eng'. dispose_residual_mailbox_events disp scratch eng s = Some (eng', fold disp (residual_events eng) s) \<and>
     engine_inv eng' \<and> residual_events eng' = [] \<and> (\<forall>e \<in> set (residual_events eng). event_wf e) \<and>
     (\<exists>eng''. dispose_residual_mailbox_events disp scratch eng' s = Some (eng'', s))"
  using residual_sweep [OF assms, of disp s] by (elim exE conjE, intro exI conjI) assumption+

theorem residual_events_disposed_once_witness:
  "\<exists>eng1 eng2. engine_send 1 [demo_bucket 9 1] demo_engine = Some (True, eng1) \<and>
   dispose_residual_mailbox_events (#) (replicate 1023 (demo_bucket 0 1)) eng1 [] = Some (eng2, rev (residual_events eng1))"
proof -
  obtain eng1 where 1: "engine_send 1 [demo_bucket 9 1] demo_engine = Some (True, eng1)" "engine_inv eng1"
  proof -
    define d where "d = dest_index (b_dest (hd [demo_bucket 9 1])) demo_engine"
    have "True \<longleftrightarrow> length (ring_at d 1 demo_engine) + length [demo_bucket 9 1] \<le> MaxRingEvents"
      using demo_engine_inv(3) [of d 1] demo_engine_inv(4) by (simp add: d_def)
    moreover have "1 < eng_cores demo_engine" using demo_engine_inv(2) by simp
    ultimately show ?thesis using engine_send_correct [OF demo_engine_inv(1) _ demo_event_wf d_def] that by blast
  qed
  have "length (replicate 1023 (demo_bucket 0 1)) = MaxRingEvents" by simp
  from residual_events_disposed_once [OF 1(2) this, of "(#)" "[]"]
  show ?thesis using 1(1) by (auto simp: fold_Cons_rev)
qed

end
