(* ===== verification/Virtual_Core.thy ===== *)
theory Virtual_Core
  imports Engine Router Service_Id_Pool
begin

text \<open>
  The state of a \<open>VirtualCore\<close>, its event API and the flushing of its outbound pipes
  (\<open>src/qb/core/VirtualCore.h\<close>, \<open>src/qb/core/VirtualCore.cpp\<close>). A core owns one pipe per core of the
  engine, the router, the actors and their bookkeeping; the engine is shared with the other cores, whose
  steps between two accesses of this core are a parameter. An operation is \<^const>\<open>None\<close> where the
  C++ behaviour is undefined and where an exception leaves a \<open>noexcept\<close> function, which ends the
  process.
\<close>

section \<open>State\<close>

text \<open>
  Actors are objects at addresses; the router and the callback list hold addresses, the actor map
  owns the objects. \<open>init_state\<close> is what the core can observe of a coroutine \<open>task<bool>\<close>, and
  \<open>act_owner\<close> the \<open>this\<close> pointer in its frame.
\<close>

type_synonym addr = nat

datatype init_state = Null_task | Suspended | Returned_bool bool | Threw

definition init_done :: "init_state \<Rightarrow> bool" where
  "init_done i \<longleftrightarrow> (case i of Suspended \<Rightarrow> False | Null_task \<Rightarrow> True | Returned_bool b \<Rightarrow> True | Threw \<Rightarrow> True)"

record actor =
  ac_id :: actor_id
  ac_type :: event_id
  ac_alive :: bool
  ac_activated :: bool
  ac_scope :: bool
  ac_cancelled :: bool

record 'b activation =
  act_owner :: addr
  act_init :: init_state
  act_deadline :: "64 word"
  act_cancelling :: bool
  act_stash :: "'b event list"

record metrics =
  m_spin_credit :: "64 word"
  m_event_io :: "64 word"
  m_event_received :: "64 word"
  m_bucket_received :: "64 word"
  m_event_sent_try :: "64 word"
  m_event_sent :: "64 word"
  m_bucket_sent :: "64 word"
  m_nanotimer :: "64 word"

text \<open>
  \<open>vc_log\<close> is a history of what happened to events, kept for the statements of the theorems; the code
  has no such member. Its entry \<open>Dangling\<close> records an access through a pointer of the core to a destroyed
  actor, \<open>Unusable_id\<close> that an actor was constructed without an id of its own. \<open>vc_ask_slots\<close>, \<open>vc_ask_types\<close> and \<open>vc_ask_counter\<close> are the thread-local registry of pending asks
  (\<open>src/qb/core/Actor.cpp\<close>), which belongs to the thread that runs the core. \<open>vc_tick\<close> counts the accesses to the engine.
\<close>

datatype 'b entry =
    Sent "'b event" | Oversize "'b event" | Best_effort_drop "'b event" | Zero_width "'b bucket list"
  | Destroyed event_id "'b event" | Handled addr event_id "'b event" | Stashed "'b event" | Replied_to "'b event"
  | Unroutable "'b event" | Deleted addr actor_id | Ticked addr | Unusable_id addr actor_id | Dangling addr

text \<open>A pending \<open>ask\<close>: who waits, whether it is resolved and whether it has a delivery function.\<close>

record ask_slot =
  slot_owner :: actor_id
  slot_done :: bool
  slot_deliver :: bool

record 'b core =
  vc_index :: core_id
  vc_resolved :: nat
  vc_engine :: "'b engine"
  vc_pipes :: "'b bucket pipe list"
  vc_mono :: "'b bucket pipe"
  vc_event_buffer :: "'b bucket list"
  vc_router :: "(event_id, actor_id, addr) memh"
  vc_snap :: "event_id \<Rightarrow> addr list"
  vc_disposers :: "event_id list"
  vc_ids :: service_id_pool
  vc_nb_service :: service_id
  vc_heap :: "(addr \<times> actor) list"
  vc_fresh :: addr
  vc_actors :: "(actor_id \<times> addr) list"
  vc_callbacks :: "(actor_id \<times> addr) list"
  vc_callback_list :: "(addr \<times> actor_id) list"
  vc_to_remove :: "actor_id list"
  vc_activating :: "(actor_id \<times> 'b activation) list"
  vc_dying :: "actor_id list"
  vc_metrics :: metrics
  vc_loop_count :: "64 word"
  vc_last_generation :: "32 word"
  vc_stop_delivered :: bool
  vc_ask_slots :: "(64 word \<times> ask_slot) list"
  vc_ask_types :: "event_id list"
  vc_ask_counter :: "64 word"
  vc_tick :: nat
  vc_log :: "'b entry list"

text \<open>
  The environment: the allocator of the pipes, what the other threads do to the engine before this
  core's \<open>n\<close>-th access, and which event types have a trivial destructor.
\<close>

record 'b env =
  en_alloc :: "'b bucket allocator"
  en_peers :: "nat \<Rightarrow> 'b engine \<Rightarrow> 'b engine"
  en_trivial :: "event_id \<Rightarrow> bool"

definition peers_ok :: "('b, 'z) env_scheme \<Rightarrow> bool" where
  "peers_ok E \<longleftrightarrow> (\<forall>n eng. engine_inv eng \<longrightarrow>
     engine_inv (en_peers E n eng) \<and> eng_core_set (en_peers E n eng) = eng_core_set eng)"

definition logged :: "'b entry \<Rightarrow> 'b core \<Rightarrow> 'b core" where
  "logged x c = c\<lparr>vc_log := vc_log c @ [x]\<rparr>"

section \<open>Disposal\<close>

text \<open>The router of a core, on the state of the core; handlers are the argument \<open>on\<close>.\<close>

definition core_policy ::
  "('b, 'z) env_scheme \<Rightarrow> ((actor_id \<times> addr) list \<Rightarrow> (actor_id \<times> addr) list) \<Rightarrow>
     (event_id \<Rightarrow> addr \<Rightarrow> 'b event \<Rightarrow> 'b core \<Rightarrow> ('b event \<times> 'b core) option) \<Rightarrow>
     ('b event, event_id, actor_id, addr, 'b core) policy" where
  "core_policy E iter on =
     \<lparr>pol_id = (\<lambda>e. ev_getID (hd e)), pol_dest = (\<lambda>e. ev_getDestination (hd e)), pol_broadcast = is_broadcast,
      pol_has_alive = True, pol_event_alive = (\<lambda>e. ev_is_alive (hd e)),
      pol_handler_alive = (\<lambda>h c. case map_of (vc_heap c) h of Some a \<Rightarrow> ac_alive a | None \<Rightarrow> True),
      pol_on = on, pol_trivial = en_trivial E, pol_destroy = (\<lambda>t e. logged (Destroyed t e)),
      pol_iter = iter, pol_snap = (\<lambda>t c. vc_snap c t),
      pol_set_snap = (\<lambda>t v c. c\<lparr>vc_snap := (vc_snap c)(t := v)\<rparr>),
      pol_router = vc_router, pol_set_router = (\<lambda>r c. c\<lparr>vc_router := r\<rparr>), pol_disposers = vc_disposers\<rparr>"

definition core_dispose :: "('b, 'z) env_scheme \<Rightarrow> 'b event \<Rightarrow> 'b core \<Rightarrow> 'b core" where
  "core_dispose E ev c = memh_dispose (core_policy E id (\<lambda>_ _ _ _. None)) ev c"

section \<open>Event API\<close>

definition no_throw :: "('r, 'p) alloc_result option \<Rightarrow> ('r \<times> 'p) option" where
  "no_throw r = (case r of Some (Ok i p) \<Rightarrow> Some (i, p) | Some (Bad_alloc p) \<Rightarrow> None | None \<Rightarrow> None)"

definition getPipe :: "core_id \<Rightarrow> 'b core \<Rightarrow> nat option" where
  "getPipe core c =
     (let i = unat (resolve (eng_core_set (vc_engine c)) (unat core))
      in if i < length (vc_pipes c) then Some i else None)"

definition set_pipe :: "nat \<Rightarrow> 'b bucket pipe \<Rightarrow> 'b core \<Rightarrow> 'b core" where
  "set_pipe i p c = c\<lparr>vc_pipes := (vc_pipes c)[i := p]\<rparr>"

definition core_try_send :: "('b, 'z) env_scheme \<Rightarrow> 'b event \<Rightarrow> 'b core \<Rightarrow> (bool \<times> 'b core) option" where
  "core_try_send E ev c =
     do {
       let eng = en_peers E (vc_tick c) (vc_engine c);
       (ok, eng1) \<leftarrow> engine_send (vc_resolved c) ev eng;
       Some (ok, c\<lparr>vc_engine := eng1, vc_tick := vc_tick c + 1\<rparr>)
     }"

definition core_recycle :: "('b, 'z) env_scheme \<Rightarrow> 'b event \<Rightarrow> 'b core \<Rightarrow> 'b core option" where
  "core_recycle E ev c =
     do {
       i \<leftarrow> getPipe (core_id (b_dest (hd ev))) c;
       (at, p) \<leftarrow> no_throw (recycle (en_alloc E) (take (unat (bucket_size (hd ev))) ev) (vc_pipes c ! i));
       Some (set_pipe i p c)
     }"

definition core_send_event :: "('b, 'z) env_scheme \<Rightarrow> 'b event \<Rightarrow> 'b core \<Rightarrow> 'b core option" where
  "core_send_event E ev c =
     (if core_id (b_dest (hd ev)) = vc_index c then core_recycle E ev c
      else do {
        (ok, c1) \<leftarrow> core_try_send E ev c;
        if \<not> ok then core_recycle E ev c1 else Some c1
      })"

definition core_push_event :: "('b, 'z) env_scheme \<Rightarrow> 'b event \<Rightarrow> 'b core \<Rightarrow> 'b core option" where
  "core_push_event E ev c =
     do {
       i \<leftarrow> getPipe (core_id (b_dest (hd ev))) c;
       (at, p) \<leftarrow> no_throw (recycle_back (en_alloc E) (take (unat (bucket_size (hd ev))) ev) (vc_pipes c ! i));
       Some (set_pipe i p c)
     }"

definition core_reply :: "('b, 'z) env_scheme \<Rightarrow> 'b event \<Rightarrow> 'b core \<Rightarrow> ('b event \<times> 'b core) option" where
  "core_reply E ev c =
     do {
       let ev1 = on_head (\<lambda>e. set_alive True (e\<lparr>b_dest := b_source e, b_source := b_dest e\<rparr>)) ev;
       c1 \<leftarrow> core_send_event E ev1 c;
       Some (ev1, c1)
     }"

definition core_forward :: "('b, 'z) env_scheme \<Rightarrow> actor_id \<Rightarrow> 'b event \<Rightarrow> 'b core \<Rightarrow> ('b event \<times> 'b core) option" where
  "core_forward E dest ev c =
     do {
       let ev1 = on_head (\<lambda>e. set_alive True (e\<lparr>b_dest := dest\<rparr>)) ev;
       c1 \<leftarrow> core_send_event E ev1 c;
       Some (ev1, c1)
     }"

text \<open>
  \<open>push<T>\<close> and \<open>send<T>\<close>: the object the constructor builds is an argument, a list of
  \<open>getItemSize<T, EventBucket>()\<close> buckets.
\<close>

definition core_ensure_disposer :: "('b, 'z) env_scheme \<Rightarrow> event_id \<Rightarrow> 'b core \<Rightarrow> 'b core" where
  "core_ensure_disposer E tid c = c\<lparr>vc_disposers := ensure_disposer (en_trivial E tid) tid (vc_disposers c)\<rparr>"

definition core_push ::
  "('b, 'z) env_scheme \<Rightarrow> event_id \<Rightarrow> bool \<Rightarrow> size_t \<Rightarrow> actor_id \<Rightarrow> actor_id \<Rightarrow> 'b event \<Rightarrow> 'b core \<Rightarrow> 'b core option" where
  "core_push E tid service sizeof_T dest source obj c =
     do {
       let c1 = core_ensure_disposer E tid c;
       i \<leftarrow> getPipe (core_id dest) c1;
       r \<leftarrow> allocate_back (en_alloc E) (getItemSize sizeof_T BUCKET_BYTES) (vc_pipes c1 ! i);
       (at, p) \<leftarrow> no_throw (store (on_head (fill_event tid service sizeof_T dest source) obj) r);
       Some (set_pipe i p c1)
     }"

definition core_send ::
  "('b, 'z) env_scheme \<Rightarrow> event_id \<Rightarrow> bool \<Rightarrow> size_t \<Rightarrow> actor_id \<Rightarrow> actor_id \<Rightarrow> 'b event \<Rightarrow> 'b core \<Rightarrow> 'b core option" where
  "core_send E tid service sizeof_T dest source obj c =
     do {
       let c1 = core_ensure_disposer E tid c;
       let data = on_head (fill_event tid service sizeof_T dest source) obj;
       i \<leftarrow> getPipe (core_id dest) c1;
       r \<leftarrow> pipe_allocate (en_alloc E) (getItemSize sizeof_T BUCKET_BYTES) (vc_pipes c1 ! i);
       (at, p) \<leftarrow> no_throw (store data r);
       let c2 = set_pipe i p c1;
       if core_id dest \<noteq> vc_index c2
       then do {
         (ok, c3) \<leftarrow> core_try_send E data c2;
         Some (if ok then set_pipe i (pipe_free (unat (bucket_size (hd data))) (vc_pipes c3 ! i)) c3 else c3)
       }
       else Some c2
     }"

fun core_broadcast_loop ::
  "('b, 'z) env_scheme \<Rightarrow> event_id \<Rightarrow> bool \<Rightarrow> size_t \<Rightarrow> actor_id \<Rightarrow> 'b event \<Rightarrow> core_id list \<Rightarrow> 'b core \<Rightarrow> 'b core option" where
  "core_broadcast_loop E tid service sizeof_T source obj [] c = Some c"
| "core_broadcast_loop E tid service sizeof_T source obj (it # its) c =
     do {
       c1 \<leftarrow> core_send E tid service sizeof_T (BroadcastId (ucast it)) source obj c;
       core_broadcast_loop E tid service sizeof_T source obj its c1
     }"

definition core_broadcast ::
  "('b, 'z) env_scheme \<Rightarrow> event_id \<Rightarrow> bool \<Rightarrow> size_t \<Rightarrow> actor_id \<Rightarrow> 'b event \<Rightarrow> 'b core \<Rightarrow> 'b core option" where
  "core_broadcast E tid service sizeof_T source obj c =
     (let s = raw_set (eng_core_set (vc_engine c))
      in core_broadcast_loop E tid service sizeof_T source obj (core_iter s (core_begin s)) c)"

definition getProxyPipe :: "actor_id \<Rightarrow> actor_id \<Rightarrow> 'b core \<Rightarrow> (nat \<times> actor_id \<times> actor_id) option" where
  "getProxyPipe dest source c = do { i \<leftarrow> getPipe (core_id dest) c; Some (i, dest, source) }"

section \<open>Metrics\<close>

definition had_activity :: "metrics \<Rightarrow> bool" where
  "had_activity m \<longleftrightarrow> m_event_sent m + m_event_received m + m_event_io m + m_event_sent_try m \<noteq> 0"

definition carry_over :: "metrics \<Rightarrow> metrics" where
  "carry_over m =
     (let activity = m_event_sent m + m_event_received m + m_event_io m + m_event_sent_try m
      in \<lparr>m_spin_credit = m_spin_credit m + activity, m_event_io = 0, m_event_received = 0, m_bucket_received = 0,
          m_event_sent_try = 0, m_event_sent = 0, m_bucket_sent = 0, m_nanotimer = m_nanotimer m\<rparr>)"

definition count_try :: "'b core \<Rightarrow> 'b core" where
  "count_try c = c\<lparr>vc_metrics := (vc_metrics c)\<lparr>m_event_sent_try := m_event_sent_try (vc_metrics c) + 1\<rparr>\<rparr>"

definition count_sent :: "'b event \<Rightarrow> 'b core \<Rightarrow> 'b core" where
  "count_sent ev c =
     c\<lparr>vc_metrics := (vc_metrics c)\<lparr>m_event_sent := m_event_sent (vc_metrics c) + 1,
        m_bucket_sent := m_bucket_sent (vc_metrics c) + ucast (bucket_size (hd ev))\<rparr>\<rparr>"

definition count_received :: "'b event \<Rightarrow> 'b core \<Rightarrow> 'b core" where
  "count_received ev c =
     c\<lparr>vc_metrics := (vc_metrics c)\<lparr>m_event_received := m_event_received (vc_metrics c) + 1,
        m_bucket_received := m_bucket_received (vc_metrics c) + ucast (bucket_size (hd ev))\<rparr>\<rparr>"

section \<open>Flushing\<close>

definition kFlushSpinAttempts :: nat where
  "kFlushSpinAttempts = 64"

definition kFlushYieldAttempts :: nat where
  "kFlushYieldAttempts = 512"

abbreviation kMaxDeliverableBuckets :: size_t where
  "kMaxDeliverableBuckets \<equiv> MaxRingEvents"

text \<open>
  \<open>backoff n\<close> is the retry loop with \<open>n\<close> attempts left. \<open>flush_walk\<close> is the loop over the events of one
  pipe, \<open>cur\<close> the index of the next one; it returns the index at which it gave up, if it did.
\<close>

fun backoff :: "('b, 'z) env_scheme \<Rightarrow> nat \<Rightarrow> 'b event \<Rightarrow> 'b core \<Rightarrow> (bool \<times> 'b core) option" where
  "backoff E 0 ev c = Some (False, c)"
| "backoff E (Suc n) ev c =
     do {
       (ok, c1) \<leftarrow> core_try_send E ev (count_try c);
       if ok then Some (True, c1) else backoff E n ev c1
     }"

function flush_walk ::
  "('b, 'z) env_scheme \<Rightarrow> size_t \<Rightarrow> 'b bucket list \<Rightarrow> 'b core \<Rightarrow> (size_t option \<times> 'b core) option" where
  "flush_walk E cur bs c =
     (if bs = [] then Some (None, c)
      else let n = unat (bucket_size (hd bs)); ev = take (max n 1) bs
        in case core_try_send E ev (count_try c) of
          None \<Rightarrow> None
        | Some (ok, c1) \<Rightarrow>
            if n = 0 then (if ok then None else Some (None, logged (Zero_width bs) c1))
            else if ok then flush_walk E (cur + n) (drop n bs) (logged (Sent ev) (count_sent ev c1))
            else if n > kMaxDeliverableBuckets
            then flush_walk E (cur + n) (drop n bs) (count_sent ev (core_dispose E ev (logged (Oversize ev) c1)))
            else if ev_getQOS (hd ev) = 0
            then flush_walk E (cur + n) (drop n bs) (logged (Best_effort_drop ev) (count_sent ev c1))
            else case backoff E kFlushYieldAttempts ev c1 of
              None \<Rightarrow> None
            | Some (sent, c2) \<Rightarrow>
                if sent then flush_walk E (cur + n) (drop n bs) (logged (Sent ev) (count_sent ev c2))
                else do {
                  eng \<leftarrow> engine_notify (b_dest (hd ev)) (vc_engine c2);
                  Some (Some cur, c2\<lparr>vc_engine := eng\<rparr>)
                })"
  by pat_completeness auto
termination
  by (relation "measure (\<lambda>(E, cur, bs, c). length bs)") auto

declare flush_walk.simps [simp del]

fun flush_pipes ::
  "('b, 'z) env_scheme \<Rightarrow> nat \<Rightarrow> nat \<Rightarrow> bool \<Rightarrow> 'b core \<Rightarrow> (bool \<times> 'b core) option" where
  "flush_pipes E pipe_idx 0 any_work c = Some (any_work, c)"
| "flush_pipes E pipe_idx (Suc n) any_work c =
     (let p = vc_pipes c ! pipe_idx
      in if pipe_idx = vc_resolved c \<or> pipe_size p = 0 then flush_pipes E (pipe_idx + 1) n any_work c
         else do {
           bs \<leftarrow> mem_read (storage p) (p_begin p) (pipe_size p);
           (partial, c1) \<leftarrow> flush_walk E (p_begin p) bs c;
           let p1 = (case partial of Some cur \<Rightarrow> pipe_reset_to cur p | None \<Rightarrow> pipe_reset p);
           flush_pipes E (pipe_idx + 1) n True (set_pipe pipe_idx p1 c1)
         })"

definition flush_all :: "('b, 'z) env_scheme \<Rightarrow> 'b core \<Rightarrow> (bool \<times> 'b core) option" where
  "flush_all E c = flush_pipes E 0 (length (vc_pipes c)) False c"

text \<open>The drain of what cannot be delivered any more, at shutdown.\<close>

fun dispose_residual_pipes ::
  "('b, 'z) env_scheme \<Rightarrow> nat \<Rightarrow> nat \<Rightarrow> bool \<Rightarrow> 'b core \<Rightarrow> (bool \<times> 'b core) option" where
  "dispose_residual_pipes E pipe_idx 0 any_live c = Some (any_live, c)"
| "dispose_residual_pipes E pipe_idx (Suc n) any_live c =
     (let p = vc_pipes c ! pipe_idx
      in if pipe_idx = vc_resolved c \<or> pipe_size p = 0 then dispose_residual_pipes E (pipe_idx + 1) n any_live c
         else do {
           stopped \<leftarrow> is_core_stopped pipe_idx (vc_engine c);
           if \<not> stopped then dispose_residual_pipes E (pipe_idx + 1) n True c
           else do {
             bs \<leftarrow> mem_read (storage p) (p_begin p) (pipe_size p);
             let c1 = dispose_walk (core_dispose E) bs c;
             dispose_residual_pipes E (pipe_idx + 1) n any_live (set_pipe pipe_idx (pipe_reset p) c1)
           }
         })"

definition dispose_residual_to_stopped_cores :: "('b, 'z) env_scheme \<Rightarrow> 'b core \<Rightarrow> (bool \<times> 'b core) option" where
  "dispose_residual_to_stopped_cores E c = dispose_residual_pipes E 0 (length (vc_pipes c)) False c"

section \<open>Invariant of the transport\<close>

definition transport_inv :: "('b, 'z) env_scheme \<Rightarrow> 'b core \<Rightarrow> bool" where
  "transport_inv E c \<longleftrightarrow> allocator_ok (en_alloc E) \<and> peers_ok E \<and> engine_inv (vc_engine c) \<and>
     vc_resolved c < eng_cores (vc_engine c) \<and> length (vc_pipes c) = eng_cores (vc_engine c) \<and>
     (\<forall>p \<in> set (vc_pipes c). pipe_inv p \<and> aligned (pipe_list p)) \<and>
     set (disposer_cache (vc_router c)) \<subseteq> set (vc_disposers c)"

text \<open>What sending may change of a core: the engine, the tick, the metrics, the log and the router's memo.\<close>

definition unsent :: "'b core \<Rightarrow> 'b core" where
  "unsent c = c\<lparr>vc_engine := \<lparr>eng_core_set = eng_core_set (vc_engine c), mail_boxes = [], core_stopped = []\<rparr>, vc_tick := 0, vc_metrics := undefined, vc_log := [],
     vc_router := (vc_router c)\<lparr>disposer_cache := []\<rparr>\<rparr>"

definition same_but_sent :: "'b core \<Rightarrow> 'b core \<Rightarrow> bool" where
  "same_but_sent c c' \<longleftrightarrow> unsent c' = unsent c"

lemma same_but_sent_refl [simp]: "same_but_sent c c"
  by (simp add: same_but_sent_def)

lemma same_but_sent_trans: "same_but_sent a b \<Longrightarrow> same_but_sent b c \<Longrightarrow> same_but_sent a c"
  by (simp add: same_but_sent_def)

lemma same_but_sentD:
  assumes "same_but_sent c c'"
  shows "vc_pipes c' = vc_pipes c" "vc_resolved c' = vc_resolved c" "vc_disposers c' = vc_disposers c"
    "vc_index c' = vc_index c" "vc_actors c' = vc_actors c" "vc_heap c' = vc_heap c"
    "registered_events (vc_router c') = registered_events (vc_router c)" "vc_activating c' = vc_activating c"
    "eng_core_set (vc_engine c') = eng_core_set (vc_engine c)"
  using arg_cong [OF assms [unfolded same_but_sent_def], of "eng_core_set \<circ> vc_engine"]
    arg_cong [OF assms [unfolded same_but_sent_def], of vc_pipes]
    arg_cong [OF assms [unfolded same_but_sent_def], of vc_resolved]
    arg_cong [OF assms [unfolded same_but_sent_def], of vc_disposers]
    arg_cong [OF assms [unfolded same_but_sent_def], of vc_index]
    arg_cong [OF assms [unfolded same_but_sent_def], of vc_actors]
    arg_cong [OF assms [unfolded same_but_sent_def], of vc_heap]
    arg_cong [OF assms [unfolded same_but_sent_def], of "registered_events \<circ> vc_router"]
    arg_cong [OF assms [unfolded same_but_sent_def], of vc_activating]
  by (simp_all add: unsent_def)

lemma same_but_sent_steps [simp]:
  "same_but_sent c (count_try c)" "same_but_sent c (count_sent e c)" "same_but_sent c (logged x c)"
  by (simp_all add: same_but_sent_def unsent_def count_try_def count_sent_def logged_def)

lemma same_but_sent_absorb [simp]:
  "same_but_sent c (count_try d) = same_but_sent c d" "same_but_sent c (count_sent e d) = same_but_sent c d"
  "same_but_sent c (logged x d) = same_but_sent c d" "same_but_sent (logged x d) c = same_but_sent d c"
  "eng_core_set eng = eng_core_set (vc_engine d) \<Longrightarrow> same_but_sent c (d\<lparr>vc_engine := eng\<rparr>) = same_but_sent c d"
  "eng_core_set eng = eng_core_set (vc_engine d) \<Longrightarrow> same_but_sent c (d\<lparr>vc_engine := eng, vc_tick := t\<rparr>) = same_but_sent c d"
  "same_but_sent (count_try d) c = same_but_sent d c"
  by (simp_all add: same_but_sent_def unsent_def count_try_def count_sent_def logged_def)

lemma transport_inv_sent:
  assumes "transport_inv E c" "same_but_sent c c'" "engine_inv (vc_engine c')"
    "set (disposer_cache (vc_router c')) \<subseteq> set (vc_disposers c')"
  shows "transport_inv E c'"
  using assms(1,3-) same_but_sentD [OF assms(2)] by (simp add: transport_inv_def)

lemma count_simps [simp]:
  "vc_engine (count_try c) = vc_engine c" "vc_engine (count_sent e c) = vc_engine c" "vc_engine (logged x c) = vc_engine c"
  "vc_router (count_try c) = vc_router c" "vc_router (count_sent e c) = vc_router c" "vc_router (logged x c) = vc_router c"
  "vc_disposers (count_try c) = vc_disposers c" "vc_disposers (count_sent e c) = vc_disposers c"
  "vc_disposers (logged x c) = vc_disposers c" "vc_resolved (count_try c) = vc_resolved c"
  "vc_log (count_try c) = vc_log c" "vc_log (count_sent e c) = vc_log c" "vc_log (logged x c) = vc_log c @ [x]"
  by (simp_all add: count_try_def count_sent_def logged_def)

lemma transport_inv_steps [simp]:
  "transport_inv E (count_try c) = transport_inv E c" "transport_inv E (count_sent e c) = transport_inv E c"
  "transport_inv E (logged x c) = transport_inv E c"
  by (simp_all add: transport_inv_def count_try_def count_sent_def logged_def)

text \<open>\<open>blocked E c e\<close>: at some access of the core, the destination's ring had no room for \<open>e\<close>.\<close>

definition blocked :: "('b, 'z) env_scheme \<Rightarrow> 'b core \<Rightarrow> 'b event \<Rightarrow> bool" where
  "blocked E c e \<longleftrightarrow> (\<exists>n eng. engine_inv eng \<and> eng_core_set eng = eng_core_set (vc_engine c) \<and>
     MaxRingEvents < length (ring_at (dest_index (b_dest (hd e)) eng) (vc_resolved c) (en_peers E n eng)) + length e)"

definition in_ring :: "('b, 'z) env_scheme \<Rightarrow> 'b event \<Rightarrow> 'b core \<Rightarrow> 'b core \<Rightarrow> bool" where
  "in_ring E ev c c' \<longleftrightarrow> same_but_sent c c' \<and>
     (let d = dest_index (b_dest (hd ev)) (vc_engine c)
      in ring_at d (vc_resolved c) (vc_engine c') =
           ring_at d (vc_resolved c) (en_peers E (vc_tick c) (vc_engine c)) @ ev)"

lemma core_try_send_correct:
  assumes inv: "transport_inv E c" and ev: "event_wf ev"
  shows "\<exists>ok c'. core_try_send E ev c = Some (ok, c') \<and> transport_inv E c' \<and> same_but_sent c c' \<and>
     vc_log c' = vc_log c \<and> (kMaxDeliverableBuckets < length ev \<longrightarrow> \<not> ok) \<and> (\<not> ok \<longrightarrow> blocked E c ev) \<and>
     (ok \<longrightarrow> in_ring E ev c c')"
proof -
  let ?eng = "en_peers E (vc_tick c) (vc_engine c)"
  have p: "engine_inv ?eng" "eng_core_set ?eng = eng_core_set (vc_engine c)" "engine_inv (vc_engine c)"
    using inv by (auto simp: transport_inv_def peers_ok_def)
  have src: "vc_resolved c < eng_cores ?eng" using inv p(2) by (simp add: transport_inv_def)
  define d where "d = dest_index (b_dest (hd ev)) ?eng"
  define ok where "ok \<longleftrightarrow> length (ring_at d (vc_resolved c) ?eng) + length ev \<le> MaxRingEvents"
  obtain eng' where e: "engine_send (vc_resolved c) ev ?eng = Some (ok, eng')" "engine_inv eng'"
      "eng_core_set eng' = eng_core_set ?eng"
      "\<forall>i j. i < eng_cores ?eng \<longrightarrow> j < eng_cores ?eng \<longrightarrow>
        ring_at i j eng' = ring_at i j ?eng @ (if i = d \<and> j = vc_resolved c \<and> ok then ev else [])"
    using engine_send_correct [OF p(1) src ev d_def ok_def] by blast
  let ?c = "c\<lparr>vc_engine := eng', vc_tick := vc_tick c + 1\<rparr>"
  have s: "same_but_sent c ?c" using e(3) p(2) by simp
  have "transport_inv E ?c"
    using e(2) inv by (intro transport_inv_sent [OF inv s]) (auto simp: transport_inv_def)
  moreover have d: "d = dest_index (b_dest (hd ev)) (vc_engine c)" using p(2) by (simp add: d_def dest_index_def)
  moreover have "\<not> ok \<longrightarrow> blocked E c ev" using p(3) unfolding ok_def d blocked_def by (auto simp: not_le)
  moreover have "ok \<longrightarrow> in_ring E ev c ?c"
    using e(4) [rule_format, of d "vc_resolved c"] engine_dest [OF p(1), of "b_dest (hd ev)"] src s d
    by (simp add: in_ring_def d_def)
  ultimately show ?thesis
    using e(1) s ok_def by (intro exI [of _ ok] exI [of _ ?c]) (auto simp: core_try_send_def)
qed

lemma blocked_cong: "same_but_sent c c' \<Longrightarrow> blocked E c' = blocked E c"
  by (simp add: fun_eq_iff blocked_def same_but_sentD(2,9))

lemma backoff_correct:
  assumes "transport_inv E c" "event_wf ev"
  shows "\<exists>ok c'. backoff E n ev c = Some (ok, c') \<and> transport_inv E c' \<and> same_but_sent c c' \<and> vc_log c' = vc_log c"
  using assms(1)
proof (induction n arbitrary: c)
  case (Suc n)
  have "transport_inv E (count_try c)" using Suc.prems by simp
  from core_try_send_correct [OF this assms(2)] obtain ok c1 where
    1: "core_try_send E ev (count_try c) = Some (ok, c1)" "transport_inv E c1" "same_but_sent (count_try c) c1"
      "vc_log c1 = vc_log c" by auto
  have s: "same_but_sent c c1" using same_but_sent_trans [OF same_but_sent_steps(1) 1(3)] .
  show ?case
  proof (cases ok)
    case True
    then show ?thesis using 1 s by auto
  next
    case False
    from Suc.IH [OF 1(2)] show ?thesis using 1 False same_but_sent_trans [OF s] by fastforce
  qed
qed auto

text \<open>Disposal on a core: at most one destruction, of exactly the types with a registered disposer.\<close>

definition destructions :: "('b, 'z) env_scheme \<Rightarrow> 'b core \<Rightarrow> 'b event \<Rightarrow> 'b entry list" where
  "destructions E c ev =
     (if b_id (hd ev) \<in> set (vc_disposers c) \<and> \<not> en_trivial E (b_id (hd ev)) then [Destroyed (b_id (hd ev)) ev] else [])"

lemma core_policy_simps [simp]:
  "pol_id (core_policy E it on) = (\<lambda>e. b_id (hd e))" "pol_dest (core_policy E it on) = (\<lambda>e. b_dest (hd e))"
  "pol_broadcast (core_policy E it on) = is_broadcast" "pol_has_alive (core_policy E it on)"
  "pol_event_alive (core_policy E it on) = (\<lambda>e. ev_is_alive (hd e))"
  "pol_on (core_policy E it on) = on" "pol_trivial (core_policy E it on) = en_trivial E"
  "pol_destroy (core_policy E it on) = (\<lambda>t e. logged (Destroyed t e))" "pol_iter (core_policy E it on) = it"
  "pol_snap (core_policy E it on) = (\<lambda>t c. vc_snap c t)"
  "pol_set_snap (core_policy E it on) = (\<lambda>t v c. c\<lparr>vc_snap := (vc_snap c)(t := v)\<rparr>)"
  "pol_router (core_policy E it on) = vc_router" "pol_set_router (core_policy E it on) = (\<lambda>r c. c\<lparr>vc_router := r\<rparr>)"
  "pol_disposers (core_policy E it on) = vc_disposers"
  by (simp_all add: core_policy_def ev_getID_def [abs_def] ev_getDestination_def [abs_def])

lemma core_dispose_correct:
  assumes inv: "transport_inv E c"
  shows "transport_inv E (core_dispose E ev c) \<and> same_but_sent c (core_dispose E ev c) \<and>
     vc_log (core_dispose E ev c) = vc_log c @ destructions E c ev"
proof -
  let ?P = "core_policy E id (\<lambda>_ _ _ _. None)"
  have "cache_ok ?P c" using inv by (simp add: cache_ok_def transport_inv_def)
  from memh_dispose_correct [OF this, of ev] obtain r where
    r: "registered_events r = registered_events (vc_router c)" "set (disposer_cache r) \<subseteq> set (vc_disposers c)"
    and d: "core_dispose E ev c =
       (if b_id (hd ev) \<in> set (vc_disposers c) \<and> \<not> en_trivial E (b_id (hd ev))
        then logged (Destroyed (b_id (hd ev)) ev) (c\<lparr>vc_router := r\<rparr>) else c\<lparr>vc_router := r\<rparr>)"
    by (auto simp: core_dispose_def)
  have "(vc_router c)\<lparr>disposer_cache := []\<rparr> = r\<lparr>disposer_cache := []\<rparr>" using r(1) by (cases r, cases "vc_router c") simp
  then have s: "same_but_sent c (c\<lparr>vc_router := r\<rparr>)" by (simp add: same_but_sent_def unsent_def)
  have t: "transport_inv E (c\<lparr>vc_router := r\<rparr>)" using inv r(2) by (simp add: transport_inv_def)
  show ?thesis
    using s t same_but_sent_trans [OF s same_but_sent_steps(3)] by (simp add: d destructions_def)
qed

section \<open>What a flush does with the events of a pipe\<close>

text \<open>
  \<open>flushed E c e l\<close>: the log entries \<open>l\<close> record how a flush disposed of the event \<open>e\<close>; \<open>kept_first\<close>: the flush
  may stop in front of an event only if it is one that a retry can still deliver.
\<close>

definition flushed :: "('b, 'z) env_scheme \<Rightarrow> 'b core \<Rightarrow> 'b event \<Rightarrow> 'b entry list \<Rightarrow> bool" where
  "flushed E c e l \<longleftrightarrow>
     (if kMaxDeliverableBuckets < length e then l = Oversize e # destructions E c e
      else l = [Sent e] \<or> l = [Best_effort_drop e] \<and> ev_getQOS (hd e) = 0 \<and> blocked E c e)"

definition may_wait :: "('b, 'z) env_scheme \<Rightarrow> 'b core \<Rightarrow> 'b event \<Rightarrow> bool" where
  "may_wait E c e \<longleftrightarrow> length e \<le> kMaxDeliverableBuckets \<and> ev_getQOS (hd e) \<noteq> 0 \<and> blocked E c e"

lemma flush_walk_event:
  assumes inv: "transport_inv E c" and ev: "event_wf e"
  shows "(\<exists>c' l. transport_inv E c' \<and> same_but_sent c c' \<and> vc_log c' = vc_log c @ l \<and> flushed E c e l \<and>
        (\<forall>cur bs. flush_walk E cur (e @ bs) c = flush_walk E (cur + length e) bs c')) \<or>
     (\<exists>c'. transport_inv E c' \<and> same_but_sent c c' \<and> vc_log c' = vc_log c \<and> may_wait E c e \<and>
        (\<forall>cur bs. flush_walk E cur (e @ bs) c = Some (Some cur, c')))"
proof -
  note w = event_wfD [OF ev]
  have n: "unat (bucket_size (hd (e @ bs))) = length e" "take (max (length e) 1) (e @ bs) = e"
    "drop (length e) (e @ bs) = bs" "length e \<noteq> 0" "e @ bs \<noteq> []" for bs
    using w by (cases e; auto)+
  note unfold = flush_walk.simps [of E _ "e @ _" c, unfolded Let_def n, simplified n if_False]
  obtain ok c1 where 1: "core_try_send E e (count_try c) = Some (ok, c1)" "transport_inv E c1"
      "same_but_sent (count_try c) c1" "vc_log c1 = vc_log c" "kMaxDeliverableBuckets < length e \<longrightarrow> \<not> ok"
      "\<not> ok \<longrightarrow> blocked E c e"
    using core_try_send_correct [of E "count_try c" e] inv ev blocked_cong [of c "count_try c" E] by auto
  have s1: "same_but_sent c c1" using same_but_sent_trans [OF same_but_sent_steps(1) 1(3)] .
  consider (sent) "ok" | (over) "\<not> ok" "kMaxDeliverableBuckets < length e"
    | (drop) "\<not> ok" "length e \<le> kMaxDeliverableBuckets" "ev_getQOS (hd e) = 0"
    | (retry) "\<not> ok" "length e \<le> kMaxDeliverableBuckets" "ev_getQOS (hd e) \<noteq> 0" by fastforce
  then show ?thesis
  proof cases
    case sent
    then show ?thesis
      using 1 s1 by (intro disjI1 exI [of _ "logged (Sent e) (count_sent e c1)"] exI [of _ "[Sent e]"])
        (auto simp: unfold flushed_def)
  next
    case over
    note d = core_dispose_correct [of E "logged (Oversize e) c1" e]
    have "same_but_sent c (count_sent e (core_dispose E e (logged (Oversize e) c1)))"
      using d 1(2) s1 by (auto intro: same_but_sent_trans)
    moreover have "destructions E (logged (Oversize e) c1) e = destructions E c e"
      using same_but_sentD(3) [OF s1] by (simp add: destructions_def)
    ultimately show ?thesis
      using over 1 d by (intro disjI1 exI [of _ "count_sent e (core_dispose E e (logged (Oversize e) c1))"]
          exI [of _ "Oversize e # destructions E c e"]) (auto simp: unfold flushed_def)
  next
    case drop
    then show ?thesis
      using 1 s1 by (intro disjI1 exI [of _ "logged (Best_effort_drop e) (count_sent e c1)"] exI [of _ "[Best_effort_drop e]"])
        (auto simp: unfold flushed_def)
  next
    case retry
    obtain sent c2 where 2: "backoff E kFlushYieldAttempts e c1 = Some (sent, c2)" "transport_inv E c2"
        "same_but_sent c1 c2" "vc_log c2 = vc_log c"
      using backoff_correct [OF 1(2) ev] 1(4) by metis
    have s2: "same_but_sent c c2" using same_but_sent_trans [OF s1 2(3)] .
    show ?thesis
    proof (cases sent)
      case True
      then show ?thesis
        using retry 1 2 s2 by (intro disjI1 exI [of _ "logged (Sent e) (count_sent e c2)"] exI [of _ "[Sent e]"])
          (auto simp: unfold flushed_def)
    next
      case False
      have inv2: "engine_inv (vc_engine c2)" using 2(2) by (simp add: transport_inv_def)
      obtain eng where e: "engine_notify (b_dest (hd e)) (vc_engine c2) = Some eng" "engine_inv eng"
          "eng_core_set eng = eng_core_set (vc_engine c2)"
        using engine_notify_correct [OF inv2] by blast
      have "transport_inv E (c2\<lparr>vc_engine := eng\<rparr>)" using 2(2) e by (simp add: transport_inv_def)
      then show ?thesis
        using retry 1 2 s2 e False
        by (intro disjI2 exI [of _ "c2\<lparr>vc_engine := eng\<rparr>"])
          (auto simp: unfold may_wait_def)
    qed
  qed
qed

lemma flush_walk_correct:
  assumes "transport_inv E c" "\<forall>e \<in> set es. event_wf e"
  shows "\<exists>c' gone rest ls. es = gone @ rest \<and> transport_inv E c' \<and> same_but_sent c c' \<and>
     flush_walk E cur (concat es) c = Some (if rest = [] then None else Some (cur + length (concat gone)), c') \<and>
     vc_log c' = vc_log c @ concat ls \<and> list_all2 (flushed E c) gone ls \<and> (rest \<noteq> [] \<longrightarrow> may_wait E c (hd rest))"
  using assms
proof (induction es arbitrary: c cur)
  case Nil
  then show ?case
    by (intro exI [of _ c] exI [of _ "[]"]) (simp add: flush_walk.simps)
next
  case (Cons e es)
  from flush_walk_event [OF Cons.prems(1), of e] Cons.prems(2)
  consider (go) c1 l where "transport_inv E c1" "same_but_sent c c1" "vc_log c1 = vc_log c @ l" "flushed E c e l"
      "\<And>cur bs. flush_walk E cur (e @ bs) c = flush_walk E (cur + length e) bs c1"
    | (stop) c1 where "transport_inv E c1" "same_but_sent c c1" "vc_log c1 = vc_log c" "may_wait E c e"
      "\<And>cur bs. flush_walk E cur (e @ bs) c = Some (Some cur, c1)" by force
  then show ?case
  proof cases
    case go
    have same: "flushed E c1 = flushed E c" "may_wait E c1 = may_wait E c"
      using same_but_sentD(3) [OF go(2)] blocked_cong [OF go(2), of E]
      by (auto simp: fun_eq_iff flushed_def may_wait_def destructions_def)
    have wf: "\<forall>e \<in> set es. event_wf e" using Cons.prems(2) by simp
    from Cons.IH [OF go(1) wf, of "cur + length e", unfolded same] obtain c' gone rest ls where
      IH: "es = gone @ rest" "transport_inv E c'" "same_but_sent c1 c'"
        "flush_walk E (cur + length e) (concat es) c1 =
           Some (if rest = [] then None else Some (cur + length e + length (concat gone)), c')"
        "vc_log c' = vc_log c1 @ concat ls" "list_all2 (flushed E c) gone ls" "rest \<noteq> [] \<longrightarrow> may_wait E c (hd rest)"
      by blast
    show ?thesis
      using IH go same_but_sent_trans [OF go(2) IH(3)]
      by (intro exI [of _ c'] exI [of _ "e # gone"] exI [of _ rest] exI [of _ "l # ls"]) (simp add: add.assoc)
  next
    case stop
    then show ?thesis
      by (intro exI [of _ c1] exI [of _ "[]"] exI [of _ "e # es"] exI [of _ "[]"]) simp
  qed
qed

text \<open>
  One pass over the pipes: \<open>pipe_flushed\<close> relates a pipe before and after the pass and the log entries the
  pass added for it.
\<close>

definition pipe_flushed ::
  "('b, 'z) env_scheme \<Rightarrow> 'b core \<Rightarrow> nat \<Rightarrow> 'b bucket pipe \<Rightarrow> 'b bucket pipe \<Rightarrow> 'b entry list \<Rightarrow> bool" where
  "pipe_flushed E c i p p' l \<longleftrightarrow>
     (if i = vc_resolved c then p' = p \<and> l = []
      else \<exists>gone ls. events_of (pipe_list p) = gone @ events_of (pipe_list p') \<and> l = concat ls \<and>
        list_all2 (flushed E c) gone ls \<and>
        (events_of (pipe_list p') \<noteq> [] \<longrightarrow> may_wait E c (hd (events_of (pipe_list p')))))"

lemma pipe_flushed_cong:
  assumes "vc_resolved c' = vc_resolved c" "vc_disposers c' = vc_disposers c"
    "eng_core_set (vc_engine c') = eng_core_set (vc_engine c)"
  shows "pipe_flushed E c' = pipe_flushed E c"
proof -
  have "blocked E c' = blocked E c" using assms by (simp add: fun_eq_iff blocked_def)
  then have "flushed E c' = flushed E c" "may_wait E c' = may_wait E c"
    using assms by (simp_all add: fun_eq_iff flushed_def may_wait_def destructions_def)
  then show ?thesis using assms by (intro ext) (simp add: pipe_flushed_def)
qed

definition same_but_flushed :: "'b core \<Rightarrow> 'b core \<Rightarrow> bool" where
  "same_but_flushed c c' \<longleftrightarrow> same_but_sent (c\<lparr>vc_pipes := []\<rparr>) (c'\<lparr>vc_pipes := []\<rparr>)"

lemma unsent_pipes: "unsent (c\<lparr>vc_pipes := ps\<rparr>) = (unsent c)\<lparr>vc_pipes := ps\<rparr>"
  by (simp add: unsent_def)

lemma same_but_flushedD:
  assumes "same_but_flushed c c'"
  shows "vc_resolved c' = vc_resolved c" "vc_disposers c' = vc_disposers c" "vc_actors c' = vc_actors c"
    "vc_heap c' = vc_heap c" "registered_events (vc_router c') = registered_events (vc_router c)"
    "vc_activating c' = vc_activating c"
  using same_but_sentD [OF assms [unfolded same_but_flushed_def]] by simp_all

lemma pipe_readable:
  assumes "pipe_inv p"
  shows "mem_read (storage p) (p_begin p) (pipe_size p) = Some (pipe_list p)"
  using pipe_invD [OF assms] pipe_sizes [OF assms] by (auto simp: mem_read_def pipe_list_def)

lemma pipe_size_zero: "pipe_inv p \<Longrightarrow> pipe_size p = 0 \<longleftrightarrow> pipe_list p = []"
  using pipe_sizes(5) by fastforce

lemma flush_one_pipe:
  assumes inv: "transport_inv E c" and i: "i < length (vc_pipes c)" "i \<noteq> vc_resolved c"
    and p: "p = vc_pipes c ! i" "pipe_list p \<noteq> []"
  shows "\<exists>partial c1 p1 l. flush_walk E (p_begin p) (pipe_list p) c = Some (partial, c1) \<and>
     p1 = (case partial of Some cur \<Rightarrow> pipe_reset_to cur p | None \<Rightarrow> pipe_reset p) \<and>
     transport_inv E (set_pipe i p1 c1) \<and> same_but_sent c c1 \<and> vc_log c1 = vc_log c @ l \<and> pipe_flushed E c i p p1 l"
proof -
  have pin: "p \<in> set (vc_pipes c)" using i p by simp
  then have pi: "pipe_inv p" "aligned (pipe_list p)" using inv by (auto simp: transport_inv_def)
  note al = alignedD [OF pi(2)]
  from flush_walk_correct [OF inv al(2), of "p_begin p"] obtain c1 gone rest ls where
    w: "events_of (pipe_list p) = gone @ rest" "transport_inv E c1" "same_but_sent c c1"
      "flush_walk E (p_begin p) (pipe_list p) c =
         Some (if rest = [] then None else Some (p_begin p + length (concat gone)), c1)"
      "vc_log c1 = vc_log c @ concat ls" "list_all2 (flushed E c) gone ls" "rest \<noteq> [] \<longrightarrow> may_wait E c (hd rest)"
    unfolding al(1) by blast
  have split: "pipe_list p = concat gone @ concat rest" using al(1) w(1) by (metis concat_append)
  have wf: "\<forall>e \<in> set rest. event_wf e" using al(2) w(1) by simp
  define p1 where "p1 = (if rest = [] then pipe_reset p else pipe_reset_to (p_begin p + length (concat gone)) p)"
  have p1: "pipe_inv p1 \<and> pipe_list p1 = concat rest"
  proof (cases "rest = []")
    case True
    then show ?thesis using pipe_reset_correct [OF pi(1)] by (simp add: p1_def)
  next
    case False
    have "p_begin p + length (concat gone) \<le> p_end p"
      using split pipe_sizes(4) [OF pi(1)] pipe_invD(1) [OF pi(1)] by (metis add_le_cancel_left le_add1 le_add_diff_inverse length_append)
    then show ?thesis
      using False pipe_reset_to_correct [OF pi(1), of "p_begin p + length (concat gone)"] split by (simp add: p1_def)
  qed
  have ev: "events_of (pipe_list p1) = rest" using p1 wf by (simp add: events_of_concat)
  have "aligned (pipe_list p1)" using p1 wf by (auto simp: aligned_def)
  then have "transport_inv E (set_pipe i p1 c1)"
    using w(2) p1 unfolding transport_inv_def set_pipe_def
    by (auto dest!: set_update_subset_insert [THEN subsetD])
  moreover have "pipe_flushed E c i p p1 (concat ls)" using w i(2) ev by (auto simp: pipe_flushed_def)
  ultimately show ?thesis using w(3-5) by (intro exI [of _ _] conjI) (auto simp: p1_def)
qed

definition has_outbound :: "nat \<Rightarrow> 'b core \<Rightarrow> bool" where
  "has_outbound i c \<longleftrightarrow> (\<exists>j. i \<le> j \<and> j < length (vc_pipes c) \<and> j \<noteq> vc_resolved c \<and> pipe_list (vc_pipes c ! j) \<noteq> [])"

lemma ex_le_Suc: "(\<exists>j. i \<le> j \<and> P j) \<longleftrightarrow> P i \<or> (\<exists>j. Suc i \<le> j \<and> P j)"
  by (metis Suc_leD Suc_leI le_neq_implies_less order_refl)

lemma flush_pipes_correct:
  assumes "transport_inv E c" "i + n = length (vc_pipes c)"
  shows "\<exists>c' ll. flush_pipes E i n any c = Some (any \<or> has_outbound i c, c') \<and> transport_inv E c' \<and>
     same_but_flushed c c' \<and> length (vc_pipes c') = length (vc_pipes c) \<and>
     (\<forall>j < i. vc_pipes c' ! j = vc_pipes c ! j) \<and> length ll = n \<and> vc_log c' = vc_log c @ concat ll \<and>
     (\<forall>k < n. pipe_flushed E c (i + k) (vc_pipes c ! (i + k)) (vc_pipes c' ! (i + k)) (ll ! k))"
  using assms
proof (induction n arbitrary: i any c)
  case 0
  then show ?case by (intro exI [of _ c] exI [of _ "[]"]) (auto simp: has_outbound_def same_but_flushed_def)
next
  case (Suc n)
  let ?p = "vc_pipes c ! i"
  have i: "i < length (vc_pipes c)" "Suc i + n = length (vc_pipes c)" using Suc.prems by simp_all
  have pi: "pipe_inv ?p" using Suc.prems(1) i(1) by (simp add: transport_inv_def)
  have ob: "has_outbound i c \<longleftrightarrow> i \<noteq> vc_resolved c \<and> pipe_list ?p \<noteq> [] \<or> has_outbound (Suc i) c"
    using i(1) unfolding has_outbound_def by (subst ex_le_Suc) simp
  show ?case
  proof (cases "i = vc_resolved c \<or> pipe_list ?p = []")
    case True
    from Suc.IH [OF Suc.prems(1) i(2), of any] obtain c' ll where
      IH: "flush_pipes E (Suc i) n any c = Some (any \<or> has_outbound (Suc i) c, c')" "transport_inv E c'"
        "same_but_flushed c c'" "length (vc_pipes c') = length (vc_pipes c)" "\<forall>j < Suc i. vc_pipes c' ! j = vc_pipes c ! j"
        "length ll = n" "vc_log c' = vc_log c @ concat ll"
        "\<forall>k < n. pipe_flushed E c (Suc i + k) (vc_pipes c ! (Suc i + k)) (vc_pipes c' ! (Suc i + k)) (ll ! k)"
      by blast
    have "pipe_flushed E c i ?p (vc_pipes c' ! i) []" using True IH(5) by (auto simp: pipe_flushed_def)
    then have "\<forall>k < Suc n. pipe_flushed E c (i + k) (vc_pipes c ! (i + k)) (vc_pipes c' ! (i + k)) (([] # ll) ! k)"
      using IH(8) by (auto simp: nth_Cons split: nat.splits)
    then show ?thesis
      using IH(1-7) True ob pipe_size_zero [OF pi]
      by (intro exI [of _ c'] exI [of _ "[] # ll"]) (auto simp: Let_def)
  next
    case False
    from flush_one_pipe [OF Suc.prems(1) i(1) _ refl] False obtain partial c1 p1 l where
      f: "flush_walk E (p_begin ?p) (pipe_list ?p) c = Some (partial, c1)"
        "p1 = (case partial of Some cur \<Rightarrow> pipe_reset_to cur ?p | None \<Rightarrow> pipe_reset ?p)"
        "transport_inv E (set_pipe i p1 c1)" "same_but_sent c c1" "vc_log c1 = vc_log c @ l" "pipe_flushed E c i ?p p1 l"
      by blast
    let ?c = "set_pipe i p1 c1"
    have c: "vc_pipes ?c = (vc_pipes c)[i := p1]" "vc_resolved ?c = vc_resolved c" "vc_disposers ?c = vc_disposers c"
      using same_but_sentD [OF f(4)] by (simp_all add: set_pipe_def)
    have sf: "same_but_flushed c ?c"
      using f(4) by (simp add: same_but_flushed_def same_but_sent_def unsent_pipes set_pipe_def)
    have ob': "has_outbound (Suc i) ?c = has_outbound (Suc i) c"
      using c by (auto simp: has_outbound_def)
    have fl: "pipe_flushed E ?c = pipe_flushed E c"
      using c same_but_sentD(9) [OF f(4)] by (intro pipe_flushed_cong) (simp_all add: set_pipe_def)
    have "Suc i + n = length (vc_pipes ?c)" using i(2) c(1) by simp
    from Suc.IH [OF f(3) this, of True] obtain c' ll where
      IH: "flush_pipes E (Suc i) n True ?c = Some (True, c')" "transport_inv E c'"
        "same_but_flushed ?c c'" "length (vc_pipes c') = length (vc_pipes c)" "\<forall>j < Suc i. vc_pipes c' ! j = vc_pipes ?c ! j"
        "length ll = n" "vc_log c' = vc_log ?c @ concat ll"
        "\<forall>k < n. pipe_flushed E c (Suc i + k) (vc_pipes ?c ! (Suc i + k)) (vc_pipes c' ! (Suc i + k)) (ll ! k)"
      unfolding fl by (auto simp: c(1))
    have run: "flush_pipes E i (Suc n) any c = Some (True, c')"
      using False f(1,2) IH(1) pipe_readable [OF pi] pipe_size_zero [OF pi] by (simp add: Let_def)
    have at: "vc_pipes c' ! i = p1" using IH(5) c(1) i(1) by simp
    have "\<forall>k < Suc n. pipe_flushed E c (i + k) (vc_pipes c ! (i + k)) (vc_pipes c' ! (i + k)) ((l # ll) ! k)"
      using f(6) at IH(8) by (auto simp: nth_Cons c(1) split: nat.splits)
    moreover have "same_but_flushed c c'"
      using sf IH(3) unfolding same_but_flushed_def by (rule same_but_sent_trans)
    moreover have "vc_log c' = vc_log c @ concat (l # ll)" using IH(7) f(5) by (simp add: set_pipe_def)
    ultimately show ?thesis
      using run IH(2,4,5,6) False ob c(1)
      by (intro exI [of _ c'] exI [of _ "l # ll"]) auto
  qed
qed

lemma flush_all_accounts_aux:
  assumes "transport_inv E c"
  shows "\<exists>c' ll. flush_all E c = Some (\<exists>i < length (vc_pipes c). i \<noteq> vc_resolved c \<and> pipe_list (vc_pipes c ! i) \<noteq> [], c') \<and>
     transport_inv E c' \<and> same_but_flushed c c' \<and> vc_log c' = vc_log c @ concat ll \<and> length ll = length (vc_pipes c) \<and>
     length (vc_pipes c') = length (vc_pipes c) \<and>
     (\<forall>i < length (vc_pipes c). pipe_flushed E c i (vc_pipes c ! i) (vc_pipes c' ! i) (ll ! i))"
  using flush_pipes_correct [OF assms, of 0 "length (vc_pipes c)" False]
  by (auto simp: flush_all_def has_outbound_def)


text \<open>A concrete core: the first of two, with one event queued for the second.\<close>

definition demo_pipe :: "nat bucket list \<Rightarrow> nat bucket pipe" where
  "demo_pipe bs = \<lparr>p_begin = 0, p_end = length bs, flag_front = False, capacity = length bs, factor = 1, storage = bs\<rparr>"

definition demo_env :: "nat env" where
  "demo_env = \<lparr>en_alloc = (\<lambda>n. Some (replicate n (demo_bucket 0 1))), en_peers = (\<lambda>n eng. eng), en_trivial = (\<lambda>t. True)\<rparr>"

definition demo_core :: "nat bucket list \<Rightarrow> nat core" where
  "demo_core bs =
     \<lparr>vc_index = 2, vc_resolved = 0, vc_engine = demo_engine, vc_pipes = [pipe_null, demo_pipe bs], vc_mono = pipe_null, vc_event_buffer = replicate 1023 (demo_bucket 0 1),
      vc_router = memh_new, vc_snap = (\<lambda>_. []), vc_disposers = [], vc_ids = pool_init 1, vc_nb_service = 0,
      vc_heap = [], vc_fresh = 0, vc_actors = [], vc_callbacks = [], vc_callback_list = [], vc_to_remove = [],
      vc_activating = [], vc_dying = [], vc_metrics = \<lparr>m_spin_credit = 0, m_event_io = 0, m_event_received = 0,
        m_bucket_received = 0, m_event_sent_try = 0, m_event_sent = 0, m_bucket_sent = 0, m_nanotimer = 0\<rparr>,
      vc_loop_count = 0, vc_last_generation = 0, vc_stop_delivered = False, vc_ask_slots = [], vc_ask_types = [],
      vc_ask_counter = 0, vc_tick = 0, vc_log = []\<rparr>"

lemma demo_pipe_inv:
  assumes "length bs \<le> 4096"
  shows "pipe_inv (demo_pipe bs)" "pipe_list (demo_pipe bs) = bs"
proof -
  have "\<exists>j \<le> 32. (1::nat) = 2 ^ j" by (rule exI [of _ 0]) simp
  then show "pipe_inv (demo_pipe bs)" using assms by (simp add: pipe_inv_def demo_pipe_def)
  show "pipe_list (demo_pipe bs) = bs" by (simp add: pipe_list_def demo_pipe_def)
qed

lemma demo_core_inv: "aligned bs \<Longrightarrow> length bs \<le> 4096 \<Longrightarrow> transport_inv demo_env (demo_core bs)"
  using demo_engine_inv(1,2) demo_pipe_inv [of bs]
  by (auto simp: transport_inv_def demo_core_def demo_env_def allocator_ok_def peers_ok_def memh_new_def)

lemma demo_core_1: "transport_inv demo_env (demo_core [demo_bucket 9 1])"
  using demo_core_inv aligned_event [OF demo_event_wf] by simp


text \<open>C16. Progress: if, whenever the core looks, the rings it writes to have been emptied by their readers, one
  pass of \<open>__flush_all__\<close> leaves every outbound pipe empty: every event that fits a ring has been
  sent, in the order of its pipe, and none is left to wait or dropped for lack of room.\<close>

theorem flush_all_progress:
  assumes inv: "transport_inv E c"
    and drained: "\<forall>n eng d. engine_inv eng \<longrightarrow> ring_at d (vc_resolved c) (en_peers E n eng) = []"
  shows "\<exists>b c' ll. flush_all E c = Some (b, c') \<and> vc_log c' = vc_log c @ concat ll \<and> length ll = length (vc_pipes c) \<and>
     (\<forall>i < length (vc_pipes c). if i = vc_resolved c then ll ! i = [] else pipe_list (vc_pipes c' ! i) = [] \<and>
        ll ! i = concat (map (\<lambda>e. if length e \<le> kMaxDeliverableBuckets then [Sent e] else Oversize e # destructions E c e)
          (events_of (pipe_list (vc_pipes c ! i)))))"
proof -
  have small: "kMaxDeliverableBuckets < length e" if "blocked E c e" for e
    using that drained unfolding blocked_def by fastforce
  have fate: "l = (if length e \<le> kMaxDeliverableBuckets then [Sent e] else Oversize e # destructions E c e)"
    if "flushed E c e l" for e l using that small [of e] by (auto simp: flushed_def split: if_splits)
  have all: "concat ls = concat (map (\<lambda>e. if length e \<le> kMaxDeliverableBuckets then [Sent e] else Oversize e # destructions E c e) es)"
    if "list_all2 (flushed E c) es ls" for es ls
    using that by (induction rule: list_all2_induct) (auto dest: fate)
  have none: "\<not> may_wait E c e" for e using small [of e] by (auto simp: may_wait_def)
  from flush_all_accounts_aux [OF inv] obtain b c' ll where
    f: "flush_all E c = Some (b, c')" "transport_inv E c'" "vc_log c' = vc_log c @ concat ll" "length ll = length (vc_pipes c)"
      "length (vc_pipes c') = length (vc_pipes c)"
      "\<forall>i < length (vc_pipes c). pipe_flushed E c i (vc_pipes c ! i) (vc_pipes c' ! i) (ll ! i)" by blast
  have "pipe_list (vc_pipes c' ! i) = [] \<and>
        ll ! i = concat (map (\<lambda>e. if length e \<le> kMaxDeliverableBuckets then [Sent e] else Oversize e # destructions E c e)
          (events_of (pipe_list (vc_pipes c ! i))))" if i: "i < length (vc_pipes c)" "i \<noteq> vc_resolved c" for i
  proof -
    obtain gone ls where g: "events_of (pipe_list (vc_pipes c ! i)) = gone @ events_of (pipe_list (vc_pipes c' ! i))"
      "ll ! i = concat ls" "list_all2 (flushed E c) gone ls" "events_of (pipe_list (vc_pipes c' ! i)) = []"
      using f(6) [rule_format, OF i(1), unfolded pipe_flushed_def] i(2) none by auto
    have "aligned (pipe_list (vc_pipes c' ! i))" using f(2,5) i by (simp add: transport_inv_def)
    then have "pipe_list (vc_pipes c' ! i) = []" using alignedD(1) g(4) by fastforce
    then show ?thesis using g all [OF g(3)] by simp
  qed
  moreover have "ll ! i = []" if "i < length (vc_pipes c)" "i = vc_resolved c" for i
    using f(6) [rule_format, OF that(1)] that(2) by (simp add: pipe_flushed_def)
  ultimately show ?thesis using f(1,3,4) by (intro exI [of _ b] exI [of _ c'] exI [of _ ll]) simp
qed

definition demo_draining_env :: "nat env" where
  "demo_draining_env = demo_env\<lparr>en_peers := (\<lambda>n eng.
     case dispose_residual_mailbox_events (\<lambda>e s. s) (replicate 1023 (demo_bucket 0 1)) eng () of
       Some (eng', s) \<Rightarrow> eng' | None \<Rightarrow> eng)\<rparr>"

lemma demo_draining:
  assumes "engine_inv eng"
  shows "engine_inv (en_peers demo_draining_env n eng)" "eng_core_set (en_peers demo_draining_env n eng) = eng_core_set eng"
    "src < eng_cores eng \<Longrightarrow> ring_at d src (en_peers demo_draining_env n eng) = []"
proof -
  have len: "length (replicate 1023 (demo_bucket 0 1)) = MaxRingEvents" by simp
  from residual_sweep [OF assms len, of "\<lambda>e s. s" "()"]
  show "engine_inv (en_peers demo_draining_env n eng)" "eng_core_set (en_peers demo_draining_env n eng) = eng_core_set eng"
    "src < eng_cores eng \<Longrightarrow> ring_at d src (en_peers demo_draining_env n eng) = []"
    by (auto simp: demo_draining_env_def)
qed

theorem flush_all_progress_witness:
  "\<exists>b c'. flush_all demo_draining_env (demo_core [demo_bucket 9 1]) = Some (b, c') \<and> pipe_list (vc_pipes c' ! 1) = [] \<and>
     vc_log c' = [Sent [demo_bucket 9 1]]"
proof -
  let ?c = "demo_core [demo_bucket 9 1]"
  have inv: "transport_inv demo_draining_env ?c"
    using demo_core_1 demo_draining(1,2) unfolding transport_inv_def peers_ok_def by (simp add: demo_draining_env_def)
  have c: "vc_resolved ?c = 0" "length (vc_pipes ?c) = 2" "vc_log ?c = []" "vc_pipes ?c ! 1 = demo_pipe [demo_bucket 9 1]"
    by (simp_all add: demo_core_def)
  have dr: "ring_at d (vc_resolved ?c) (en_peers demo_draining_env n eng) = []" if "engine_inv eng" for n eng d
    using demo_draining(3) [OF that, of 0] that resolve_in_range(2) unfolding c(1) engine_inv_def by metis
  then have "\<forall>n eng d. engine_inv eng \<longrightarrow> ring_at d (vc_resolved ?c) (en_peers demo_draining_env n eng) = []" by blast
  from flush_all_progress [OF inv this] show ?thesis
  proof (elim exE conjE, goal_cases)
    case (1 b c' ll)
    have "ll ! 0 = []" "pipe_list (vc_pipes c' ! 1) = []" "ll ! 1 = [Sent [demo_bucket 9 1]]"
      using 1(4) [unfolded c, rule_format, of 0] 1(4) [unfolded c, rule_format, of 1] demo_pipe_inv(2) [of "[demo_bucket 9 1]"]
        events_of_concat [of "[[demo_bucket 9 1]]"] demo_event_wf c(4) by simp_all
    moreover have "ll = [ll ! 0, ll ! 1]" using 1(3) c(2) by (cases ll rule: remdups_adj.cases) auto
    ultimately show ?case using 1(1,2) c(3) by (metis append_Nil concat.simps(1,2) append_Nil2)
  qed
qed

section \<open>The residue for stopped cores\<close>

lemma fold_core_dispose:
  assumes "transport_inv E c"
  shows "transport_inv E (fold (core_dispose E) es c) \<and> same_but_sent c (fold (core_dispose E) es c) \<and>
     vc_engine (fold (core_dispose E) es c) = vc_engine c \<and>
     vc_log (fold (core_dispose E) es c) = vc_log c @ concat (map (destructions E c) es)"
  using assms
proof (induction es arbitrary: c)
  case (Cons e es)
  note d = core_dispose_correct [OF Cons.prems, of e]
  have eng: "vc_engine (core_dispose E e c) = vc_engine c"
    by (simp add: core_dispose_def memh_dispose_def disposer_dispose_def Let_def split: prod.splits option.splits)
  have "destructions E (core_dispose E e c) = destructions E c"
    using d same_but_sentD(3) [of c "core_dispose E e c"] by (simp add: fun_eq_iff destructions_def)
  then show ?case using Cons.IH [of "core_dispose E e c"] d eng same_but_sent_trans by fastforce
qed simp

lemma engine_stopped_len: "engine_inv eng \<Longrightarrow> eng_cores eng \<le> length (core_stopped eng)"
  by (simp add: engine_inv_def)

definition live_pending :: "nat \<Rightarrow> 'b core \<Rightarrow> bool" where
  "live_pending i c \<longleftrightarrow> (\<exists>j. i \<le> j \<and> j < length (vc_pipes c) \<and> j \<noteq> vc_resolved c \<and> pipe_list (vc_pipes c ! j) \<noteq> [] \<and>
     \<not> core_stopped (vc_engine c) ! j)"

definition pipe_released ::
  "('b, 'z) env_scheme \<Rightarrow> 'b core \<Rightarrow> nat \<Rightarrow> 'b bucket pipe \<Rightarrow> 'b bucket pipe \<Rightarrow> 'b entry list \<Rightarrow> bool" where
  "pipe_released E c i p p' l \<longleftrightarrow>
     (if i = vc_resolved c \<or> \<not> core_stopped (vc_engine c) ! i then p' = p \<and> l = []
      else pipe_list p' = [] \<and> l = concat (map (destructions E c) (events_of (pipe_list p))))"

lemma dispose_residual_pipes_correct:
  assumes "transport_inv E c" "i + n = length (vc_pipes c)"
  shows "\<exists>c' ll. dispose_residual_pipes E i n any c = Some (any \<or> live_pending i c, c') \<and> transport_inv E c' \<and>
     vc_engine c' = vc_engine c \<and> same_but_flushed c c' \<and> length (vc_pipes c') = length (vc_pipes c) \<and>
     (\<forall>j < i. vc_pipes c' ! j = vc_pipes c ! j) \<and> length ll = n \<and> vc_log c' = vc_log c @ concat ll \<and>
     (\<forall>k < n. pipe_released E c (i + k) (vc_pipes c ! (i + k)) (vc_pipes c' ! (i + k)) (ll ! k))"
  using assms
proof (induction n arbitrary: i any c)
  case 0
  then show ?case by (intro exI [of _ c] exI [of _ "[]"]) (auto simp: live_pending_def same_but_flushed_def)
next
  case (Suc n)
  let ?p = "vc_pipes c ! i" and ?st = "core_stopped (vc_engine c) ! i"
  have i: "i < length (vc_pipes c)" "Suc i + n = length (vc_pipes c)" using Suc.prems by simp_all
  have pi: "pipe_inv ?p" "aligned (pipe_list ?p)" using Suc.prems(1) i(1) by (simp_all add: transport_inv_def)
  have st: "is_core_stopped i (vc_engine c) = Some ?st"
    using Suc.prems(1) i(1) engine_stopped_len [of "vc_engine c"] by (simp add: transport_inv_def is_core_stopped_def)
  have ob: "live_pending i c \<longleftrightarrow> i \<noteq> vc_resolved c \<and> pipe_list ?p \<noteq> [] \<and> \<not> ?st \<or> live_pending (Suc i) c"
    using i(1) unfolding live_pending_def by (subst ex_le_Suc) simp
  show ?case
  proof (cases "i = vc_resolved c \<or> pipe_list ?p = [] \<or> \<not> ?st")
    case True
    let ?any = "any \<or> i \<noteq> vc_resolved c \<and> pipe_list ?p \<noteq> [] \<and> \<not> ?st"
    have run: "dispose_residual_pipes E i (Suc n) any c = dispose_residual_pipes E (Suc i) n ?any c"
      using True st pipe_size_zero [OF pi(1)] by (auto simp: Let_def)
    from Suc.IH [OF Suc.prems(1) i(2), of ?any] show ?thesis
    proof (elim exE conjE, goal_cases)
      case (1 c' ll)
      have "pipe_released E c i ?p (vc_pipes c' ! i) []" using True 1(6) by (auto simp: pipe_released_def)
      then have "\<forall>k < Suc n. pipe_released E c (i + k) (vc_pipes c ! (i + k)) (vc_pipes c' ! (i + k)) (([] # ll) ! k)"
        using 1(9) by (auto simp: nth_Cons split: nat.splits)
      then show ?case
        unfolding run using 1 ob by (intro exI [of _ c'] exI [of _ "[] # ll"]) auto
    qed
  next
    case False
    let ?es = "events_of (pipe_list ?p)"
    let ?c1 = "fold (core_dispose E) ?es c" and ?l = "concat (map (destructions E c) ?es)"
    note d = fold_core_dispose [OF Suc.prems(1), of ?es]
    let ?c = "set_pipe i (pipe_reset ?p) ?c1"
    have c: "vc_pipes ?c = (vc_pipes c)[i := pipe_reset ?p]" "vc_resolved ?c = vc_resolved c" "vc_disposers ?c = vc_disposers c"
        "vc_engine ?c = vc_engine c" "vc_log ?c = vc_log c @ ?l"
      using d same_but_sentD [of c ?c1] by (simp_all add: set_pipe_def)
    have run: "dispose_residual_pipes E i (Suc n) any c = dispose_residual_pipes E (Suc i) n any ?c"
      using False st pipe_size_zero [OF pi(1)] pipe_readable [OF pi(1)] dispose_walk_events_of [of "core_dispose E" "pipe_list ?p" c]
      by (simp add: Let_def)
    have t: "transport_inv E ?c"
      using d pipe_reset_correct [OF pi(1)] unfolding transport_inv_def set_pipe_def
      by (auto dest!: set_update_subset_insert [THEN subsetD])
    have sf: "same_but_flushed c ?c"
      using d by (simp add: same_but_flushed_def same_but_sent_def unsent_pipes set_pipe_def)
    have ob': "live_pending (Suc i) ?c = live_pending (Suc i) c" using c by (auto simp: live_pending_def)
    have fl: "pipe_released E ?c = pipe_released E c"
      using c by (intro ext) (simp add: pipe_released_def destructions_def [abs_def])
    have "Suc i + n = length (vc_pipes ?c)" using i(2) c(1) by simp
    from Suc.IH [OF t this, of any, unfolded fl ob'] show ?thesis
    proof (elim exE conjE, goal_cases)
      case (1 c' ll)
      have "pipe_released E c i ?p (vc_pipes c' ! i) ?l"
        using 1(6) c(1) i(1) False pipe_reset_correct(2) [OF pi(1)] by (simp add: pipe_released_def)
      then have "\<forall>k < Suc n. pipe_released E c (i + k) (vc_pipes c ! (i + k)) (vc_pipes c' ! (i + k)) ((?l # ll) ! k)"
        using 1(9) by (auto simp: nth_Cons c(1) split: nat.splits)
      moreover have "same_but_flushed c c'"
        using sf 1(4) unfolding same_but_flushed_def by (rule same_but_sent_trans)
      ultimately show ?case
        unfolding run using 1 ob False c by (intro exI [of _ c'] exI [of _ "?l # ll"]) auto
    qed
  qed
qed

text \<open>C18. At shutdown, \<open>__dispose_residual_to_stopped_cores__\<close> empties exactly the pipes whose destination has
  announced that it stopped, destroying each of their events once, in order, where its type needs
  it; it leaves the pipes to cores that still run, and the core's own pipe, as they are, and reports
  whether one of the former holds events.\<close>

theorem residual_pipes_released:
  assumes "transport_inv E c"
  shows "\<exists>c' ll. dispose_residual_to_stopped_cores E c =
       Some (\<exists>i < length (vc_pipes c). i \<noteq> vc_resolved c \<and> pipe_list (vc_pipes c ! i) \<noteq> [] \<and> \<not> core_stopped (vc_engine c) ! i, c') \<and>
     transport_inv E c' \<and> vc_engine c' = vc_engine c \<and> vc_log c' = vc_log c @ concat ll \<and> length ll = length (vc_pipes c) \<and>
     (\<forall>i < length (vc_pipes c). pipe_released E c i (vc_pipes c ! i) (vc_pipes c' ! i) (ll ! i))"
  using dispose_residual_pipes_correct [OF assms, of 0 "length (vc_pipes c)" False]
  by (auto simp: dispose_residual_to_stopped_cores_def live_pending_def)

theorem residual_pipes_released_witness:
  "\<exists>b c'. dispose_residual_to_stopped_cores demo_env (demo_core [demo_bucket 9 1]) = Some (b, c') \<and> transport_inv demo_env c'"
  using residual_pipes_released [OF demo_core_1] by (elim exE conjE, intro exI conjI) assumption+

section \<open>Sending\<close>

text \<open>
  \<open>recycle\<close> puts a block on either side of a pipe, \<open>send\<close> relies on it; only \<open>push\<close> is ordered.
\<close>

definition on_a_side :: "'a list \<Rightarrow> 'a list \<Rightarrow> 'a list \<Rightarrow> bool" where
  "on_a_side xs old new \<longleftrightarrow> new = xs @ old \<or> new = old @ xs"

lemma store_front:
  assumes inv: "pipe_inv p" and b: "length xs < p_begin p"
  shows "\<exists>p'. store xs (Ok (p_begin p - length xs) (p\<lparr>p_begin := p_begin p - length xs, flag_front := True\<rparr>)) =
      Some (Ok (p_begin p - length xs) p') \<and> pipe_inv p' \<and> pipe_list p' = xs @ pipe_list p"
proof -
  note d = pipe_invD [OF inv]
  let ?b = "p_begin p - length xs"
  have w: "mem_write (storage p) ?b xs = Some (take ?b (storage p) @ xs @ drop (p_begin p) (storage p))"
    using b d by (simp add: mem_write_def)
  let ?p' = "p\<lparr>p_begin := ?b, flag_front := True, storage := take ?b (storage p) @ xs @ drop (p_begin p) (storage p)\<rparr>"
  have "pipe_inv ?p'" using inv b d by (auto simp: pipe_inv_def)
  moreover have "pipe_list ?p' = xs @ pipe_list p"
    using b d by (simp add: pipe_list_def)
  ultimately show ?thesis using w by (auto simp: store_def)
qed

definition placed :: "'a list \<Rightarrow> 'a list \<Rightarrow> 'a pipe \<Rightarrow> bool" where
  "placed xs old p \<longleftrightarrow> (if flag_front p then pipe_list p = xs @ old else pipe_list p = old @ xs)"

lemma placed_side: "placed xs old p \<Longrightarrow> on_a_side xs old (pipe_list p)"
  by (auto simp: placed_def on_a_side_def split: if_splits)

lemma recycle_correct:
  assumes inv: "pipe_inv p" and ok: "allocator_ok alloc" and len: "length xs < size_mod - 1"
  shows "(\<exists>i p'. recycle alloc xs p = Some (Ok i p') \<and> pipe_inv p' \<and> placed xs (pipe_list p) p') \<or>
     (\<exists>p'. recycle alloc xs p = Some (Bad_alloc p') \<and> alloc_failure alloc (length xs) p)"
proof (cases "p_begin p \<ge> szadd (length xs) 1")
  case True
  then have b: "length xs < p_begin p" using len by (simp add: szadd_small)
  from store_front [OF inv b] obtain p' where p': "store xs (Ok (p_begin p - length xs)
      (p\<lparr>p_begin := p_begin p - length xs, flag_front := True\<rparr>)) = Some (Ok (p_begin p - length xs) p')"
    "pipe_inv p'" "pipe_list p' = xs @ pipe_list p" by blast
  then have "flag_front p'" by (auto simp: store_def split: Option.bind_splits)
  then show ?thesis
    using p' pipe_allocate_front [OF inv True len] by (auto simp: recycle_def placed_def)
next
  case False
  let ?q = "p\<lparr>flag_front := False\<rparr>"
  have q: "pipe_inv ?q" "pipe_list ?q = pipe_list p" "alloc_failure alloc (length xs) ?q = alloc_failure alloc (length xs) p"
    using inv by (simp_all add: pipe_inv_def pipe_list_def alloc_failure_def)
  have sz: "length xs < size_mod" using len by simp
  have r: "recycle alloc xs p = put alloc xs ?q" using False by (simp add: recycle_def pipe_allocate_def put_def)
  have "placed xs old p'" if "put alloc xs ?q = Some (Ok i p')" "pipe_list p' = old @ xs" for i p' old
    using that allocate_back_correct [OF q(1) ok sz]
    by (auto simp: placed_def put_def store_def split: Option.bind_splits alloc_result.splits)
  then show ?thesis using put_correct [OF q(1) ok sz] unfolding q r by blast
qed

lemma placed_free:
  assumes "pipe_inv p" "placed xs old p"
  shows "pipe_list (pipe_free (length xs) p) = old" "pipe_inv (pipe_free (length xs) p)"
proof -
  have len: "length xs \<le> length (pipe_list p)" using assms(2) by (auto simp: placed_def split: if_splits)
  have "pipe_free (length xs) p = (if flag_front p then free_front (length xs) p else free_back (length xs) p)"
    by (simp add: pipe_free_def free_front_def free_back_def)
  then show "pipe_list (pipe_free (length xs) p) = old" "pipe_inv (pipe_free (length xs) p)"
    using free_front_correct [OF assms(1) len] free_back_correct [OF assms(1) len] assms(2)
    by (auto simp: placed_def split: if_splits)
qed

text \<open>Pipes never run out of memory: the allocator has blocks and the pipes are below their limit.\<close>

definition memory_ok :: "('b, 'z) env_scheme \<Rightarrow> 'b core \<Rightarrow> bool" where
  "memory_ok E c \<longleftrightarrow> (\<forall>n \<le> 2 ^ 44. en_alloc E n \<noteq> None) \<and>
     (\<forall>p \<in> set (vc_pipes c). factor p \<noteq> 2 ^ 32 \<and> length (pipe_list p) + 65536 \<le> 2 ^ 44)"

lemma memory_ok_no_failure:
  assumes "memory_ok E c" "p \<in> set (vc_pipes c)" "n \<le> 65536"
  shows "\<not> alloc_failure (en_alloc E) n p"
  using assms by (auto simp: memory_ok_def alloc_failure_def)

lemma getPipe_dest:
  assumes "transport_inv E c"
  shows "getPipe (core_id a) c = Some (dest_index a (vc_engine c))" "dest_index a (vc_engine c) < length (vc_pipes c)"
  using assms engine_dest [of "vc_engine c" a] by (auto simp: transport_inv_def getPipe_def dest_index_def Let_def)

definition in_pipe :: "nat \<Rightarrow> 'b event \<Rightarrow> 'b core \<Rightarrow> 'b core \<Rightarrow> bool" where
  "in_pipe i ev c c' \<longleftrightarrow> (\<exists>p. c' = set_pipe i p c \<and> on_a_side ev (pipe_list (vc_pipes c ! i)) (pipe_list p))"

lemma transport_inv_set_pipe:
  "transport_inv E c \<Longrightarrow> pipe_inv p \<Longrightarrow> aligned (pipe_list p) \<Longrightarrow> transport_inv E (set_pipe i p c)"
  unfolding transport_inv_def set_pipe_def by (auto dest!: set_update_subset_insert [THEN subsetD])

lemma event_wf_bound: "event_wf e \<Longrightarrow> length e \<le> 65535"
proof -
  assume "event_wf e"
  then have "length e = unat (bucket_size (hd e))" by (simp add: event_wf_def)
  moreover have "unat (bucket_size (hd e)) < 2 ^ LENGTH(16)" by (rule unsigned_less)
  ultimately show ?thesis by simp
qed

lemma core_recycle_correct:
  assumes inv: "transport_inv E c" and mem: "memory_ok E c" and ev: "event_wf ev"
  shows "\<exists>c'. core_recycle E ev c = Some c' \<and> transport_inv E c' \<and> in_pipe (dest_index (b_dest (hd ev)) (vc_engine c)) ev c c'"
proof -
  let ?i = "dest_index (b_dest (hd ev)) (vc_engine c)" and ?al = "en_alloc E"
  let ?p = "vc_pipes c ! ?i"
  note g = getPipe_dest [OF inv, of "b_dest (hd ev)"]
  have p: "?p \<in> set (vc_pipes c)" using g(2) by simp
  then have pi: "pipe_inv ?p" "aligned (pipe_list ?p)" "allocator_ok ?al" using inv by (auto simp: transport_inv_def)
  have len: "length ev < size_mod - 1" "\<not> alloc_failure ?al (length ev) ?p"
    using event_wf_bound [OF ev] memory_ok_no_failure [OF mem p] by simp_all
  then obtain i p' where r: "recycle ?al ev ?p = Some (Ok i p')" "pipe_inv p'" "on_a_side ev (pipe_list ?p) (pipe_list p')"
    using recycle_correct [OF pi(1,3) len(1)] placed_side by blast
  have "aligned (pipe_list p')" using r(3) pi(2) aligned_append aligned_event [OF ev] by (auto simp: on_a_side_def)
  moreover have "take (unat (bucket_size (hd ev))) ev = ev" using event_wfD(2) [OF ev] by simp
  ultimately show ?thesis
    using r g(1) transport_inv_set_pipe [OF inv r(2)] by (auto simp: core_recycle_def no_throw_def in_pipe_def)
qed

text \<open>
  \<open>delivered E ev c c'\<close>: from \<open>c\<close> to \<open>c'\<close> exactly one copy of the event was made, in the destination's ring or
  at one end of the pipe to the destination.
\<close>

definition delivered :: "('b, 'z) env_scheme \<Rightarrow> 'b event \<Rightarrow> 'b core \<Rightarrow> 'b core \<Rightarrow> bool" where
  "delivered E ev c c' \<longleftrightarrow>
     core_id (b_dest (hd ev)) \<noteq> vc_index c \<and> in_ring E ev c c' \<or>
     (\<exists>c1. same_but_sent c c1 \<and> in_pipe (dest_index (b_dest (hd ev)) (vc_engine c)) ev c1 c' \<and>
        (core_id (b_dest (hd ev)) \<noteq> vc_index c \<longrightarrow> blocked E c ev))"

lemma core_send_event_correct:
  assumes inv: "transport_inv E c" and mem: "memory_ok E c" and ev: "event_wf ev"
  shows "\<exists>c'. core_send_event E ev c = Some c' \<and> transport_inv E c' \<and> delivered E ev c c'"
proof (cases "core_id (b_dest (hd ev)) = vc_index c")
  case True
  then show ?thesis
    using core_recycle_correct [OF inv mem ev] same_but_sent_refl [of c]
    unfolding core_send_event_def delivered_def by (auto simp del: same_but_sent_refl)
next
  case False
  obtain ok c1 where t: "core_try_send E ev c = Some (ok, c1)" "transport_inv E c1" "same_but_sent c c1"
      "\<not> ok \<longrightarrow> blocked E c ev" "ok \<longrightarrow> in_ring E ev c c1"
    using core_try_send_correct [OF inv ev] by auto
  have mem1: "memory_ok E c1" using mem same_but_sentD(1) [OF t(3)] by (simp add: memory_ok_def)
  have d: "dest_index (b_dest (hd ev)) (vc_engine c1) = dest_index (b_dest (hd ev)) (vc_engine c)"
    using same_but_sentD(9) [OF t(3)] by (simp add: dest_index_def)
  show ?thesis
  proof (cases ok)
    case True
    then show ?thesis using t False by (simp add: core_send_event_def delivered_def)
  next
    case nok: False
    from core_recycle_correct [OF t(2) mem1 ev] show ?thesis
      using t nok False unfolding core_send_event_def delivered_def d by auto
  qed
qed

text \<open>C19. \<open>VirtualCore::reply\<close> and \<open>forward\<close>: with memory for the pipes, the event handed in is turned
  around (or readdressed), marked alive so that the router will not destroy the bytes that were just
  passed on, and copied exactly once, whole: into the destination's ring if that is another core
  with room, and otherwise to one end of the pipe to it.\<close>

theorem reply_forward_once:
  assumes inv: "transport_inv E c" and mem: "memory_ok E c" and ev: "event_wf ev"
  shows "(\<exists>ev' c'. core_reply E ev c = Some (ev', c') \<and> transport_inv E c' \<and> delivered E ev' c c' \<and> event_wf ev' \<and>
      ev_is_alive (hd ev') \<and> b_dest (hd ev') = b_source (hd ev) \<and> b_source (hd ev') = b_dest (hd ev) \<and>
      b_id (hd ev') = b_id (hd ev) \<and> b_body (hd ev') = b_body (hd ev) \<and> tl ev' = tl ev) \<and>
    (\<exists>ev' c'. core_forward E dest ev c = Some (ev', c') \<and> transport_inv E c' \<and> delivered E ev' c c' \<and> event_wf ev' \<and>
      ev_is_alive (hd ev') \<and> b_dest (hd ev') = dest \<and> b_source (hd ev') = b_source (hd ev) \<and>
      b_id (hd ev') = b_id (hd ev) \<and> b_body (hd ev') = b_body (hd ev) \<and> tl ev' = tl ev)"
proof
  let ?r = "on_head (\<lambda>e. set_alive True (e\<lparr>b_dest := b_source e, b_source := b_dest e\<rparr>)) ev"
  let ?f = "on_head (\<lambda>e. set_alive True (e\<lparr>b_dest := dest\<rparr>)) ev"
  note ne = event_wfD(1) [OF ev]
  have r: "event_wf ?r" and f: "event_wf ?f" using ev ne by (simp_all add: event_wf_def event_defs)
  show "\<exists>ev' c'. core_reply E ev c = Some (ev', c') \<and> transport_inv E c' \<and> delivered E ev' c c' \<and> event_wf ev' \<and>
      ev_is_alive (hd ev') \<and> b_dest (hd ev') = b_source (hd ev) \<and> b_source (hd ev') = b_dest (hd ev) \<and>
      b_id (hd ev') = b_id (hd ev) \<and> b_body (hd ev') = b_body (hd ev) \<and> tl ev' = tl ev"
    using core_send_event_correct [OF inv mem r] r ne
    by (auto simp: core_reply_def Let_def event_defs state_fields)
  show "\<exists>ev' c'. core_forward E dest ev c = Some (ev', c') \<and> transport_inv E c' \<and> delivered E ev' c c' \<and> event_wf ev' \<and>
      ev_is_alive (hd ev') \<and> b_dest (hd ev') = dest \<and> b_source (hd ev') = b_source (hd ev) \<and>
      b_id (hd ev') = b_id (hd ev) \<and> b_body (hd ev') = b_body (hd ev) \<and> tl ev' = tl ev"
    using core_send_event_correct [OF inv mem f] f ne
    by (auto simp: core_forward_def Let_def event_defs state_fields)
qed

lemma demo_memory: "memory_ok demo_env (demo_core [demo_bucket 9 1])"
  using demo_pipe_inv(2) [of "[demo_bucket 9 1]"] by (simp add: memory_ok_def demo_env_def demo_core_def) (simp add: demo_pipe_def)

theorem reply_forward_once_witness:
  "\<exists>ev' c'. core_reply demo_env [demo_bucket 9 1] (demo_core [demo_bucket 9 1]) = Some (ev', c') \<and>
     b_dest (hd ev') = ActorId 2 0 \<and> ev_is_alive (hd ev')"
  using conjunct1 [OF reply_forward_once [OF demo_core_1 demo_memory demo_event_wf [of 9]]]
  by (elim conjE exE, intro exI conjI) (assumption | simp add: demo_bucket_def)+

text \<open>\<open>push<T>\<close> and \<open>send<T>\<close>, which build the event in the pipe.\<close>

lemma transport_inv_disposer: "transport_inv E c \<Longrightarrow> transport_inv E (core_ensure_disposer E tid c)"
  by (auto simp: transport_inv_def core_ensure_disposer_def ensure_disposer_def safe_dispose_def)

lemma core_ensure_disposer_simps [simp]:
  "vc_pipes (core_ensure_disposer E tid c) = vc_pipes c" "vc_engine (core_ensure_disposer E tid c) = vc_engine c"
  "vc_index (core_ensure_disposer E tid c) = vc_index c" "vc_resolved (core_ensure_disposer E tid c) = vc_resolved c"
  "memory_ok E (core_ensure_disposer E tid c) = memory_ok E c"
  by (simp_all add: core_ensure_disposer_def memory_ok_def)

lemma core_push_correct:
  assumes inv: "transport_inv E c" and mem: "memory_ok E c"
    and obj: "length obj = getItemSize sizeof_T BUCKET_BYTES" "obj \<noteq> []" "length obj < 65536"
    and ev: "ev = on_head (fill_event tid service sizeof_T dest source) obj"
    and i: "i = dest_index dest (vc_engine c)"
  shows "\<exists>p. core_push E tid service sizeof_T dest source obj c = Some (set_pipe i p (core_ensure_disposer E tid c)) \<and>
     pipe_list p = pipe_list (vc_pipes c ! i) @ ev \<and> event_wf ev \<and>
     transport_inv E (set_pipe i p (core_ensure_disposer E tid c))"
proof -
  let ?p = "vc_pipes c ! i" and ?al = "en_alloc E"
  note g = getPipe_dest [OF inv, of dest, folded i]
  have p: "?p \<in> set (vc_pipes c)" using g(2) by simp
  then have pi: "pipe_inv ?p" "aligned (pipe_list ?p)" "allocator_ok ?al" using inv by (auto simp: transport_inv_def)
  have wf: "event_wf ev" unfolding ev by (rule fill_event_wf [OF obj])
  have len: "length ev = getItemSize sizeof_T BUCKET_BYTES" "length ev < size_mod" "\<not> alloc_failure ?al (length ev) ?p"
    using obj memory_ok_no_failure [OF mem p] by (simp_all add: ev)
  obtain k p' where r: "put ?al ev ?p = Some (Ok k p')" "pipe_inv p'" "pipe_list p' = pipe_list ?p @ ev"
    using put_correct [OF pi(1,3) len(2)] len(3) by blast
  have g': "getPipe (core_id dest) (core_ensure_disposer E tid c) = Some i" using g(1) by (simp add: getPipe_def)
  obtain a where a: "allocate_back ?al (length ev) ?p = Some a" "store ev a = Some (Ok k p')"
    using r(1) by (auto simp: put_def split: Option.bind_splits)
  have "core_push E tid service sizeof_T dest source obj c = Some (set_pipe i p' (core_ensure_disposer E tid c))"
    using g' a len(1) by (simp add: core_push_def Let_def no_throw_def ev)
  moreover have "transport_inv E (set_pipe i p' (core_ensure_disposer E tid c))"
    using transport_inv_disposer [OF inv] r pi(2) wf by (intro transport_inv_set_pipe) (auto intro: aligned_append aligned_event)
  ultimately show ?thesis using r(3) wf by blast
qed

lemma core_send_correct:
  assumes inv: "transport_inv E c" and mem: "memory_ok E c"
    and obj: "length obj = getItemSize sizeof_T BUCKET_BYTES" "obj \<noteq> []" "length obj < 65536"
    and ev: "ev = on_head (fill_event tid service sizeof_T dest source) obj"
    and i: "i = dest_index dest (vc_engine c)"
  shows "\<exists>c'. core_send E tid service sizeof_T dest source obj c = Some c' \<and> transport_inv E c' \<and>
     vc_log c' = vc_log c \<and> (\<forall>j. j \<noteq> i \<longrightarrow> vc_pipes c' ! j = vc_pipes c ! j) \<and>
     (if core_id dest \<noteq> vc_index c \<and> pipe_list (vc_pipes c' ! i) = pipe_list (vc_pipes c ! i)
      then ring_at i (vc_resolved c) (vc_engine c') = ring_at i (vc_resolved c) (en_peers E (vc_tick c) (vc_engine c)) @ ev
      else on_a_side ev (pipe_list (vc_pipes c ! i)) (pipe_list (vc_pipes c' ! i)) \<and> (core_id dest \<noteq> vc_index c \<longrightarrow> blocked E c ev))"
proof -
  let ?p = "vc_pipes c ! i" and ?al = "en_alloc E" and ?c1 = "core_ensure_disposer E tid c"
  note g = getPipe_dest [OF inv, of dest, folded i]
  have p: "?p \<in> set (vc_pipes c)" using g(2) by simp
  then have pi: "pipe_inv ?p" "aligned (pipe_list ?p)" "allocator_ok ?al" using inv by (auto simp: transport_inv_def)
  have wf: "event_wf ev" unfolding ev by (rule fill_event_wf [OF obj])
  have dest: "b_dest (hd ev) = dest" using obj(2) by (simp add: ev fill_event_fields)
  have len: "length ev = getItemSize sizeof_T BUCKET_BYTES" "length ev < size_mod - 1" "\<not> alloc_failure ?al (length ev) ?p"
    using obj memory_ok_no_failure [OF mem p] by (simp_all add: ev)
  obtain k p' where r: "recycle ?al ev ?p = Some (Ok k p')" "pipe_inv p'" "placed ev (pipe_list ?p) p'"
    using recycle_correct [OF pi(1,3) len(2)] len(3) by blast
  obtain a where a: "pipe_allocate ?al (length ev) ?p = Some a" "store ev a = Some (Ok k p')"
    using r(1) by (auto simp: recycle_def split: Option.bind_splits)
  have g': "getPipe (core_id dest) ?c1 = Some i" using g(1) by (simp add: getPipe_def)
  let ?c2 = "set_pipe i p' ?c1"
  have c2: "vc_index ?c2 = vc_index c" "vc_pipes ?c2 = (vc_pipes c)[i := p']" "vc_engine ?c2 = vc_engine c"
      "vc_resolved ?c2 = vc_resolved c" "vc_tick ?c2 = vc_tick c" "vc_log ?c2 = vc_log c"
    by (simp_all add: set_pipe_def) (simp_all add: core_ensure_disposer_def)
  have "aligned (pipe_list p')"
    using r(3) pi(2) aligned_append aligned_event [OF wf] by (auto simp: placed_def split: if_splits)
  then have t2: "transport_inv E ?c2" using transport_inv_disposer [OF inv] r(2) by (intro transport_inv_set_pipe)
  have ne: "pipe_list p' \<noteq> pipe_list ?p" using r(3) event_wfD(1) [OF wf] by (auto simp: placed_def split: if_splits)
  show ?thesis
  proof (cases "core_id dest = vc_index c")
    case True
    have "core_send E tid service sizeof_T dest source obj c = Some ?c2"
      using g' a len(1) c2(1) True by (simp add: core_send_def Let_def no_throw_def ev)
    then show ?thesis using t2 c2 True g(2) placed_side [OF r(3)] by (intro exI [of _ ?c2]) simp
  next
    case False
    obtain ok c3 where t: "core_try_send E ev ?c2 = Some (ok, c3)" "transport_inv E c3" "same_but_sent ?c2 c3"
        "vc_log c3 = vc_log ?c2" "\<not> ok \<longrightarrow> blocked E ?c2 ev" "ok \<longrightarrow> in_ring E ev ?c2 c3"
      using core_try_send_correct [OF t2 wf] by auto
    have c3: "vc_pipes c3 = (vc_pipes c)[i := p']" using same_but_sentD(1) [OF t(3)] c2(2) by simp
    have bl: "blocked E ?c2 = blocked E c" using c2 by (simp add: fun_eq_iff blocked_def)
    have sz: "unat (bucket_size (hd ev)) = length ev" using event_wfD(2) [OF wf] .
    have run: "core_send E tid service sizeof_T dest source obj c =
        Some (if ok then set_pipe i (pipe_free (length ev) p') c3 else c3)"
      using g' a len(1) c2(1) False t(1) c3 g(2) sz by (simp add: core_send_def Let_def no_throw_def ev)
    show ?thesis
    proof (cases ok)
      case True
      note f = placed_free [OF r(2,3)]
      have "transport_inv E (set_pipe i (pipe_free (length ev) p') c3)"
        using t(2) f pi(2) by (intro transport_inv_set_pipe) simp_all
      moreover have "ring_at i (vc_resolved c) (vc_engine c3) =
          ring_at i (vc_resolved c) (en_peers E (vc_tick c) (vc_engine c)) @ ev"
        using t(6) True c2 dest i by (simp add: in_ring_def Let_def)
      ultimately show ?thesis
        unfolding run using True f c3 g(2) t(4) c2(6) False
        by (intro exI [of _ "set_pipe i (pipe_free (length ev) p') c3"]) (simp add: set_pipe_def)
    next
      case nok: False
      then show ?thesis
        unfolding run using t c3 g(2) ne placed_side [OF r(3)] c2(6) bl by (intro exI [of _ c3]) simp
    qed
  qed
qed

text \<open>C20. With memory for the pipes, \<open>push<T>\<close> appends the event whole at the end of the pipe to the
  destination's core, so that the pushes of a core to another one stay in order; \<open>send<T>\<close> leaves it
  either in the ring of the destination, the pipe then being exactly as before, or, if the
  destination is the same core or its ring had no room, at one end of the pipe.\<close>

theorem push_send_place_event:
  assumes "transport_inv E c" "memory_ok E c"
    and "length obj = getItemSize sizeof_T BUCKET_BYTES" "obj \<noteq> []" "length obj < 65536"
    and "ev = on_head (fill_event tid service sizeof_T dest source) obj"
    and "i = dest_index dest (vc_engine c)"
  shows "(\<exists>p. core_push E tid service sizeof_T dest source obj c = Some (set_pipe i p (core_ensure_disposer E tid c)) \<and>
       pipe_list p = pipe_list (vc_pipes c ! i) @ ev \<and> event_wf ev) \<and>
    (\<exists>c'. core_send E tid service sizeof_T dest source obj c = Some c' \<and> transport_inv E c' \<and>
       (\<forall>j. j \<noteq> i \<longrightarrow> vc_pipes c' ! j = vc_pipes c ! j) \<and>
       (if core_id dest \<noteq> vc_index c \<and> pipe_list (vc_pipes c' ! i) = pipe_list (vc_pipes c ! i)
        then ring_at i (vc_resolved c) (vc_engine c') = ring_at i (vc_resolved c) (en_peers E (vc_tick c) (vc_engine c)) @ ev
        else on_a_side ev (pipe_list (vc_pipes c ! i)) (pipe_list (vc_pipes c' ! i)) \<and>
          (core_id dest \<noteq> vc_index c \<longrightarrow> blocked E c ev)))"
  using core_push_correct [OF assms] core_send_correct [OF assms] by (elim exE conjE, intro conjI exI) assumption+

theorem push_send_place_event_witness:
  "\<exists>c'. core_send demo_env 7 False 64 (ActorId 3 9) (ActorId 2 2) [demo_bucket 0 0] (demo_core [demo_bucket 9 1]) = Some c' \<and>
     transport_inv demo_env c'"
  using conjunct2 [OF push_send_place_event [OF demo_core_1 demo_memory, of "[demo_bucket 0 0]" 64, OF _ _ _ refl refl,
      of 7 False "ActorId 3 9" "ActorId 2 2"]]
  by (simp add: getItemSize_def) (elim exE conjE, intro exI conjI, assumption+)

end
