(* ===== verification/Core_Actors.thy ===== *)
theory Core_Actors
  imports Virtual_Core
begin

text \<open>
  The actors of a core (\<open>src/qb/core/VirtualCore.cpp\<close>, \<open>VirtualCore.h\<close>, \<open>Actor.cpp\<close>): ids, subscriptions,
  callbacks, pending asks, and the creation, initialisation and removal of actors. What user code does
  in a handler, a constructor, a destructor or an \<open>onInit()\<close> is a list of calls of the framework's API,
  an arbitrary function of the state at its start.
\<close>

section \<open>User code\<close>

text \<open>
  \<open>emit\<close> is what a destructor may call, \<open>act\<close> what any other user code may call. \<open>Kill\<close> names an
  actor by its address; an address that is not that of an object is the user's own dangling pointer and
  is \<^const>\<open>None\<close>. \<open>Add_ref\<close> is \<open>addRefActor<T>\<close>: for a service its id, whether the base class registers
  the default events, the type of \<open>T\<close>, what its constructor calls, what \<open>onInit()\<close> calls up to its first
  suspension, and the state of the coroutine then.
\<close>

datatype sys_event = Kill_event | Signal_event | Unregister_callback_event | Ping_event | Require_event

datatype 'b emit =
    Push event_id bool size_t actor_id "'b event"
  | Send event_id bool size_t actor_id "'b event"
  | Broadcast event_id bool size_t "'b event"
  | Kill addr

datatype 'b act =
    Emit "'b emit"
  | Reply | Forward actor_id | Resolve_ask
  | Ask_register "64 word" bool | Ask_unregister "64 word" | Ask_register_type event_id
  | Register_event event_id | Unregister_event event_id
  | Register_callback | Unregister_callback
  | Spawn
  | Add_ref "service_id option" bool event_id "'b act list" "'b act list" init_state

text \<open>
  The environment of a core with its user code. \<open>en_on\<close> is \<open>None\<close> for an actor that does not override
  the handler of a system event. \<open>en_signum\<close>, \<open>en_ping_type\<close> and \<open>en_correlation\<close> read members of an event's
  body; \<open>en_object\<close> is the object the constructor of a system event builds, from its type and
  correlation id or signal number.
\<close>

record 'b user_env = "'b env" +
  en_tid :: "sys_event \<Rightarrow> event_id"
  en_sizeof :: "sys_event \<Rightarrow> size_t"
  en_object :: "sys_event \<Rightarrow> 32 word \<Rightarrow> 64 word \<Rightarrow> 'b event"
  en_signum :: "'b event \<Rightarrow> 32 word"
  en_ping_type :: "'b event \<Rightarrow> 32 word"
  en_correlation :: "'b event \<Rightarrow> 64 word"
  en_on :: "event_id \<Rightarrow> addr \<Rightarrow> 'b event \<Rightarrow> 'b core \<Rightarrow> 'b act list option"
  en_tick :: "addr \<Rightarrow> 'b core \<Rightarrow> 'b act list"
  en_dtor :: "addr \<Rightarrow> 'b core \<Rightarrow> 'b emit list"
  en_init :: "addr \<Rightarrow> 'b core \<Rightarrow> 'b act list \<times> init_state"
  en_now :: "'b core \<Rightarrow> 64 word"
  en_deadline_ns :: "64 word"
  en_iter :: "(actor_id \<times> addr) list \<Rightarrow> (actor_id \<times> addr) list"
  en_id_iter :: "actor_id list \<Rightarrow> actor_id list"

section \<open>Objects\<close>

definition deref :: "addr \<Rightarrow> (actor \<Rightarrow> 'b core \<Rightarrow> 'b core) \<Rightarrow> 'b core \<Rightarrow> 'b core" where
  "deref h f c = (case map_of (vc_heap c) h of Some a \<Rightarrow> f a c | None \<Rightarrow> logged (Dangling h) c)"

definition deref_opt :: "addr \<Rightarrow> (actor \<Rightarrow> 'b core \<Rightarrow> 'b core option) \<Rightarrow> 'b core \<Rightarrow> 'b core option" where
  "deref_opt h f c = (case map_of (vc_heap c) h of Some a \<Rightarrow> f a c | None \<Rightarrow> Some (logged (Dangling h) c))"

definition set_actor :: "addr \<Rightarrow> actor \<Rightarrow> 'b core \<Rightarrow> 'b core" where
  "set_actor h a c = c\<lparr>vc_heap := AList.update h a (vc_heap c)\<rparr>"

definition not_found :: actor_id where
  "not_found = actor_id_of_u32 NotFound"

definition ac_is_alive :: "actor \<Rightarrow> bool" where
  "ac_is_alive a = ac_alive a"

definition ac_is_active :: "actor \<Rightarrow> bool" where
  "ac_is_active a \<longleftrightarrow> ac_alive a \<and> ac_activated a"

definition ensure_coro_scope :: "actor \<Rightarrow> actor" where
  "ensure_coro_scope a = (if \<not> ac_scope a then a\<lparr>ac_scope := True, ac_cancelled := False\<rparr> else a)"

definition cancel_coro_scope :: "actor \<Rightarrow> actor" where
  "cancel_coro_scope a = (if ac_scope a then a\<lparr>ac_cancelled := True\<rparr> else a)"

section \<open>Ids, subscriptions and callbacks\<close>

definition generate_id :: "'b core \<Rightarrow> actor_id \<times> 'b core" where
  "generate_id c =
     (if pool_empty (vc_ids c) then (not_found, c)
      else let (sid, p) = pool_acquire (vc_ids c); c1 = c\<lparr>vc_ids := p\<rparr>
           in if sid = BroadcastSid then (not_found, c1) else (ActorId sid (vc_index c), c1))"

definition registerEvent :: "event_id \<Rightarrow> addr \<Rightarrow> 'b core \<Rightarrow> 'b core" where
  "registerEvent tid h = deref h (\<lambda>a c.
     if \<not> is_valid (ac_id a) then c
     else c\<lparr>vc_disposers := safe_dispose tid (vc_disposers c), vc_router := memh_subscribe tid (ac_id a) h (vc_router c)\<rparr>)"

definition unregisterEvent :: "event_id \<Rightarrow> addr \<Rightarrow> 'b core \<Rightarrow> 'b core" where
  "unregisterEvent tid h = deref h (\<lambda>a c. c\<lparr>vc_router := memh_unsubscribe_type tid (ac_id a) (vc_router c)\<rparr>)"

definition unregisterEvents :: "actor_id \<Rightarrow> 'b core \<Rightarrow> 'b core" where
  "unregisterEvents i c = c\<lparr>vc_router := memh_unsubscribe i (vc_router c)\<rparr>"

definition registerCallback :: "addr \<Rightarrow> 'b core \<Rightarrow> 'b core" where
  "registerCallback h = deref h (\<lambda>a c.
     if \<not> is_valid (ac_id a) then c
     else case map_of (vc_callbacks c) (ac_id a) of
        Some _ \<Rightarrow> c
      | None \<Rightarrow> c\<lparr>vc_callbacks := (ac_id a, h) # vc_callbacks c, vc_callback_list := vc_callback_list c @ [(h, ac_id a)]\<rparr>)"

text \<open>\<open>*vit = _callback_list.back(); _callback_list.pop_back()\<close> on the first entry of the actor.\<close>

definition swap_remove :: "('a \<Rightarrow> bool) \<Rightarrow> 'a list \<Rightarrow> 'a list" where
  "swap_remove P xs =
     (let i = length (takeWhile (\<lambda>x. \<not> P x) xs)
      in if i < length xs then butlast (xs[i := last xs]) else xs)"

definition unregisterCallback_now :: "actor_id \<Rightarrow> 'b core \<Rightarrow> 'b core" where
  "unregisterCallback_now i c =
     (case map_of (vc_callbacks c) i of
        None \<Rightarrow> c
      | Some _ \<Rightarrow> c\<lparr>vc_callbacks := AList.delete i (vc_callbacks c),
                   vc_callback_list := swap_remove (\<lambda>e. snd e = i) (vc_callback_list c)\<rparr>)"

definition unregisterCallback :: "('b, 'z) user_env_scheme \<Rightarrow> actor_id \<Rightarrow> 'b core \<Rightarrow> 'b core option" where
  "unregisterCallback E i c =
     core_push E (en_tid E Unregister_callback_event) False (en_sizeof E Unregister_callback_event) i i
       (en_object E Unregister_callback_event 0 0) c"

section \<open>Pending asks\<close>

definition ask_next_id :: "actor_id \<Rightarrow> 'b core \<Rightarrow> 64 word \<times> 'b core" where
  "ask_next_id owner c =
     (let n = vc_ask_counter c + 1;
          (s, counter) = (if n \<noteq> 0 then (n, n) else (n + 1, n + 1))
      in (push_bit 48 (ucast (core_id owner)) OR s, c\<lparr>vc_ask_counter := counter\<rparr>))"

definition ask_register :: "64 word \<Rightarrow> ask_slot \<Rightarrow> 'b core \<Rightarrow> 'b core" where
  "ask_register i slot c = c\<lparr>vc_ask_slots := AList.update i slot (vc_ask_slots c)\<rparr>"

definition ask_unregister :: "64 word \<Rightarrow> 'b core \<Rightarrow> 'b core" where
  "ask_unregister i c = c\<lparr>vc_ask_slots := AList.delete i (vc_ask_slots c)\<rparr>"

text \<open>
  The delivery function of a slot (\<open>ask_awaiter::deliver_thunk\<close>) marks it done, moves the event into the
  awaiter and schedules the coroutine for the next run of the event loop.
\<close>

definition deliver_thunk :: "64 word \<Rightarrow> 'b event \<Rightarrow> 'b core \<Rightarrow> 'b core" where
  "deliver_thunk i resp c =
     (case map_of (vc_ask_slots c) i of
        None \<Rightarrow> c
      | Some slot \<Rightarrow>
          if slot_done slot then c
          else logged (Replied_to resp) (c\<lparr>vc_ask_slots := AList.update i (slot\<lparr>slot_done := True\<rparr>) (vc_ask_slots c)\<rparr>))"

definition ask_deliver :: "64 word \<Rightarrow> actor_id \<Rightarrow> 'b event \<Rightarrow> 'b core \<Rightarrow> bool \<times> 'b core" where
  "ask_deliver i owner resp c =
     (if i = 0 then (False, c)
      else case map_of (vc_ask_slots c) i of
        None \<Rightarrow> (False, c)
      | Some slot \<Rightarrow>
          if slot_done slot \<or> \<not> slot_deliver slot \<or> slot_owner slot \<noteq> owner then (False, c)
          else (True, deliver_thunk i resp c))"

definition ask_register_type :: "event_id \<Rightarrow> 'b core \<Rightarrow> 'b core" where
  "ask_register_type tid c = c\<lparr>vc_ask_types := List.insert tid (vc_ask_types c)\<rparr>"

definition ask_try_deliver_reply :: "('b, 'z) user_env_scheme \<Rightarrow> 'b event \<Rightarrow> actor_id \<Rightarrow> 'b core \<Rightarrow> bool \<times> 'b core" where
  "ask_try_deliver_reply E ev dest c =
     (if \<not> List.member (vc_ask_types c) (ev_getID (hd ev)) then (False, c)
      else ask_deliver (en_correlation E ev) dest ev c)"

section \<open>Calls of the API\<close>

definition killActor :: "actor_id \<Rightarrow> 'b core \<Rightarrow> 'b core" where
  "killActor i c = c\<lparr>vc_to_remove := List.insert i (vc_to_remove c)\<rparr>"

definition actor_kill :: "addr \<Rightarrow> 'b core \<Rightarrow> 'b core" where
  "actor_kill h = deref h (\<lambda>a c. killActor (ac_id a) (set_actor h (cancel_coro_scope (a\<lparr>ac_alive := False\<rparr>)) c))"

definition actor_reply :: "('b, 'z) user_env_scheme \<Rightarrow> 'b event \<Rightarrow> 'b core \<Rightarrow> ('b event \<times> 'b core) option" where
  "actor_reply E ev c =
     (if ev = [] then None
      else if is_broadcast (ev_getDestination (hd ev)) then Some (ev, c)
      else core_reply E ev c)"

definition actor_forward ::
  "('b, 'z) user_env_scheme \<Rightarrow> actor_id \<Rightarrow> 'b event \<Rightarrow> 'b core \<Rightarrow> ('b event \<times> 'b core) option" where
  "actor_forward E dest ev c =
     (if ev = [] then None
      else if is_broadcast (ev_getDestination (hd ev)) then Some (ev, c)
      else core_forward E dest ev c)"

fun do_emit :: "('b, 'z) user_env_scheme \<Rightarrow> addr \<Rightarrow> 'b emit \<Rightarrow> 'b core \<Rightarrow> 'b core option" where
  "do_emit E h (Push tid sv sz dest obj) c = deref_opt h (\<lambda>a. core_push E tid sv sz dest (ac_id a) obj) c"
| "do_emit E h (Send tid sv sz dest obj) c = deref_opt h (\<lambda>a. core_send E tid sv sz dest (ac_id a) obj) c"
| "do_emit E h (Broadcast tid sv sz obj) c = deref_opt h (\<lambda>a. core_broadcast E tid sv sz (ac_id a) obj) c"
| "do_emit E h (Kill h') c = (if h' \<in> set (map fst (vc_heap c)) then Some (actor_kill h' c) else None)"

fun do_emits :: "('b, 'z) user_env_scheme \<Rightarrow> addr \<Rightarrow> 'b emit list \<Rightarrow> 'b core \<Rightarrow> 'b core option" where
  "do_emits E h [] c = Some c"
| "do_emits E h (x # xs) c = do { c1 \<leftarrow> do_emit E h x c; do_emits E h xs c1 }"

section \<open>Removal\<close>

text \<open>The destructor of an actor: what the user's destructor calls, then the end of the object.\<close>

definition destroy_actor :: "('b, 'z) user_env_scheme \<Rightarrow> addr \<Rightarrow> 'b core \<Rightarrow> 'b core option" where
  "destroy_actor E h = deref_opt h (\<lambda>a c. do {
     c1 \<leftarrow> do_emits E h (en_dtor E h c) c;
     Some (logged (Deleted h (ac_id a)) (c1\<lparr>vc_heap := AList.delete h (vc_heap c1)\<rparr>))
   })"

definition remove_now :: "('b, 'z) user_env_scheme \<Rightarrow> actor_id \<Rightarrow> 'b core \<Rightarrow> 'b core option" where
  "remove_now E i c =
     (let c1 = unregisterEvents i (unregisterCallback_now i c)
      in case map_of (vc_actors c1) i of
           None \<Rightarrow> Some c1
         | Some h \<Rightarrow> do {
             let c2 = deref h (\<lambda>a. set_actor h (cancel_coro_scope a)) c1;
             c3 \<leftarrow> destroy_actor E h (c2\<lparr>vc_actors := AList.delete i (vc_actors c2)\<rparr>);
             Some (if vc_nb_service c3 < service_id i then c3\<lparr>vc_ids := pool_release (service_id i) (vc_ids c3)\<rparr> else c3)
           })"

definition removeActor :: "('b, 'z) user_env_scheme \<Rightarrow> actor_id \<Rightarrow> 'b core \<Rightarrow> 'b core option" where
  "removeActor E i c =
     (case map_of (vc_activating c) i of
        None \<Rightarrow> remove_now E i c
      | Some act \<Rightarrow>
          let c1 = (case map_of (vc_actors c) i of
                      Some h \<Rightarrow> deref h (\<lambda>a. set_actor h (cancel_coro_scope a)) c
                    | None \<Rightarrow> c)
          in if \<not> init_done (act_init act) then Some (c1\<lparr>vc_dying := List.insert i (vc_dying c1)\<rparr>)
             else remove_now E i (c1\<lparr>vc_activating := AList.delete i (vc_activating c1), vc_dying := removeAll i (vc_dying c1)\<rparr>))"

section \<open>Creation\<close>

datatype init_outcome = ReadyTrue | ReadyFalse | Suspended_init

text \<open>\<open>run\<close> is what the coroutine does when it is resumed for the first time.\<close>

definition drive_init ::
  "('b core \<Rightarrow> 'b core option) \<Rightarrow> init_state \<Rightarrow> 'b core \<Rightarrow> (init_outcome \<times> 'b core) option" where
  "drive_init run init c =
     (case init of
        Null_task \<Rightarrow> Some (ReadyTrue, c)
      | Suspended \<Rightarrow> do { c1 \<leftarrow> run c; Some (Suspended_init, c1) }
      | Returned_bool b \<Rightarrow> do { c1 \<leftarrow> run c; Some (if b then ReadyTrue else ReadyFalse, c1) }
      | Threw \<Rightarrow> do { c1 \<leftarrow> run c; Some (ReadyFalse, c1) })"

definition begin_activation :: "('b, 'z) user_env_scheme \<Rightarrow> addr \<Rightarrow> 'b core \<Rightarrow> 'b core" where
  "begin_activation E h = deref h (\<lambda>a c.
     let c1 = set_actor h (a\<lparr>ac_activated := False\<rparr>) c;
         deadline = (if en_deadline_ns E \<noteq> 0 then en_now E c + en_deadline_ns E else 0);
         act = \<lparr>act_owner = h, act_init = Suspended, act_deadline = deadline, act_cancelling = False, act_stash = []\<rparr>
     in case map_of (vc_activating c1) (ac_id a) of
          Some _ \<Rightarrow> c1
        | None \<Rightarrow> c1\<lparr>vc_activating := (ac_id a, act) # vc_activating c1\<rparr>)"

definition initActor ::
  "('b, 'z) user_env_scheme \<Rightarrow> addr \<Rightarrow> bool \<Rightarrow> ('b core \<Rightarrow> 'b core option) \<Rightarrow> init_state \<Rightarrow> actor_id \<Rightarrow> 'b core \<Rightarrow>
     (actor_id \<times> 'b core) option" where
  "initActor E h doInit run init i c =
     (if doInit then do {
        (out, c1) \<leftarrow> drive_init run init c;
        case out of
          ReadyTrue \<Rightarrow> Some (i, c1)
        | ReadyFalse \<Rightarrow> do { c2 \<leftarrow> removeActor E i c1; Some (not_found, c2) }
        | Suspended_init \<Rightarrow> Some (i, begin_activation E h c1)
      }
      else Some (i, c))"

text \<open>
  \<open>appendActor\<close> owns the object: what it does not put into the map is destroyed on return. Emplacing an
  id that \<open>onInit()\<close> itself has inserted meanwhile is \<^const>\<open>None\<close>: whether the map then destroys the
  object is unspecified.
\<close>

definition appendActor ::
  "('b, 'z) user_env_scheme \<Rightarrow> addr \<Rightarrow> bool \<Rightarrow> ('b core \<Rightarrow> 'b core option) \<Rightarrow> init_state \<Rightarrow> 'b core \<Rightarrow>
     (actor_id \<times> 'b core) option" where
  "appendActor E h doInit run init c =
     (case map_of (vc_heap c) h of
        None \<Rightarrow> Some (not_found, logged (Dangling h) c)
      | Some a \<Rightarrow>
          let i = ac_id a
          in if i \<in> set (map fst (vc_actors c))
             then do { c1 \<leftarrow> destroy_actor E h c; Some (not_found, c1) }
             else do {
               (r, c1) \<leftarrow> initActor E h doInit run init i c;
               if is_valid r
               then (if i \<in> set (map fst (vc_actors c1)) then None else Some (i, c1\<lparr>vc_actors := (i, h) # vc_actors c1\<rparr>))
               else do {
                 c2 \<leftarrow> destroy_actor E h c1;
                 Some (not_found, c2)
               }
             })"

definition default_events :: "sys_event list" where
  "default_events = [Kill_event, Signal_event, Unregister_callback_event, Ping_event, Require_event]"

text \<open>
  The constructors of \<open>Actor\<close> and \<open>Service\<close>. An id is usable if no other object has it and, for a
  service, if it is one of the registered service indices; the pool of ids may be exhausted.
\<close>

definition usable_id :: "service_id option \<Rightarrow> actor_id \<Rightarrow> 'b core \<Rightarrow> bool" where
  "usable_id svc i c \<longleftrightarrow> is_valid i \<and> i \<notin> ac_id ` snd ` set (vc_heap c) \<and>
     (case svc of None \<Rightarrow> True | Some sid \<Rightarrow> sid \<le> vc_nb_service c)"

definition actor_ctor :: "('b, 'z) user_env_scheme \<Rightarrow> service_id option \<Rightarrow> bool \<Rightarrow> 'b core \<Rightarrow> addr \<times> 'b core" where
  "actor_ctor E svc defaults c =
     (let (i, c1) = (case svc of None \<Rightarrow> generate_id c | Some sid \<Rightarrow> (ActorId sid (vc_index c), c));
          h = vc_fresh c1;
          a = \<lparr>ac_id = i, ac_type = 0, ac_alive = True, ac_activated = True, ac_scope = False, ac_cancelled = False\<rparr>;
          c2 = (if usable_id svc i c1 then id else logged (Unusable_id h i)) (c1\<lparr>vc_heap := (h, a) # vc_heap c1, vc_fresh := h + 1\<rparr>)
      in (h, if defaults then fold (\<lambda>s. registerEvent (en_tid E s) h) default_events c2 else c2))"

fun run_act :: "('b, 'z) user_env_scheme \<Rightarrow> addr \<Rightarrow> 'b act \<Rightarrow> 'b event \<Rightarrow> 'b core \<Rightarrow> ('b event \<times> 'b core) option"
and run_acts :: "('b, 'z) user_env_scheme \<Rightarrow> addr \<Rightarrow> 'b act list \<Rightarrow> 'b event \<Rightarrow> 'b core \<Rightarrow> ('b event \<times> 'b core) option" where
  "run_act E h (Emit x) ev c = do { c1 \<leftarrow> do_emit E h x c; Some (ev, c1) }"
| "run_act E h Reply ev c = actor_reply E ev c"
| "run_act E h (Forward dest) ev c = actor_forward E dest ev c"
| "run_act E h Resolve_ask ev c =
     Some (ev, deref h (\<lambda>a c. snd (ask_deliver (en_correlation E ev) (ac_id a) ev c)) c)"
| "run_act E h (Ask_register i d) ev c =
     Some (ev, deref h (\<lambda>a. ask_register i \<lparr>slot_owner = ac_id a, slot_done = False, slot_deliver = d\<rparr>) c)"
| "run_act E h (Ask_unregister i) ev c = Some (ev, ask_unregister i c)"
| "run_act E h (Ask_register_type tid) ev c = Some (ev, ask_register_type tid c)"
| "run_act E h (Register_event tid) ev c = Some (ev, registerEvent tid h c)"
| "run_act E h (Unregister_event tid) ev c = Some (ev, unregisterEvent tid h c)"
| "run_act E h Register_callback ev c = Some (ev, registerCallback h c)"
| "run_act E h Unregister_callback ev c =
     do { c1 \<leftarrow> deref_opt h (\<lambda>a. unregisterCallback E (ac_id a)) c; Some (ev, c1) }"
| "run_act E h Spawn ev c = Some (ev, deref h (\<lambda>a. set_actor h (ensure_coro_scope a)) c)"
| "run_act E h (Add_ref svc defaults ty ctor init outcome) ev c =
     do {
       let (h', c1) = actor_ctor E svc defaults c;
       (_, c2) \<leftarrow> run_acts E h' ctor [] c1;
       let c3 = deref h' (\<lambda>a. set_actor h' (a\<lparr>ac_type := ty\<rparr>)) c2;
       (_, c4) \<leftarrow> appendActor E h' True (\<lambda>c. map_option snd (run_acts E h' init [] c)) outcome c3;
       Some (ev, c4)
     }"
| "run_acts E h [] ev c = Some (ev, c)"
| "run_acts E h (x # xs) ev c = do { (ev1, c1) \<leftarrow> run_act E h x ev c; run_acts E h xs ev1 c1 }"

section \<open>Lookup\<close>

text \<open>\<open>derives ty\<close> is whether the dynamic type of an object derives from the requested one.\<close>

definition findActor :: "(event_id \<Rightarrow> bool) \<Rightarrow> event_id \<Rightarrow> actor_id \<Rightarrow> 'b core \<Rightarrow> addr option" where
  "findActor derives ty i c =
     (if \<not> is_valid i then None
      else case map_of (vc_actors c) i of
        None \<Rightarrow> None
      | Some h \<Rightarrow>
          (case map_of (vc_heap c) h of
             None \<Rightarrow> None
           | Some a \<Rightarrow>
               if \<not> ac_is_active a then None
               else if ac_type a = ty then Some h
               else if derives (ac_type a) then Some h else None))"

definition getService :: "(event_id \<Rightarrow> bool) \<Rightarrow> service_id \<Rightarrow> 'b core \<Rightarrow> addr option" where
  "getService derives ServiceIndex c =
     (case map_of (vc_actors c) (ActorId ServiceIndex (vc_index c)) of
        None \<Rightarrow> None
      | Some h \<Rightarrow> (case map_of (vc_heap c) h of None \<Rightarrow> None | Some a \<Rightarrow> if derives (ac_type a) then Some h else None))"

definition isActorAlive :: "actor_id \<Rightarrow> 'b core \<Rightarrow> bool" where
  "isActorAlive i c =
     (if \<not> is_valid i then False
      else case map_of (vc_actors c) i of
        None \<Rightarrow> False
      | Some h \<Rightarrow> (case map_of (vc_heap c) h of None \<Rightarrow> False | Some a \<Rightarrow> ac_is_active a))"

end
