(* ===== verification/Core_Pointers.thy ===== *)
theory Core_Pointers
  imports Core_Actors "HOL-Library.Multiset"
begin

text \<open>
  The invariant of a core's bookkeeping: every pointer the core holds leads to a live object with the id
  it is filed under, the callback tables agree, and ids are unique. This theory proves it for the calls
  that create objects and pointers; their removal is in the theory on the life cycle of actors.
\<close>

section \<open>Steps of the transport\<close>

text \<open>Sending changes the pipes, the engine, the tick and the disposer table, nothing else.\<close>

definition unmoved :: "'b core \<Rightarrow> 'b core" where
  "unmoved c = c\<lparr>vc_engine := undefined, vc_pipes := [], vc_tick := 0, vc_disposers := []\<rparr>"

lemma unmoved_steps [simp]:
  "unmoved (c\<lparr>vc_engine := eng\<rparr>) = unmoved c" "unmoved (c\<lparr>vc_pipes := ps\<rparr>) = unmoved c"
  "unmoved (c\<lparr>vc_tick := n\<rparr>) = unmoved c" "unmoved (c\<lparr>vc_disposers := ds\<rparr>) = unmoved c"
  "unmoved (c\<lparr>vc_engine := eng, vc_tick := n\<rparr>) = unmoved c"
  "unmoved (set_pipe i p c) = unmoved c" "unmoved (core_ensure_disposer E tid c) = unmoved c"
  by (simp_all add: unmoved_def set_pipe_def core_ensure_disposer_def)

lemma unmoved_eqD:
  assumes "unmoved c' = unmoved c"
  shows "vc_heap c' = vc_heap c" "vc_fresh c' = vc_fresh c" "vc_actors c' = vc_actors c" "vc_router c' = vc_router c"
    "vc_callbacks c' = vc_callbacks c" "vc_callback_list c' = vc_callback_list c" "vc_activating c' = vc_activating c"
    "vc_snap c' = vc_snap c" "vc_ids c' = vc_ids c" "vc_index c' = vc_index c" "vc_nb_service c' = vc_nb_service c"
    "vc_log c' = vc_log c"
  using arg_cong [OF assms, of vc_heap] arg_cong [OF assms, of vc_fresh] arg_cong [OF assms, of vc_actors]
    arg_cong [OF assms, of vc_router] arg_cong [OF assms, of vc_callbacks] arg_cong [OF assms, of vc_callback_list]
    arg_cong [OF assms, of vc_activating] arg_cong [OF assms, of vc_snap] arg_cong [OF assms, of vc_ids]
    arg_cong [OF assms, of vc_index] arg_cong [OF assms, of vc_nb_service] arg_cong [OF assms, of vc_log]
  by (simp_all add: unmoved_def)

lemma core_try_send_unmoved: "core_try_send E ev c = Some (ok, c') \<Longrightarrow> unmoved c' = unmoved c"
  by (auto simp: core_try_send_def Let_def split: Option.bind_splits)

lemma core_recycle_unmoved: "core_recycle E ev c = Some c' \<Longrightarrow> unmoved c' = unmoved c"
  by (auto simp: core_recycle_def split: Option.bind_splits)

lemma core_send_event_unmoved: "core_send_event E ev c = Some c' \<Longrightarrow> unmoved c' = unmoved c"
  by (auto simp: core_send_event_def split: Option.bind_splits if_splits
      dest!: core_try_send_unmoved core_recycle_unmoved)

lemma core_push_unmoved: "core_push E tid sv sz dest src obj c = Some c' \<Longrightarrow> unmoved c' = unmoved c"
  by (auto simp: core_push_def Let_def split: Option.bind_splits)

lemma core_send_unmoved: "core_send E tid sv sz dest src obj c = Some c' \<Longrightarrow> unmoved c' = unmoved c"
  by (auto simp: core_send_def Let_def split: Option.bind_splits if_splits dest!: core_try_send_unmoved)

lemma core_broadcast_loop_unmoved:
  "core_broadcast_loop E tid sv sz src obj its c = Some c' \<Longrightarrow> unmoved c' = unmoved c"
proof (induction its arbitrary: c)
  case (Cons it its)
  then obtain c1 where "core_send E tid sv sz (BroadcastId (ucast it)) src obj c = Some c1"
    "core_broadcast_loop E tid sv sz src obj its c1 = Some c'" by (auto split: Option.bind_splits)
  then show ?case using Cons.IH core_send_unmoved by metis
qed simp

lemma core_broadcast_unmoved: "core_broadcast E tid sv sz src obj c = Some c' \<Longrightarrow> unmoved c' = unmoved c"
  by (auto simp: core_broadcast_def Let_def dest: core_broadcast_loop_unmoved)

lemma actor_reply_unmoved: "actor_reply E ev c = Some (ev', c') \<Longrightarrow> unmoved c' = unmoved c"
  by (auto simp: actor_reply_def core_reply_def Let_def split: Option.bind_splits if_splits dest: core_send_event_unmoved)

lemma actor_forward_unmoved: "actor_forward E dest ev c = Some (ev', c') \<Longrightarrow> unmoved c' = unmoved c"
  by (auto simp: actor_forward_def core_forward_def Let_def split: Option.bind_splits if_splits dest: core_send_event_unmoved)

lemma unregisterCallback_unmoved: "unregisterCallback E i c = Some c' \<Longrightarrow> unmoved c' = unmoved c"
  by (simp add: unregisterCallback_def core_push_unmoved)

section \<open>Invariant of the bookkeeping\<close>

text \<open>
  Every pointer the core holds, in the router, the callback tables, the actor map and the activations,
  leads to a live object with the id it is filed under; the callback list mirrors the callback map; and
  ids are unique, the free ones of the pool included.
\<close>

definition points_to :: "'b core \<Rightarrow> actor_id \<Rightarrow> addr \<Rightarrow> bool" where
  "points_to c i h \<longleftrightarrow> is_valid i \<and> (\<exists>a. map_of (vc_heap c) h = Some a \<and> ac_id a = i)"

definition pointers_ok :: "'b core \<Rightarrow> bool" where
  "pointers_ok c \<longleftrightarrow>
     (\<forall>t i h. memh_lookup (vc_router c) t i = Some h \<longrightarrow> points_to c i h) \<and>
     (\<forall>i h. map_of (vc_callbacks c) i = Some h \<longrightarrow> points_to c i h) \<and>
     (\<forall>i h. map_of (vc_actors c) i = Some h \<longrightarrow> points_to c i h) \<and>
     (\<forall>i act. map_of (vc_activating c) i = Some act \<longrightarrow> points_to c i (act_owner act))"

definition tables_ok :: "'b core \<Rightarrow> bool" where
  "tables_ok c \<longleftrightarrow> distinct (map fst (vc_callbacks c)) \<and>
     mset (map prod.swap (vc_callback_list c)) = mset (vc_callbacks c) \<and> distinct (map fst (vc_actors c))"

definition ids_ok :: "'b core \<Rightarrow> bool" where
  "ids_ok c \<longleftrightarrow> pool_inv (vc_ids c) \<and> (\<forall>n \<in> free_ids (bits (vc_ids c)). unat (vc_nb_service c) < n) \<and>
     (\<forall>h a. map_of (vc_heap c) h = Some a \<longrightarrow> h < vc_fresh c \<and> is_valid (ac_id a) \<and> core_id (ac_id a) = vc_index c \<and>
        unat (service_id (ac_id a)) \<notin> free_ids (bits (vc_ids c))) \<and>
     (\<forall>h h' a a'. map_of (vc_heap c) h = Some a \<longrightarrow> map_of (vc_heap c) h' = Some a' \<longrightarrow> ac_id a = ac_id a' \<longrightarrow> h = h')"

definition no_dangling :: "'b core \<Rightarrow> bool" where
  "no_dangling c \<longleftrightarrow> (\<forall>h. Dangling h \<notin> set (vc_log c))"

definition actor_inv :: "'b core \<Rightarrow> bool" where
  "actor_inv c \<longleftrightarrow> pointers_ok c \<and> tables_ok c \<and> ids_ok c \<and> no_dangling c"

definition id_conflict :: "'b core \<Rightarrow> bool" where
  "id_conflict c \<longleftrightarrow> (\<exists>h i. Unusable_id h i \<in> set (vc_log c))"

text \<open>
  \<open>extends f\<close>: the objects below address \<open>f\<close> stay, and what is new in the actor map and among the
  activations belongs to objects from \<open>f\<close> on. \<open>step_ok f\<close> is what user code guarantees of the bookkeeping:
  the log grows, and as long as every actor has got an id of its own the invariant is kept.
\<close>

definition extends :: "addr \<Rightarrow> 'b core \<Rightarrow> 'b core \<Rightarrow> bool" where
  "extends f c c' \<longleftrightarrow> vc_fresh c \<le> vc_fresh c' \<and> vc_snap c' = vc_snap c \<and>
     (\<forall>h a. h < f \<longrightarrow> map_of (vc_heap c) h = Some a \<longrightarrow> (\<exists>a'. map_of (vc_heap c') h = Some a' \<and> ac_id a' = ac_id a)) \<and>
     (\<forall>i h. map_of (vc_actors c') i = Some h \<longrightarrow> map_of (vc_actors c) i = Some h \<or> f \<le> h) \<and>
     (\<forall>i act. map_of (vc_activating c') i = Some act \<longrightarrow>
        (\<exists>act0. map_of (vc_activating c) i = Some act0 \<and> act_owner act = act_owner act0) \<or> f \<le> act_owner act)"

definition step_ok :: "addr \<Rightarrow> 'b core \<Rightarrow> 'b core \<Rightarrow> bool" where
  "step_ok f c c' \<longleftrightarrow> (\<exists>l. vc_log c' = vc_log c @ l) \<and>
     (id_conflict c' \<or> (actor_inv c \<longrightarrow> actor_inv c' \<and> extends f c c'))"

lemma extends_refl [simp]: "extends f c c"
  by (auto simp: extends_def)

lemma extends_trans:
  assumes 1: "extends f a b" and 2: "extends f b c"
  shows "extends f a c"
proof -
  have "\<exists>x'. map_of (vc_heap c) h = Some x' \<and> ac_id x' = ac_id x" if "h < f" "map_of (vc_heap a) h = Some x" for h x
    using 1 2 that unfolding extends_def by metis
  moreover have "map_of (vc_actors a) i = Some h \<or> f \<le> h" if "map_of (vc_actors c) i = Some h" for i h
    using 1 2 that unfolding extends_def by metis
  moreover have "(\<exists>act0. map_of (vc_activating a) i = Some act0 \<and> act_owner act = act_owner act0) \<or> f \<le> act_owner act"
    if "map_of (vc_activating c) i = Some act" for i act
    using 1 2 that unfolding extends_def by metis
  ultimately show ?thesis using 1 2 unfolding extends_def by auto
qed

lemma extends_mono: "extends f c c' \<Longrightarrow> g \<le> f \<Longrightarrow> extends g c c'"
  unfolding extends_def by (meson less_le_trans order.trans)

lemma id_conflict_mono: "vc_log c' = vc_log c @ l \<Longrightarrow> id_conflict c \<Longrightarrow> id_conflict c'"
  by (auto simp: id_conflict_def)

lemma step_ok_refl [simp]: "step_ok f c c"
  by (simp add: step_ok_def)

lemma step_ok_trans:
  assumes "step_ok f a b" "step_ok f b c"
  shows "step_ok f a c"
  using assms id_conflict_mono [of c b] extends_trans [of f a b c] unfolding step_ok_def by (metis append.assoc)

lemma step_ok_mono: "step_ok f c c' \<Longrightarrow> g \<le> f \<Longrightarrow> step_ok g c c'"
  unfolding step_ok_def using extends_mono by blast

lemma step_okI:
  "vc_log c' = vc_log c @ l \<Longrightarrow> (actor_inv c \<Longrightarrow> actor_inv c' \<and> extends f c c') \<Longrightarrow> step_ok f c c'"
  by (auto simp: step_ok_def)

lemma step_ok_fresh: "step_ok f c c' \<Longrightarrow> actor_inv c \<Longrightarrow> \<not> id_conflict c' \<Longrightarrow> vc_fresh c \<le> vc_fresh c'"
  by (auto simp: step_ok_def extends_def)

lemmas inv_defs = actor_inv_def pointers_ok_def tables_ok_def ids_ok_def no_dangling_def points_to_def

lemma step_ok_unmoved:
  assumes "unmoved c' = unmoved c"
  shows "step_ok f c c'"
  by (rule step_okI [of _ _ "[]"]) (simp_all add: unmoved_eqD [OF assms] inv_defs extends_def)

text \<open>\<open>good\<close>: the invariant, unless some actor got no id of its own; \<open>live\<close>: likewise for an object.\<close>

definition good :: "'b core \<Rightarrow> bool" where
  "good c \<longleftrightarrow> (\<not> id_conflict c \<longrightarrow> actor_inv c)"

definition live :: "addr \<Rightarrow> 'b core \<Rightarrow> bool" where
  "live h c \<longleftrightarrow> (\<not> id_conflict c \<longrightarrow> map_of (vc_heap c) h \<noteq> None)"

lemma step_ok_log: "step_ok f c c' \<Longrightarrow> id_conflict c \<Longrightarrow> id_conflict c'"
  by (auto simp: step_ok_def intro: id_conflict_mono)

lemma good_step: "good c \<Longrightarrow> step_ok f c c' \<Longrightarrow> good c'"
  using step_ok_log [of f c c'] by (auto simp: good_def step_ok_def)

lemma live_fresh: "live h c \<Longrightarrow> good c \<Longrightarrow> id_conflict c \<or> h < vc_fresh c"
  by (auto simp: live_def good_def actor_inv_def ids_ok_def)

lemma live_step:
  assumes "live h c" "good c" "step_ok f c c'" "h < f"
  shows "live h c'"
proof (unfold live_def, intro impI)
  assume n: "\<not> id_conflict c'"
  then have "\<not> id_conflict c" using step_ok_log [OF assms(3)] by blast
  then have "extends f c c'" "map_of (vc_heap c) h \<noteq> None"
    using assms(1-3) n by (auto simp: live_def good_def step_ok_def)
  then show "map_of (vc_heap c') h \<noteq> None" using assms(4) unfolding extends_def by fastforce
qed

lemma live_step_fresh:
  assumes "live h c" "good c" "step_ok (vc_fresh c) c c'"
  shows "live h c'"
  using live_fresh [OF assms(1,2)] live_step [OF assms(1-3)] step_ok_log [OF assms(3)] by (auto simp: live_def)

lemma step_ok_seq:
  assumes "good a" "step_ok f a b" "step_ok (vc_fresh b) b c" "f \<le> vc_fresh a"
  shows "step_ok f a c"
proof (cases "id_conflict b")
  case True
  then have "id_conflict c" using step_ok_log [OF assms(3)] by blast
  moreover have "\<exists>l. vc_log c = vc_log a @ l" using assms(2,3) unfolding step_ok_def by (metis append.assoc)
  ultimately show ?thesis by (simp add: step_ok_def)
next
  case False
  then have "actor_inv a" using assms(1) step_ok_log [OF assms(2)] by (auto simp: good_def)
  then have "f \<le> vc_fresh b" using step_ok_fresh [OF assms(2) _ False] assms(4) by simp
  then show ?thesis using step_ok_trans [OF assms(2)] step_ok_mono [OF assms(3)] by blast
qed

lemma step_ok_deref:
  assumes "live h c" "\<And>a. map_of (vc_heap c) h = Some a \<Longrightarrow> step_ok f c (g a c)"
  shows "step_ok f c (deref h g c)"
proof (cases "map_of (vc_heap c) h")
  case None
  then have "id_conflict c" using assms(1) by (simp add: live_def)
  then have "id_conflict (logged (Dangling h) c)" by (simp add: id_conflict_def)
  then show ?thesis using None by (simp add: deref_def step_ok_def)
next
  case (Some a)
  then show ?thesis using assms(2) by (simp add: deref_def)
qed

lemma step_ok_deref_opt:
  assumes "live h c" "deref_opt h g c = Some c'" "\<And>a. map_of (vc_heap c) h = Some a \<Longrightarrow> g a c = Some c' \<Longrightarrow> step_ok f c c'"
  shows "step_ok f c c'"
proof (cases "map_of (vc_heap c) h")
  case None
  then show ?thesis using step_ok_deref [OF assms(1), of f] assms(2) by (simp add: deref_def deref_opt_def)
next
  case (Some a)
  then show ?thesis using assms(2,3) by (simp add: deref_opt_def)
qed

section \<open>Steps that keep every pointer\<close>

lemma step_ok_fields [simp]:
  "step_ok f c (c\<lparr>vc_to_remove := xs\<rparr>)" "step_ok f c (c\<lparr>vc_dying := xs\<rparr>)"
  "step_ok f c (c\<lparr>vc_ask_slots := ys\<rparr>)" "step_ok f c (c\<lparr>vc_ask_types := zs\<rparr>)" "step_ok f c (c\<lparr>vc_ask_counter := n\<rparr>)"
  "step_ok f c (c\<lparr>vc_metrics := m\<rparr>)"
  by (rule step_okI [of _ _ "[]"]; simp add: inv_defs extends_def)+

lemma step_ok_logged [simp]:
  assumes "\<forall>h. x \<noteq> Dangling h"
  shows "step_ok f c (logged x c)"
  by (rule step_okI [of _ _ "[x]"]) (use assms in \<open>auto simp: inv_defs extends_def logged_def\<close>)

lemma step_ok_set_actor:
  assumes "map_of (vc_heap c) h = Some a" "ac_id a' = ac_id a"
  shows "step_ok f c (set_actor h a' c)"
proof -
  have p: "points_to (set_actor h a' c) i h' \<longleftrightarrow> points_to c i h'" for i h'
    using assms by (auto simp: points_to_def set_actor_def update_conv')
  have "actor_inv (set_actor h a' c)" if "actor_inv c"
  proof -
    have "ids_ok (set_actor h a' c)"
      using that assms unfolding actor_inv_def ids_ok_def
      by (simp add: set_actor_def update_conv' fun_upd_def split: if_splits) metis
    then show ?thesis
      using that p by (simp add: actor_inv_def pointers_ok_def tables_ok_def no_dangling_def set_actor_def)
  qed
  moreover have "extends f c (set_actor h a' c)"
    using assms by (auto simp: extends_def set_actor_def update_conv')
  ultimately show ?thesis by (intro step_okI [of _ _ "[]"]) (auto simp: set_actor_def)
qed

lemma step_ok_router:
  assumes "\<And>t i h. memh_lookup r t i = Some h \<Longrightarrow> memh_lookup (vc_router c) t i = Some h \<or> points_to c i h"
  shows "step_ok f c (c\<lparr>vc_disposers := ds, vc_router := r\<rparr>)"
proof -
  let ?c = "c\<lparr>vc_disposers := ds, vc_router := r\<rparr>"
  have "points_to ?c = points_to c" by (simp add: fun_eq_iff points_to_def)
  then have "pointers_ok c \<Longrightarrow> pointers_ok ?c" using assms unfolding pointers_ok_def by simp blast
  moreover have "tables_ok ?c = tables_ok c" "ids_ok ?c = ids_ok c" "no_dangling ?c = no_dangling c" "extends f c ?c"
    by (simp_all add: tables_ok_def ids_ok_def no_dangling_def extends_def)
  ultimately show ?thesis by (intro step_okI [of _ _ "[]"]) (simp_all add: actor_inv_def)
qed

lemma step_ok_registerEvent: "live h c \<Longrightarrow> step_ok f c (registerEvent tid h c)"
proof (unfold registerEvent_def, erule step_ok_deref)
  fix a
  assume a: "map_of (vc_heap c) h = Some a"
  show "step_ok f c (if \<not> is_valid (ac_id a) then c else c\<lparr>vc_disposers := safe_dispose tid (vc_disposers c),
      vc_router := memh_subscribe tid (ac_id a) h (vc_router c)\<rparr>)"
    using a by (auto intro!: step_ok_router simp: memh_table.subscr_law points_to_def split: if_splits)
qed

lemma step_ok_unregisterEvent: "live h c \<Longrightarrow> step_ok f c (unregisterEvent tid h c)"
proof (unfold unregisterEvent_def, erule step_ok_deref)
  fix a
  have "step_ok f c (c\<lparr>vc_disposers := vc_disposers c, vc_router := memh_unsubscribe_type tid (ac_id a) (vc_router c)\<rparr>)"
    by (rule step_ok_router) (auto simp: memh_table.unsubscr_type_law split: if_splits)
  then show "step_ok f c (c\<lparr>vc_router := memh_unsubscribe_type tid (ac_id a) (vc_router c)\<rparr>)" by simp
qed

lemma step_ok_unregisterEvents: "step_ok f c (unregisterEvents i c)"
proof -
  have "step_ok f c (c\<lparr>vc_disposers := vc_disposers c, vc_router := memh_unsubscribe i (vc_router c)\<rparr>)"
    by (rule step_ok_router) (auto simp: memh_table.unsubscr_law split: if_splits)
  then show ?thesis by (simp add: unregisterEvents_def)
qed

lemma step_ok_callbacks:
  assumes "\<And>i h. map_of cbs i = Some h \<Longrightarrow> map_of (vc_callbacks c) i = Some h \<or> points_to c i h"
    and "actor_inv c \<Longrightarrow> distinct (map fst cbs) \<and> mset (map prod.swap l) = mset cbs"
  shows "step_ok f c (c\<lparr>vc_callbacks := cbs, vc_callback_list := l\<rparr>)"
proof -
  let ?c = "c\<lparr>vc_callbacks := cbs, vc_callback_list := l\<rparr>"
  have "points_to ?c = points_to c" by (simp add: fun_eq_iff points_to_def)
  then have "pointers_ok c \<Longrightarrow> pointers_ok ?c" using assms(1) unfolding pointers_ok_def by simp blast
  moreover have "ids_ok ?c = ids_ok c" "no_dangling ?c = no_dangling c" "extends f c ?c"
    by (simp_all add: ids_ok_def no_dangling_def extends_def)
  moreover have "actor_inv c \<Longrightarrow> tables_ok ?c" using assms(2) by (simp add: tables_ok_def actor_inv_def)
  ultimately show ?thesis by (intro step_okI [of _ _ "[]"]) (simp_all add: actor_inv_def)
qed

lemma step_ok_registerCallback: "live h c \<Longrightarrow> step_ok f c (registerCallback h c)"
proof (unfold registerCallback_def, erule step_ok_deref)
  fix a
  assume a: "map_of (vc_heap c) h = Some a"
  let ?c = "c\<lparr>vc_callbacks := (ac_id a, h) # vc_callbacks c, vc_callback_list := vc_callback_list c @ [(h, ac_id a)]\<rparr>"
  have "step_ok f c ?c" if "is_valid (ac_id a)" "map_of (vc_callbacks c) (ac_id a) = None"
    using a that
    by (intro step_ok_callbacks) (auto simp: points_to_def tables_ok_def actor_inv_def map_of_eq_None_iff split: if_splits)
  then show "step_ok f c (if \<not> is_valid (ac_id a) then c
      else case map_of (vc_callbacks c) (ac_id a) of Some _ \<Rightarrow> c | None \<Rightarrow> ?c)"
    by (auto split: option.splits)
qed

lemma mset_swap_remove:
  assumes "\<exists>x \<in> set xs. P x"
  shows "\<exists>y \<in> set xs. P y \<and> mset (swap_remove P xs) = mset xs - {#y#}"
proof -
  let ?i = "length (takeWhile (\<lambda>x. \<not> P x) xs)"
  have i: "?i < length xs"
    using assms by (metis length_takeWhile_le le_neq_implies_less takeWhile_eq_all_conv takeWhile_eq_take take_all_iff order.refl)
  then have P: "P (xs ! ?i)" using nth_length_takeWhile by blast
  let ?ys = "xs[?i := last xs]"
  have "xs \<noteq> []" using i by auto
  then have l: "last ?ys = last xs" by (simp add: last_list_update)
  have "mset ?ys = mset xs - {#xs ! ?i#} + {#last xs#}" using i by (simp add: mset_update)
  moreover have "mset ?ys = mset (butlast ?ys) + {#last ?ys#}"
    using i by (metis add_mset_add_single append_butlast_last_id length_greater_0_conv length_list_update
        less_nat_zero_code mset.simps(2) mset_append list.size(3) union_commute mset_single_iff_right)
  ultimately have "mset (butlast ?ys) = mset xs - {#xs ! ?i#}" using l by simp
  then show ?thesis using i P by (intro bexI [of _ "xs ! ?i"]) (simp_all add: swap_remove_def Let_def)
qed

lemma mset_delete:
  "distinct (map fst xs) \<Longrightarrow> map_of xs i = Some h \<Longrightarrow> mset (AList.delete i xs) = mset xs - {#(i, h)#}"
proof (induction xs)
  case (Cons x xs)
  then show ?case
    by (cases "fst x = i") (auto simp: AList.delete_idem delete_simps dest!: map_of_SomeD)
qed simp

lemma step_ok_unregisterCallback_now: "step_ok f c (unregisterCallback_now i c)"
proof (cases "map_of (vc_callbacks c) i")
  case None
  then show ?thesis by (simp add: unregisterCallback_now_def)
next
  case (Some h)
  let ?cbs = "AList.delete i (vc_callbacks c)" and ?l = "swap_remove (\<lambda>e. snd e = i) (vc_callback_list c)"
  have "distinct (map fst ?cbs) \<and> mset (map prod.swap ?l) = mset ?cbs" if "actor_inv c"
  proof -
    have t: "distinct (map fst (vc_callbacks c))" "mset (map prod.swap (vc_callback_list c)) = mset (vc_callbacks c)"
      using that by (simp_all add: actor_inv_def tables_ok_def)
    have s: "set (vc_callbacks c) = prod.swap ` set (vc_callback_list c)" using t(2) by (metis list.set_map set_mset_mset)
    then have "\<exists>e \<in> set (vc_callback_list c). snd e = i" using map_of_SomeD [OF Some] by force
    from mset_swap_remove [OF this] obtain y where y: "y \<in> set (vc_callback_list c)" "snd y = i"
      "mset ?l = mset (vc_callback_list c) - {#y#}" by blast
    have "prod.swap y \<in> set (vc_callbacks c)" using y(1) s by simp
    then have "map_of (vc_callbacks c) i = Some (fst y)" using y(2) t(1) by (simp add: prod.swap_def)
    then have "prod.swap y = (i, h)" using Some y(2) by (simp add: prod.swap_def)
    then have "mset (map prod.swap ?l) = mset (vc_callbacks c) - {#(i, h)#}"
      using y t(2) by (simp add: image_mset_Diff)
    then show ?thesis using mset_delete [OF t(1) Some] t(1) by (simp add: distinct_delete)
  qed
  then show ?thesis
    using Some by (auto simp: unregisterCallback_now_def delete_conv' intro!: step_ok_callbacks split: if_splits)
qed

lemma step_ok_ask_deliver: "step_ok f c (snd (ask_deliver i owner ev c))"
proof -
  have "step_ok f c (logged (Replied_to ev) (c\<lparr>vc_ask_slots := x\<rparr>))" for x
    by (rule step_ok_trans [OF step_ok_fields(3) step_ok_logged]) simp
  then show ?thesis by (auto simp: ask_deliver_def deliver_thunk_def split: option.splits)
qed

lemma step_ok_actor_kill: "live h c \<Longrightarrow> step_ok f c (actor_kill h c)"
proof (unfold actor_kill_def, erule step_ok_deref)
  fix a
  assume a: "map_of (vc_heap c) h = Some a"
  have "step_ok f c (set_actor h (cancel_coro_scope (a\<lparr>ac_alive := False\<rparr>)) c)"
    by (rule step_ok_set_actor [OF a]) (simp add: cancel_coro_scope_def)
  then show "step_ok f c (killActor (ac_id a) (set_actor h (cancel_coro_scope (a\<lparr>ac_alive := False\<rparr>)) c))"
    unfolding killActor_def by (rule step_ok_trans) simp
qed

lemma step_ok_cancel: "live h c \<Longrightarrow> step_ok f c (deref h (\<lambda>a. set_actor h (cancel_coro_scope a)) c)"
  by (erule step_ok_deref, erule step_ok_set_actor) (simp add: cancel_coro_scope_def)

lemma step_ok_deref_unmoved:
  "live h c \<Longrightarrow> deref_opt h g c = Some c' \<Longrightarrow> (\<And>a. g a c = Some c' \<Longrightarrow> unmoved c' = unmoved c) \<Longrightarrow> step_ok f c c'"
  using step_ok_deref_opt step_ok_unmoved by blast

lemma step_ok_emit:
  assumes "live h c" "do_emit E h x c = Some c'"
  shows "step_ok f c c'"
proof (cases x)
  case (Kill h')
  then have "live h' c" "c' = actor_kill h' c"
    using assms(2) by (auto simp: live_def map_of_eq_None_iff split: if_splits)
  then show ?thesis using step_ok_actor_kill by simp
qed (use assms in \<open>auto intro: step_ok_deref_unmoved core_push_unmoved core_send_unmoved core_broadcast_unmoved\<close>)

lemma step_ok_emits:
  assumes "good c" "live h c" "do_emits E h xs c = Some c'"
  shows "step_ok f c c'"
  using assms
proof (induction xs arbitrary: c)
  case (Cons x xs)
  then obtain c1 where 1: "do_emit E h x c = Some c1" "do_emits E h xs c1 = Some c'"
    by (auto split: Option.bind_splits)
  have s: "step_ok g c c1" for g using step_ok_emit [OF Cons.prems(2) 1(1)] .
  have "good c1" "live h c1"
    using good_step [OF Cons.prems(1) s] live_step [OF Cons.prems(2,1) s, of "h + 1"] by auto
  from step_ok_trans [OF s Cons.IH [OF this 1(2)]] show ?case .
qed simp

section \<open>Construction\<close>

lemma generate_id_correct:
  assumes "pool_inv (vc_ids c)"
  shows "\<exists>i p. generate_id c = (i, c\<lparr>vc_ids := p\<rparr>) \<and> pool_inv p \<and> free_ids (bits p) \<subseteq> free_ids (bits (vc_ids c)) \<and>
     (i = not_found \<and> free_ids (bits (vc_ids c)) = {} \<or>
      core_id i = vc_index c \<and> unat (service_id i) \<in> free_ids (bits (vc_ids c)) - free_ids (bits p))"
proof (cases "free_ids (bits (vc_ids c)) = {}")
  case True
  then have "pool_empty (vc_ids c)" using assms by (simp add: pool_empty_def pool_inv_def)
  then show ?thesis using assms True by (intro exI [of _ not_found] exI [of _ "vc_ids c"]) (simp add: generate_id_def)
next
  case False
  let ?m = "Min (free_ids (bits (vc_ids c)))"
  obtain p where p: "pool_acquire (vc_ids c) = (word_of_nat ?m, p)" "pool_inv p"
      "free_ids (bits p) = free_ids (bits (vc_ids c)) - {?m}"
    using pool_acquire_correct [OF assms] False by auto
  have m: "?m \<in> free_ids (bits (vc_ids c))" using False by simp
  then have lt: "?m < kBits" using assms by (auto simp: pool_inv_def)
  then have u: "unat (word_of_nat ?m :: 16 word) = ?m" by (simp add: unat_of_nat)
  have "pool_count (vc_ids c) \<noteq> 0" using assms False by (simp add: pool_inv_def card_gt_0_iff)
  moreover have "(word_of_nat ?m :: 16 word) \<noteq> BroadcastSid"
    using u lt by (auto simp: BroadcastSid_def)
  ultimately have "generate_id c = (ActorId (word_of_nat ?m) (vc_index c), c\<lparr>vc_ids := p\<rparr>)"
    using p(1) by (simp add: generate_id_def pool_empty_def)
  then show ?thesis using p m u by (auto simp: ActorId_def)
qed

lemma new_object_inv:
  assumes inv: "actor_inv c" and p: "pool_inv p" "free_ids (bits p) \<subseteq> free_ids (bits (vc_ids c))"
    and a: "is_valid (ac_id a)" "core_id (ac_id a) = vc_index c" "unat (service_id (ac_id a)) \<notin> free_ids (bits p)"
      "ac_id a \<notin> ac_id ` snd ` set (vc_heap c)"
  shows "actor_inv (c\<lparr>vc_ids := p, vc_heap := (vc_fresh c, a) # vc_heap c, vc_fresh := vc_fresh c + 1\<rparr>)" (is "actor_inv ?c")
    and "extends (vc_fresh c) c (c\<lparr>vc_ids := p, vc_heap := (vc_fresh c, a) # vc_heap c, vc_fresh := vc_fresh c + 1\<rparr>)"
proof -
  have new: "map_of (vc_heap c) (vc_fresh c) = None"
    using inv by (metis actor_inv_def ids_ok_def less_irrefl option.exhaust)
  have other: "ac_id b \<noteq> ac_id a" if "map_of (vc_heap c) h = Some b" for h b
    using a(4) map_of_SomeD [OF that] by (metis image_eqI snd_conv)
  have "points_to c i h \<Longrightarrow> points_to ?c i h" for i h using new by (auto simp: points_to_def)
  then have "pointers_ok ?c" using inv by (simp add: actor_inv_def pointers_ok_def)
  moreover have "ids_ok ?c"
  proof -
    have "h < vc_fresh c \<and> is_valid (ac_id b) \<and> core_id (ac_id b) = vc_index c \<and> unat (service_id (ac_id b)) \<notin> free_ids (bits (vc_ids c))"
      if "map_of (vc_heap c) h = Some b" for h b using inv that by (simp add: actor_inv_def ids_ok_def)
    then have e1: "h < vc_fresh ?c \<and> is_valid (ac_id b) \<and> core_id (ac_id b) = vc_index ?c \<and> unat (service_id (ac_id b)) \<notin> free_ids (bits (vc_ids ?c))"
      if "map_of (vc_heap ?c) h = Some b" for h b using a that p(2) by (fastforce split: if_splits)
    have e2: "h = h'" if "map_of (vc_heap ?c) h = Some b" "map_of (vc_heap ?c) h' = Some b'" "ac_id b = ac_id b'" for h h' b b'
      using that other [of h b] other [of h' b'] inv unfolding actor_inv_def ids_ok_def
      by (simp split: if_splits)
    have "\<forall>n \<in> free_ids (bits p). unat (vc_nb_service c) < n" using p(2) inv by (auto simp: actor_inv_def ids_ok_def)
    then have n: "\<forall>n \<in> free_ids (bits (vc_ids ?c)). unat (vc_nb_service ?c) < n" by simp
    show ?thesis
      unfolding ids_ok_def
      by (rule conjI [OF _ conjI [OF n conjI]], simp add: p(1), intro allI impI, erule e1, intro allI impI, erule (2) e2)
  qed
  ultimately show "actor_inv ?c" using inv by (simp add: actor_inv_def tables_ok_def no_dangling_def)
  show "extends (vc_fresh c) c ?c" using new by (auto simp: extends_def)
qed

lemma registerEvent_simps [simp]:
  "vc_heap (registerEvent t h c) = vc_heap c" "vc_actors (registerEvent t h c) = vc_actors c"
  "vc_activating (registerEvent t h c) = vc_activating c" "vc_fresh (registerEvent t h c) = vc_fresh c"
  by (auto simp: registerEvent_def deref_def logged_def split: option.splits)

lemma fold_registerEvent:
  assumes "good c" "live h c"
  shows "step_ok f c (fold (\<lambda>s. registerEvent (g s) h) xs c) \<and>
     vc_heap (fold (\<lambda>s. registerEvent (g s) h) xs c) = vc_heap c \<and>
     vc_actors (fold (\<lambda>s. registerEvent (g s) h) xs c) = vc_actors c \<and>
     vc_activating (fold (\<lambda>s. registerEvent (g s) h) xs c) = vc_activating c \<and>
     vc_fresh (fold (\<lambda>s. registerEvent (g s) h) xs c) = vc_fresh c"
  using assms
proof (induction xs arbitrary: c)
  case (Cons x xs)
  have s: "step_ok f' c (registerEvent (g x) h c)" for f' using step_ok_registerEvent [OF Cons.prems(2)] .
  have "good (registerEvent (g x) h c)" "live h (registerEvent (g x) h c)"
    using good_step [OF Cons.prems(1) s] live_step [OF Cons.prems(2,1) s, of "h + 1"] by auto
  from Cons.IH [OF this] step_ok_trans [OF s] show ?case by auto
qed simp

lemma actor_ctor_correct:
  assumes g: "good c" and ctor: "actor_ctor E svc defaults c = (h, c')"
  shows "h = vc_fresh c" "step_ok (vc_fresh c) c c'" "live h c'" "vc_fresh c' = vc_fresh c + 1"
    "vc_actors c' = vc_actors c" "vc_activating c' = vc_activating c"
proof -
  obtain i c1 where i: "(i, c1) = (case svc of None \<Rightarrow> generate_id c | Some sid \<Rightarrow> (ActorId sid (vc_index c), c))"
    by (metis surj_pair)
  let ?a = "\<lparr>ac_id = i, ac_type = 0, ac_alive = True, ac_activated = True, ac_scope = False, ac_cancelled = False\<rparr>"
  define c2 where "c2 = (if usable_id svc i c1 then id else logged (Unusable_id (vc_fresh c1) i))
    (c1\<lparr>vc_heap := (vc_fresh c1, ?a) # vc_heap c1, vc_fresh := vc_fresh c1 + 1\<rparr>)"
  have c': "h = vc_fresh c1" "c' = (if defaults then fold (\<lambda>s. registerEvent (en_tid E s) h) default_events c2 else c2)"
    using ctor i [symmetric] by (auto simp: actor_ctor_def c2_def Let_def)
  obtain p where c1: "c1 = c\<lparr>vc_ids := p\<rparr>"
    using i by (auto simp: generate_id_def Let_def split: option.splits if_splits prod.splits
        intro: that [of "vc_ids c"] that)
  have log: "vc_log c2 = vc_log c @ (if usable_id svc i c1 then [] else [Unusable_id (vc_fresh c1) i])"
    by (simp add: c2_def c1 logged_def)
  have s2: "step_ok (vc_fresh c) c c2"
  proof (cases "usable_id svc i c1")
    case False
    then have "id_conflict c2" using log by (auto simp: id_conflict_def)
    then show ?thesis using log by (simp add: step_ok_def)
  next
    case True
    have "actor_inv c2 \<and> extends (vc_fresh c) c c2" if inv: "actor_inv c"
    proof -
      have pool: "pool_inv (vc_ids c)" "\<forall>n \<in> free_ids (bits (vc_ids c)). unat (vc_nb_service c) < n"
        using inv by (auto simp: actor_inv_def ids_ok_def)
      have "pool_inv p \<and> free_ids (bits p) \<subseteq> free_ids (bits (vc_ids c)) \<and> core_id i = vc_index c \<and>
          unat (service_id i) \<notin> free_ids (bits p)"
      proof (cases svc)
        case None
        then have gen: "generate_id c = (i, c\<lparr>vc_ids := p\<rparr>)" using i c1 by simp
        have nf: "i \<noteq> not_found" using True by (auto simp: usable_id_def not_found_def is_valid_def)
        obtain j q where q: "generate_id c = (j, c\<lparr>vc_ids := q\<rparr>)" "pool_inv q"
            "free_ids (bits q) \<subseteq> free_ids (bits (vc_ids c))"
            "j = not_found \<and> free_ids (bits (vc_ids c)) = {} \<or>
             core_id j = vc_index c \<and> unat (service_id j) \<in> free_ids (bits (vc_ids c)) - free_ids (bits q)"
          using generate_id_correct [OF pool(1)] by blast
        have ji: "j = i" and cc: "c\<lparr>vc_ids := q\<rparr> = c\<lparr>vc_ids := p\<rparr>" using gen q(1) by simp_all
        have "q = p" using arg_cong [OF cc, of vc_ids] by simp
        then show ?thesis using q(2-4) ji nf by simp
      next
        case (Some sid)
        then have "p = vc_ids c" "i = ActorId sid (vc_index c)" "sid \<le> vc_nb_service c"
          using i c1 True by (auto simp: usable_id_def dest: arg_cong [of _ _ vc_ids])
        then show ?thesis using pool by (auto simp: ActorId_def word_le_nat_alt)
      qed
      moreover have "is_valid i" "i \<notin> ac_id ` snd ` set (vc_heap c)" using True by (simp_all add: usable_id_def c1)
      ultimately show ?thesis
        using True new_object_inv [OF inv, of p ?a] by (simp add: c2_def c1)
    qed
    then show ?thesis using log True by (intro step_okI) auto
  qed
  have f: "vc_heap c2 = (vc_fresh c, ?a) # vc_heap c" "vc_fresh c2 = vc_fresh c + 1" "vc_actors c2 = vc_actors c"
    "vc_activating c2 = vc_activating c" by (simp_all add: c2_def c1 logged_def)
  show h: "h = vc_fresh c" using c'(1) c1 by simp
  have lg: "live h c2" "good c2" using f(1) h good_step [OF g s2] by (auto simp: live_def)
  note fr = fold_registerEvent [OF lg(2,1), of _ "en_tid E" default_events]
  show "step_ok (vc_fresh c) c c'" using s2 fr step_ok_trans [OF s2] c'(2) by (auto split: if_splits)
  show "live h c'" "vc_fresh c' = vc_fresh c + 1" "vc_actors c' = vc_actors c" "vc_activating c' = vc_activating c"
    using c'(2) fr f h by (auto simp: live_def split: if_splits)
qed

end
