(* ===== verification/Core_Lifecycle.thy ===== *)
theory Core_Lifecycle
  imports Core_Pointers
begin

text \<open>
  The life cycle of actors keeps the invariant of the bookkeeping: destruction, \<open>removeActor\<close>,
  \<open>appendActor\<close>, and with them everything user code can call (\<open>src/qb/core/VirtualCore.cpp\<close>).
\<close>

section \<open>Destruction\<close>

definition unreferenced :: "addr \<Rightarrow> 'b core \<Rightarrow> bool" where
  "unreferenced h c \<longleftrightarrow> (\<forall>t i. memh_lookup (vc_router c) t i \<noteq> Some h) \<and> (\<forall>i. map_of (vc_callbacks c) i \<noteq> Some h) \<and>
     (\<forall>i. map_of (vc_actors c) i \<noteq> Some h) \<and> (\<forall>i act. map_of (vc_activating c) i = Some act \<longrightarrow> act_owner act \<noteq> h)"

definition same_tables :: "'b core \<Rightarrow> 'b core \<Rightarrow> bool" where
  "same_tables c c' \<longleftrightarrow> vc_router c' = vc_router c \<and> vc_callbacks c' = vc_callbacks c \<and>
     vc_actors c' = vc_actors c \<and> vc_activating c' = vc_activating c \<and> vc_ids c' = vc_ids c \<and>
     vc_nb_service c' = vc_nb_service c \<and> vc_index c' = vc_index c"

lemma same_tables_refl [simp]: "same_tables c c"
  by (simp add: same_tables_def)

lemma same_tables_trans: "same_tables a b \<Longrightarrow> same_tables b c \<Longrightarrow> same_tables a c"
  by (simp add: same_tables_def)

lemma same_tables_unmoved:
  assumes "unmoved c' = unmoved c"
  shows "same_tables c c'"
  by (simp add: same_tables_def unmoved_eqD [OF assms])

lemma same_tables_logged [simp]: "same_tables c (logged x c)"
  by (simp add: same_tables_def logged_def)

lemma do_emit_tables: "do_emit E h x c = Some c' \<Longrightarrow> same_tables c c'"
proof (cases x)
  case (Kill h')
  assume "do_emit E h x c = Some c'"
  then show ?thesis
    using Kill by (auto simp: actor_kill_def deref_def killActor_def set_actor_def same_tables_def logged_def
        split: if_splits option.splits)
qed (auto simp: deref_opt_def split: option.splits intro: same_tables_unmoved core_push_unmoved core_send_unmoved
    core_broadcast_unmoved)

lemma do_emits_tables: "do_emits E h xs c = Some c' \<Longrightarrow> same_tables c c'"
  by (induction xs arbitrary: c) (auto split: Option.bind_splits dest!: do_emit_tables intro: same_tables_trans)

definition heap_ids :: "'b core \<Rightarrow> addr \<Rightarrow> actor_id option" where
  "heap_ids c h = map_option ac_id (map_of (vc_heap c) h)"

lemma heap_ids_unmoved:
  assumes "unmoved c' = unmoved c"
  shows "heap_ids c' = heap_ids c"
  by (simp add: heap_ids_def fun_eq_iff unmoved_eqD [OF assms])

lemma heap_ids_logged [simp]: "heap_ids (logged x c) = heap_ids c"
  by (simp add: heap_ids_def fun_eq_iff logged_def)

lemma heap_ids_set_actor:
  "map_of (vc_heap c) h = Some a \<Longrightarrow> ac_id a' = ac_id a \<Longrightarrow> heap_ids (set_actor h a' c) = heap_ids c"
  by (auto simp: heap_ids_def fun_eq_iff set_actor_def update_conv')

lemma heap_ids_kill: "heap_ids (actor_kill h c) = heap_ids c"
proof (cases "map_of (vc_heap c) h")
  case (Some a)
  have "heap_ids (killActor i d) = heap_ids d" for i and d :: "'a core" by (simp add: heap_ids_def fun_eq_iff killActor_def)
  then show ?thesis
    using Some heap_ids_set_actor [OF Some, of "cancel_coro_scope (a\<lparr>ac_alive := False\<rparr>)"]
    by (simp add: actor_kill_def deref_def cancel_coro_scope_def)
qed (simp add: actor_kill_def deref_def)

lemma do_emit_heap: "do_emit E h x c = Some c' \<Longrightarrow> heap_ids c' = heap_ids c"
  by (cases x) (auto simp: deref_opt_def heap_ids_kill split: option.splits if_splits
      dest: core_push_unmoved core_send_unmoved core_broadcast_unmoved heap_ids_unmoved)

lemma do_emits_heap: "do_emits E h xs c = Some c' \<Longrightarrow> heap_ids c' = heap_ids c"
  by (induction xs arbitrary: c) (auto split: Option.bind_splits dest!: do_emit_heap)

lemma ids_ok_mono:
  assumes ok: "ids_ok c" and heap: "\<And>h a. map_of (vc_heap c') h = Some a \<Longrightarrow> map_of (vc_heap c) h = Some a"
    and same: "vc_ids c' = vc_ids c" "vc_nb_service c' = vc_nb_service c" "vc_index c' = vc_index c" "vc_fresh c' = vc_fresh c"
  shows "ids_ok c'"
proof -
  have "h = h'" if "map_of (vc_heap c') h = Some a" "map_of (vc_heap c') h' = Some a'" "ac_id a = ac_id a'" for h h' a a'
    using ok heap [OF that(1)] heap [OF that(2)] that(3) unfolding ids_ok_def by blast
  moreover have "h < vc_fresh c \<and> is_valid (ac_id a) \<and> core_id (ac_id a) = vc_index c \<and> unat (service_id (ac_id a)) \<notin> free_ids (bits (vc_ids c))"
    if "map_of (vc_heap c') h = Some a" for h a
    using ok heap [OF that] unfolding ids_ok_def by blast
  moreover have "pool_inv (vc_ids c)" "\<forall>n \<in> free_ids (bits (vc_ids c)). unat (vc_nb_service c) < n"
    using ok unfolding ids_ok_def by blast+
  ultimately show ?thesis unfolding ids_ok_def same by blast
qed

lemma delete_object_inv:
  assumes inv: "actor_inv c" and u: "unreferenced h c"
  shows "actor_inv (c\<lparr>vc_heap := AList.delete h (vc_heap c)\<rparr>)" (is "actor_inv ?c")
proof -
  have "points_to ?c i h'" if "points_to c i h'" "h' \<noteq> h" for i h'
    using that by (auto simp: points_to_def delete_conv')
  then have "pointers_ok ?c" using inv u unfolding actor_inv_def pointers_ok_def unreferenced_def by simp blast
  moreover have "ids_ok ?c"
  proof (rule ids_ok_mono)
    show "ids_ok c" using inv by (simp add: actor_inv_def)
    show "map_of (vc_heap c) h' = Some a" if "map_of (vc_heap ?c) h' = Some a" for h' a
      using that by (simp add: delete_conv' split: if_splits)
  qed simp_all
  ultimately show ?thesis using inv by (simp add: actor_inv_def tables_ok_def no_dangling_def)
qed

lemma destroy_actor_correct:
  assumes g: "good c" and l: "live h c" and u: "\<not> id_conflict c \<Longrightarrow> unreferenced h c"
    and d: "destroy_actor E h c = Some c'"
  shows "f \<le> h \<Longrightarrow> step_ok f c c'" "same_tables c c'" "\<not> id_conflict c' \<Longrightarrow> heap_ids c' = (heap_ids c)(h := None)"
proof -
  have "step_ok f c c' \<and> same_tables c c' \<and> (\<not> id_conflict c' \<longrightarrow> heap_ids c' = (heap_ids c)(h := None))" if f: "f \<le> h" for f
  proof (cases "map_of (vc_heap c) h")
    case None
    then have c': "c' = logged (Dangling h) c" using d by (simp add: destroy_actor_def deref_opt_def)
    moreover have "id_conflict c'" using l None c' by (auto simp: live_def id_conflict_def)
    ultimately show ?thesis by (simp add: step_ok_def)
  next
    case (Some a)
    then obtain c1 where c1: "do_emits E h (en_dtor E h c) c = Some c1"
        "c' = logged (Deleted h (ac_id a)) (c1\<lparr>vc_heap := AList.delete h (vc_heap c1)\<rparr>)"
      using d by (auto simp: destroy_actor_def deref_opt_def split: Option.bind_splits)
    have s: "step_ok f c c1" and t: "same_tables c c1"
      using step_ok_emits [OF g l c1(1)] do_emits_tables [OF c1(1)] by auto
    let ?d = "c1\<lparr>vc_heap := AList.delete h (vc_heap c1)\<rparr>"
    have "step_ok f c1 ?d"
    proof (cases "id_conflict c1")
      case True
      then have "id_conflict ?d" by (simp add: id_conflict_def)
      then show ?thesis by (simp add: step_ok_def)
    next
      case False
      then have "unreferenced h c" using u step_ok_log [OF s] by blast
      then have "unreferenced h c1" using t by (simp add: unreferenced_def same_tables_def)
      moreover have "extends f c1 ?d" using f by (auto simp: extends_def delete_conv')
      ultimately show ?thesis using delete_object_inv by (intro step_okI [of _ _ "[]"]) auto
    qed
    then have "step_ok f c c'" using step_ok_trans [OF step_ok_trans [OF s] step_ok_logged] c1(2) by simp
    moreover have "same_tables c c'" using t c1(2) by (simp add: same_tables_def logged_def)
    moreover have "heap_ids c' = (heap_ids c1)(h := None)"
      using c1(2) by (simp add: heap_ids_def fun_eq_iff logged_def delete_conv')
    ultimately show ?thesis using do_emits_heap [OF c1(1)] by simp
  qed
  from this this [of 0] show "f \<le> h \<Longrightarrow> step_ok f c c'" "same_tables c c'"
    "\<not> id_conflict c' \<Longrightarrow> heap_ids c' = (heap_ids c)(h := None)" by auto
qed

section \<open>Removal\<close>

lemma good_points: "good c \<Longrightarrow> map_of (vc_actors c) i = Some h \<Longrightarrow> \<not> id_conflict c \<Longrightarrow> points_to c i h"
  by (simp add: good_def actor_inv_def pointers_ok_def)

lemma good_live: "good c \<Longrightarrow> map_of (vc_actors c) i = Some h \<Longrightarrow> live h c"
  using good_points by (fastforce simp: live_def points_to_def)

lemma step_ok_shrink:
  assumes "\<And>j x. map_of as j = Some x \<Longrightarrow> map_of (vc_actors c) j = Some x" "distinct (map fst (vc_actors c)) \<Longrightarrow> distinct (map fst as)"
    and "\<And>j x. map_of acts j = Some x \<Longrightarrow> \<exists>y. map_of (vc_activating c) j = Some y \<and> act_owner x = act_owner y"
  shows "step_ok f c (c\<lparr>vc_actors := as, vc_activating := acts, vc_dying := ds\<rparr>)"
proof -
  let ?c = "c\<lparr>vc_actors := as, vc_activating := acts, vc_dying := ds\<rparr>"
  have "points_to ?c = points_to c" by (simp add: fun_eq_iff points_to_def)
  then have "pointers_ok c \<Longrightarrow> pointers_ok ?c" using assms(1,3) unfolding pointers_ok_def by simp metis
  moreover have "ids_ok ?c = ids_ok c" "no_dangling ?c = no_dangling c"
    by (simp_all add: ids_ok_def no_dangling_def)
  moreover have "tables_ok c \<Longrightarrow> tables_ok ?c" using assms(2) by (simp add: tables_ok_def)
  moreover have "extends f c ?c" using assms(1,3) by (auto simp: extends_def)
  ultimately show ?thesis by (intro step_okI [of _ _ "[]"]) (simp_all add: actor_inv_def)
qed

lemma step_ok_release:
  assumes "\<not> id_conflict c \<Longrightarrow> core_id i = vc_index c \<and> i \<notin> ran (heap_ids c)" "vc_nb_service c < service_id i"
  shows "step_ok f c (c\<lparr>vc_ids := pool_release (service_id i) (vc_ids c)\<rparr>)"
proof (cases "id_conflict c")
  case True
  then show ?thesis by (simp add: step_ok_def id_conflict_def)
next
  case False
  let ?p = "pool_release (service_id i) (vc_ids c)"
  let ?c = "c\<lparr>vc_ids := ?p\<rparr>"
  have "actor_inv ?c" if inv: "actor_inv c"
  proof -
    have ok: "ids_ok c" using inv by (simp add: actor_inv_def)
    have p: "pool_inv ?p" "free_ids (bits ?p) \<subseteq> insert (unat (service_id i)) (free_ids (bits (vc_ids c)))"
      using pool_release_correct [of "vc_ids c" "service_id i"] ok by (auto simp: ids_ok_def split: if_splits)
    have "unat (service_id (ac_id a)) \<notin> free_ids (bits ?p)" if "map_of (vc_heap c) h = Some a" for h a
    proof -
      have "ac_id a \<in> ran (heap_ids c)" using that by (auto simp: ran_def heap_ids_def)
      then have "ac_id a \<noteq> i" using assms(1) False by blast
      moreover have "core_id (ac_id a) = vc_index c" "unat (service_id (ac_id a)) \<notin> free_ids (bits (vc_ids c))"
        using ok that by (auto simp: ids_ok_def)
      ultimately have "service_id (ac_id a) \<noteq> service_id i" using assms(1) False by auto
      then show ?thesis using p(2) \<open>unat (service_id (ac_id a)) \<notin> free_ids (bits (vc_ids c))\<close> by (auto simp: word_unat_eq_iff)
    qed
    moreover have "\<forall>n \<in> free_ids (bits ?p). unat (vc_nb_service c) < n"
      using p(2) ok assms(2) by (auto simp: ids_ok_def word_less_nat_alt)
    ultimately have "ids_ok ?c" using ok p(1) unfolding ids_ok_def by simp
    then show ?thesis using inv by (simp add: actor_inv_def pointers_ok_def points_to_def tables_ok_def no_dangling_def)
  qed
  then show ?thesis by (intro step_okI [of _ _ "[]"]) (auto simp: extends_def)
qed

lemma unregister_simps [simp]:
  "vc_actors (unregisterEvents i c) = vc_actors c" "vc_activating (unregisterEvents i c) = vc_activating c"
  "vc_heap (unregisterEvents i c) = vc_heap c" "vc_callbacks (unregisterEvents i c) = vc_callbacks c"
  "vc_index (unregisterEvents i c) = vc_index c"
  "vc_actors (unregisterCallback_now i c) = vc_actors c" "vc_activating (unregisterCallback_now i c) = vc_activating c"
  "vc_heap (unregisterCallback_now i c) = vc_heap c" "vc_index (unregisterCallback_now i c) = vc_index c"
  by (auto simp: unregisterEvents_def unregisterCallback_now_def split: option.splits)

lemma unregistered:
  "memh_lookup (vc_router (unregisterEvents i c)) t i = None" "map_of (vc_callbacks (unregisterCallback_now i c)) i = None"
  by (auto simp: unregisterEvents_def memh_table.unsubscr_law unregisterCallback_now_def delete_conv' split: option.splits)

lemma cancel_simps:
  "vc_actors (deref h (\<lambda>a. set_actor h (cancel_coro_scope a)) c) = vc_actors c"
  "vc_activating (deref h (\<lambda>a. set_actor h (cancel_coro_scope a)) c) = vc_activating c"
  "vc_router (deref h (\<lambda>a. set_actor h (cancel_coro_scope a)) c) = vc_router c"
  "vc_callbacks (deref h (\<lambda>a. set_actor h (cancel_coro_scope a)) c) = vc_callbacks c"
  "vc_dying (deref h (\<lambda>a. set_actor h (cancel_coro_scope a)) c) = vc_dying c"
  by (auto simp: deref_def set_actor_def logged_def split: option.splits)

lemma only_own_id:
  assumes "actor_inv c" "points_to c i h"
    and "\<And>t. memh_lookup (vc_router c) t i = None" "map_of (vc_callbacks c) i = None" "map_of (vc_activating c) i = None"
  shows "unreferenced h (c\<lparr>vc_actors := AList.delete i (vc_actors c)\<rparr>)"
proof -
  have own: "j = i" if "points_to c j h" for j using that assms(2) by (auto simp: points_to_def)
  have "\<forall>t j. memh_lookup (vc_router c) t j \<noteq> Some h" "\<forall>j. map_of (vc_callbacks c) j \<noteq> Some h"
    "\<forall>j act. map_of (vc_activating c) j = Some act \<longrightarrow> act_owner act \<noteq> h" "\<forall>j. j \<noteq> i \<longrightarrow> map_of (vc_actors c) j \<noteq> Some h"
    using assms(1,3-) own unfolding actor_inv_def pointers_ok_def by (metis option.distinct(1))+
  then show ?thesis by (auto simp: unreferenced_def delete_conv')
qed

lemma remove_now_step:
  assumes g: "good c" and n: "\<not> id_conflict c \<Longrightarrow> map_of (vc_activating c) i = None"
    and r: "remove_now E i c = Some c'" and f: "\<And>h. map_of (vc_actors c) i = Some h \<Longrightarrow> f \<le> h"
  shows "step_ok f c c'"
proof -
  define c1 where "c1 = unregisterEvents i (unregisterCallback_now i c)"
  have s1: "step_ok k c c1" for k
    unfolding c1_def by (rule step_ok_trans [OF step_ok_unregisterCallback_now step_ok_unregisterEvents])
  have g1: "good c1" using good_step [OF g s1] .
  show ?thesis
  proof (cases "map_of (vc_actors c1) i")
    case None
    then show ?thesis using r s1 by (simp add: remove_now_def c1_def [symmetric])
  next
    case (Some h)
    define c2 where "c2 = deref h (\<lambda>a. set_actor h (cancel_coro_scope a)) c1"
    define c2' where "c2' = c2\<lparr>vc_actors := AList.delete i (vc_actors c2)\<rparr>"
    obtain c3 where c3: "destroy_actor E h c2' = Some c3"
      "c' = (if vc_nb_service c3 < service_id i then c3\<lparr>vc_ids := pool_release (service_id i) (vc_ids c3)\<rparr> else c3)"
      using r Some unfolding remove_now_def c1_def [symmetric]
      by (auto simp: Let_def c2_def [symmetric] c2'_def [symmetric] split: Option.bind_splits)
    have s2: "step_ok k c1 c2" for k unfolding c2_def by (rule step_ok_cancel [OF good_live [OF g1 Some]])
    have g2: "good c2" using good_step [OF g1 s2] .
    have A2: "map_of (vc_actors c2) i = Some h" using Some by (simp add: c2_def cancel_simps)
    have s3: "step_ok k c2 c2'" for k
    proof -
      have "step_ok k c2 (c2\<lparr>vc_actors := AList.delete i (vc_actors c2), vc_activating := vc_activating c2, vc_dying := vc_dying c2\<rparr>)"
        by (rule step_ok_shrink) (auto simp: delete_conv' distinct_delete split: if_splits)
      then show ?thesis by (simp add: c2'_def)
    qed
    have g3: "good c2'" using good_step [OF g2 s3] .
    have conf: "id_conflict c2' = id_conflict c2" by (simp add: c2'_def id_conflict_def)
    have pt: "points_to c2 i h \<and> unreferenced h c2'" if nc: "\<not> id_conflict c2'"
    proof -
      have nc2: "\<not> id_conflict c2" "\<not> id_conflict c" using nc conf step_ok_log [OF s2] step_ok_log [OF s1] by auto
      have pt: "points_to c2 i h" using good_points [OF g2 A2 nc2(1)] .
      have "actor_inv c2" using g2 nc2 by (simp add: good_def)
      moreover have "memh_lookup (vc_router c2) t i = None" "map_of (vc_callbacks c2) i = None"
          "map_of (vc_activating c2) i = None" for t
        using n [OF nc2(2)] unregistered by (auto simp: c2_def cancel_simps c1_def)
      ultimately show ?thesis using only_own_id [OF _ pt] pt unfolding c2'_def by blast
    qed
    have l3: "live h c2'" using pt by (auto simp: live_def points_to_def c2'_def)
    note d = destroy_actor_correct [OF g3 l3 _ c3(1)]
    have fh: "f \<le> h" using f Some by (simp add: c1_def)
    have s4: "step_ok f c2' c3" using d(1) [OF _ fh] pt by blast
    have "core_id i = vc_index c3 \<and> i \<notin> ran (heap_ids c3)" if nc: "\<not> id_conflict c3"
    proof -
      have nc2: "\<not> id_conflict c2'" using nc step_ok_log [OF s4] by blast
      then obtain a where a: "map_of (vc_heap c2') h = Some a" "ac_id a = i" using pt by (auto simp: points_to_def c2'_def)
      have ok: "ids_ok c2'" using g3 nc2 by (simp add: good_def actor_inv_def)
      then have "core_id i = vc_index c2'" using a by (auto simp: ids_ok_def)
      moreover have "k = h" if "heap_ids c2' k = Some i" for k
        using that a ok unfolding ids_ok_def heap_ids_def by (auto simp: map_option_eq_Some)
      ultimately show ?thesis
        using d(2) d(3) [OF _ nc] pt nc2 by (auto simp: same_tables_def ran_def split: if_splits)
    qed
    then have "step_ok f c3 c'" using step_ok_release [of c3 i f] c3(2) by auto
    then show ?thesis
      using step_ok_trans [OF s1 step_ok_trans [OF s2 step_ok_trans [OF s3 step_ok_trans [OF s4]]]] by blast
  qed
qed

lemma removeActor_step:
  assumes g: "good c" and r: "removeActor E i c = Some c'" and f: "\<And>h. map_of (vc_actors c) i = Some h \<Longrightarrow> f \<le> h"
  shows "step_ok f c c'"
proof (cases "map_of (vc_activating c) i")
  case None
  then have "remove_now E i c = Some c'" using r by (simp add: removeActor_def)
  from remove_now_step [OF g _ this] show ?thesis using None f by blast
next
  case (Some act)
  define c1 where "c1 = (case map_of (vc_actors c) i of
      Some h \<Rightarrow> deref h (\<lambda>a. set_actor h (cancel_coro_scope a)) c | None \<Rightarrow> c)"
  have s1: "step_ok f c c1"
    by (auto simp: c1_def split: option.splits intro!: step_ok_cancel intro: good_live [OF g])
  have same: "vc_actors c1 = vc_actors c" "vc_activating c1 = vc_activating c" by (auto simp: c1_def cancel_simps split: option.splits)
  show ?thesis
  proof (cases "init_done (act_init act)")
    case False
    then have "c' = c1\<lparr>vc_dying := List.insert i (vc_dying c1)\<rparr>"
      using r Some by (simp add: removeActor_def c1_def [symmetric])
    then show ?thesis using step_ok_trans [OF s1] by simp
  next
    case True
    let ?c2 = "c1\<lparr>vc_activating := AList.delete i (vc_activating c1), vc_dying := removeAll i (vc_dying c1)\<rparr>"
    have r2: "remove_now E i ?c2 = Some c'" using r Some True by (simp add: removeActor_def c1_def [symmetric])
    have "step_ok f c1 (c1\<lparr>vc_actors := vc_actors c1, vc_activating := AList.delete i (vc_activating c1), vc_dying := removeAll i (vc_dying c1)\<rparr>)"
      by (rule step_ok_shrink) (auto simp: delete_conv' split: if_splits)
    then have s2: "step_ok f c1 ?c2" by simp
    have "step_ok f ?c2 c'"
      by (rule remove_now_step [OF good_step [OF good_step [OF g s1] s2] _ r2]) (use f same in \<open>auto simp: delete_conv'\<close>)
    then show ?thesis using step_ok_trans [OF s1 step_ok_trans [OF s2]] by blast
  qed
qed

section \<open>Addition\<close>

definition unpublished :: "addr \<Rightarrow> 'b core \<Rightarrow> bool" where
  "unpublished h c \<longleftrightarrow> (\<forall>i. map_of (vc_actors c) i \<noteq> Some h) \<and>
     (\<forall>i act. map_of (vc_activating c) i = Some act \<longrightarrow> act_owner act \<noteq> h)"

lemma unpublished_step:
  assumes "\<not> id_conflict c \<Longrightarrow> unpublished h c" "good c" "step_ok f c c'" "h < f" "\<not> id_conflict c'"
  shows "unpublished h c'"
proof -
  have n: "\<not> id_conflict c" using step_ok_log [OF assms(3)] assms(5) by blast
  then have e: "extends f c c'" using assms(2,3,5) by (auto simp: good_def step_ok_def)
  have "map_of (vc_actors c') i \<noteq> Some h" for i
    using e assms(1) [OF n] assms(4) unfolding unpublished_def extends_def by fastforce
  moreover have "act_owner act \<noteq> h" if "map_of (vc_activating c') i = Some act" for i act
    using e assms(1) [OF n] assms(4) that unfolding unpublished_def extends_def by fastforce
  ultimately show ?thesis by (simp add: unpublished_def)
qed

lemma heap_valid: "actor_inv c \<Longrightarrow> map_of (vc_heap c) h = Some a \<Longrightarrow> is_valid (ac_id a)"
  by (simp add: actor_inv_def ids_ok_def)

lemma begin_activation_step:
  assumes g: "good c" and l: "live h c" and f: "f \<le> h"
  shows "step_ok f c (begin_activation E h c)"
proof (unfold begin_activation_def Let_def, rule step_ok_deref [OF l])
  fix a
  assume a: "map_of (vc_heap c) h = Some a"
  let ?c = "set_actor h (a\<lparr>ac_activated := False\<rparr>) c"
  have s: "step_ok f c ?c" by (rule step_ok_set_actor [OF a]) simp
  have g2: "good ?c" using good_step [OF g s] .
  have h: "map_of (vc_heap ?c) h = Some (a\<lparr>ac_activated := False\<rparr>)" by (simp add: set_actor_def update_conv')
  have "step_ok f ?c (?c\<lparr>vc_activating := (ac_id a, act) # vc_activating ?c\<rparr>)" (is "step_ok f ?c ?d") if own: "act_owner act = h" for act
  proof (cases "id_conflict ?c")
    case True
    then show ?thesis by (simp add: step_ok_def id_conflict_def)
  next
    case False
    then have inv: "actor_inv ?c" using g2 by (simp add: good_def)
    have "is_valid (ac_id a)" using heap_valid [OF inv h] by simp
    then have "points_to ?c (ac_id a) h" using h by (simp add: points_to_def)
    moreover have "points_to ?d = points_to ?c" by (simp add: fun_eq_iff points_to_def)
    ultimately have "pointers_ok ?d" using inv own by (auto simp: actor_inv_def pointers_ok_def)
    then have "actor_inv ?d" using inv by (simp add: actor_inv_def tables_ok_def ids_ok_def no_dangling_def)
    moreover have "extends f ?c ?d" using f own by (auto simp: extends_def)
    ultimately show ?thesis by (intro step_okI [of _ _ "[]"]) auto
  qed
  then show "step_ok f c (case map_of (vc_activating ?c) (ac_id a) of
      None \<Rightarrow> ?c\<lparr>vc_activating := (ac_id a, \<lparr>act_owner = h, act_init = Suspended,
        act_deadline = if en_deadline_ns E \<noteq> 0 then en_now E c + en_deadline_ns E else 0, act_cancelling = False, act_stash = []\<rparr>)
        # vc_activating ?c\<rparr>
    | Some _ \<Rightarrow> ?c)"
    using s step_ok_trans [OF s] by (auto split: option.splits)
qed

lemma publish_step:
  assumes g: "good c" and f: "f \<le> h" and i: "\<not> id_conflict c \<Longrightarrow> heap_ids c h = Some i" "i \<notin> set (map fst (vc_actors c))"
  shows "step_ok f c (c\<lparr>vc_actors := (i, h) # vc_actors c\<rparr>)" (is "step_ok f c ?d")
proof (cases "id_conflict c")
  case True
  then show ?thesis by (simp add: step_ok_def id_conflict_def)
next
  case False
  then have inv: "actor_inv c" using g by (simp add: good_def)
  have "points_to c i h" using i(1) [OF False] heap_valid [OF inv] by (auto simp: points_to_def heap_ids_def)
  moreover have "points_to ?d = points_to c" by (simp add: fun_eq_iff points_to_def)
  ultimately have "pointers_ok ?d" using inv by (auto simp: actor_inv_def pointers_ok_def)
  then have "actor_inv ?d" using inv i(2) by (simp add: actor_inv_def tables_ok_def ids_ok_def no_dangling_def)
  moreover have "extends f c ?d" using f by (auto simp: extends_def)
  ultimately show ?thesis by (intro step_okI [of _ _ "[]"]) auto
qed

lemma heap_ids_begin_activation: "heap_ids (begin_activation E h c) = heap_ids c"
  by (auto simp: begin_activation_def deref_def Let_def heap_ids_def fun_eq_iff set_actor_def update_conv' logged_def
      split: option.splits)

lemma heap_ids_step:
  assumes "heap_ids c h = Some i" "good c" "step_ok f c c'" "h < f" "\<not> id_conflict c'"
  shows "heap_ids c' h = Some i"
proof -
  have "extends f c c'" using assms(2,3,5) step_ok_log [OF assms(3)] by (auto simp: good_def step_ok_def)
  then show ?thesis using assms(1,4) by (fastforce simp: extends_def heap_ids_def)
qed

lemma id_owner:
  assumes "actor_inv c" "heap_ids c h = Some i" "points_to c i h'"
  shows "h' = h"
proof -
  obtain a a' where "map_of (vc_heap c) h = Some a" "map_of (vc_heap c) h' = Some a'" "ac_id a = ac_id a'"
    using assms(2,3) by (auto simp: points_to_def heap_ids_def)
  then show ?thesis using assms(1) unfolding actor_inv_def ids_ok_def by metis
qed

lemma unpublished_id:
  assumes "actor_inv c" "heap_ids c h = Some i" "unpublished h c"
  shows "map_of (vc_actors c) i = None" "map_of (vc_activating c) i = None"
proof -
  have "map_of (vc_actors c) i \<noteq> Some h'" for h'
  proof
    assume a: "map_of (vc_actors c) i = Some h'"
    then have "points_to c i h'" using assms(1) by (simp add: actor_inv_def pointers_ok_def)
    then show False using id_owner [OF assms(1,2)] assms(3) a by (auto simp: unpublished_def)
  qed
  then show "map_of (vc_actors c) i = None" by (cases "map_of (vc_actors c) i") auto
  have "map_of (vc_activating c) i \<noteq> Some act" for act
  proof
    assume a: "map_of (vc_activating c) i = Some act"
    then have "points_to c i (act_owner act)" using assms(1) by (simp add: actor_inv_def pointers_ok_def)
    then show False using id_owner [OF assms(1,2)] assms(3) a by (auto simp: unpublished_def)
  qed
  then show "map_of (vc_activating c) i = None" by (cases "map_of (vc_activating c) i") auto
qed

text \<open>A failed \<open>onInit()\<close>: \<open>removeActor\<close> leaves no pointer to the object that is about to be destroyed.\<close>

lemma failed_init_unreferenced:
  assumes inv: "actor_inv c" and i: "heap_ids c h = Some i" and u: "unpublished h c" and r: "removeActor E i c = Some c'"
  shows "unreferenced h c'" "heap_ids c' = heap_ids c"
proof -
  note n = unpublished_id [OF inv i u]
  define d where "d = unregisterEvents i (unregisterCallback_now i c)"
  have c': "c' = d" using r n by (simp add: removeActor_def remove_now_def d_def)
  have h: "vc_heap d = vc_heap c" by (simp add: d_def)
  then show "heap_ids c' = heap_ids c" by (simp add: c' heap_ids_def fun_eq_iff)
  have own: "j = i" if "points_to c j h" for j using that i by (auto simp: points_to_def heap_ids_def)
  have "memh_lookup (vc_router d) t j \<noteq> Some h" for t j
  proof
    assume a: "memh_lookup (vc_router d) t j = Some h"
    then have "memh_lookup (vc_router c) t j = Some h"
      by (auto simp: d_def unregisterEvents_def unregisterCallback_now_def memh_table.unsubscr_law
          split: option.splits if_splits)
    then have "j = i" using inv own by (simp add: actor_inv_def pointers_ok_def)
    then show False using a unregistered(1) [of i "unregisterCallback_now i c" t] by (simp add: d_def)
  qed
  moreover have "map_of (vc_callbacks d) j \<noteq> Some h" for j
  proof
    assume a: "map_of (vc_callbacks d) j = Some h"
    then have "map_of (vc_callbacks c) j = Some h"
      by (auto simp: d_def unregisterCallback_now_def delete_conv' split: option.splits if_splits)
    then have "j = i" using inv own by (simp add: actor_inv_def pointers_ok_def)
    then show False using a unregistered(2) [of i c] by (simp add: d_def)
  qed
  ultimately show "unreferenced h c'" using u by (simp add: c' unreferenced_def unpublished_def) (simp add: d_def)
qed

lemma step_ok_conflict: "id_conflict c \<Longrightarrow> step_ok g c c' \<Longrightarrow> step_ok f c c'"
  using step_ok_log [of g c c'] by (auto simp: step_ok_def)

lemma drive_init_step:
  assumes "good c" "live h c" "drive_init run init c = Some (out, c')"
    and run: "\<And>d. run c = Some d \<Longrightarrow> step_ok f c d"
  shows "step_ok f c c'"
  using assms by (auto simp: drive_init_def split: init_state.splits Option.bind_splits)

lemma initActor_step:
  assumes g: "good c" and l: "live h c" and p: "\<not> id_conflict c \<Longrightarrow> unpublished h c" and f: "f \<le> h"
    and i: "heap_ids c h = Some i" and run: "\<And>d. run c = Some d \<Longrightarrow> step_ok (vc_fresh c) c d"
    and r: "initActor E h doInit run init i c = Some (r, c')"
  shows "step_ok f c c'" "\<not> id_conflict c' \<Longrightarrow> heap_ids c' h = Some i"
    "r = i \<or> r = not_found \<and> (\<not> id_conflict c' \<longrightarrow> unreferenced h c')"
proof -
  have "step_ok f c c' \<and> (\<not> id_conflict c' \<longrightarrow> heap_ids c' h = Some i) \<and>
    (r = i \<or> r = not_found \<and> (\<not> id_conflict c' \<longrightarrow> unreferenced h c'))"
  proof (cases doInit)
    case False
    then show ?thesis using r i by (simp add: initActor_def)
  next
    case True
    then obtain out d where d: "drive_init run init c = Some (out, d)"
      "(case out of ReadyTrue \<Rightarrow> Some (i, d) | ReadyFalse \<Rightarrow> do { c2 \<leftarrow> removeActor E i d; Some (not_found, c2) }
        | Suspended_init \<Rightarrow> Some (i, begin_activation E h d)) = Some (r, c')"
      using r by (auto simp: initActor_def split: Option.bind_splits)
    have s: "step_ok (vc_fresh c) c d" using drive_init_step [OF g l d(1) run] .
    have lt: "id_conflict c \<or> h < vc_fresh c" using live_fresh [OF l g] .
    then have sf: "step_ok f c d" using step_ok_mono [OF s] step_ok_conflict [OF _ s] f by fastforce
    have gd: "good d" and ld: "live h d" using good_step [OF g s] live_step_fresh [OF l g s] .
    have ltd: "h < vc_fresh c" if "\<not> id_conflict d" using lt step_ok_log [OF s] that by blast
    have id: "heap_ids d h = Some i" if "\<not> id_conflict d" using heap_ids_step [OF i g s ltd [OF that] that] .
    have pd: "unpublished h d" if "\<not> id_conflict d" using unpublished_step [OF p g s ltd [OF that] that] by simp
    show ?thesis
    proof (cases out)
      case ReadyTrue
      then show ?thesis using d(2) sf id by simp
    next
      case Suspended_init
      then have c': "c' = begin_activation E h d" "r = i" using d(2) by simp_all
      have s2: "step_ok f d c'" using begin_activation_step [OF gd ld f] c'(1) by simp
      then have "\<not> id_conflict c' \<longrightarrow> \<not> id_conflict d" using step_ok_log by blast
      then show ?thesis using c' step_ok_trans [OF sf s2] id by (simp add: heap_ids_begin_activation)
    next
      case ReadyFalse
      then have c': "removeActor E i d = Some c'" "r = not_found" using d(2) by (auto split: Option.bind_splits)
      have s2: "step_ok f d c'"
      proof (cases "id_conflict d")
        case True
        then show ?thesis using step_ok_conflict removeActor_step [OF gd c'(1), of 0] by blast
      next
        case False
        then have "map_of (vc_actors d) i = None"
          using unpublished_id(1) [OF _ id [OF False] pd [OF False]] gd by (simp add: good_def)
        then show ?thesis using removeActor_step [OF gd c'(1)] by simp
      qed
      have "unreferenced h c' \<and> heap_ids c' h = Some i" if "\<not> id_conflict c'"
      proof -
        have n: "\<not> id_conflict d" using that step_ok_log [OF s2] by blast
        then show ?thesis
          using failed_init_unreferenced [OF _ id [OF n] pd [OF n] c'(1)] gd id [OF n] by (simp add: good_def)
      qed
      then show ?thesis using c'(2) step_ok_trans [OF sf s2] by simp
    qed
  qed
  then show "step_ok f c c'" "\<not> id_conflict c' \<Longrightarrow> heap_ids c' h = Some i"
    "r = i \<or> r = not_found \<and> (\<not> id_conflict c' \<longrightarrow> unreferenced h c')" by auto
qed

lemma appendActor_step:
  assumes g: "good c" and l: "live h c" and p: "\<not> id_conflict c \<Longrightarrow> unpublished h c" and f: "f \<le> h"
    and run: "\<And>d. run c = Some d \<Longrightarrow> step_ok (vc_fresh c) c d"
    and r: "appendActor E h doInit run init c = Some (r, c')"
  shows "step_ok f c c'"
proof (cases "map_of (vc_heap c) h")
  case None
  then show ?thesis
    using r step_ok_deref [OF l, of f] by (simp add: appendActor_def deref_def)
next
  case (Some a)
  let ?i = "ac_id a"
  have i: "heap_ids c h = Some ?i" using Some by (simp add: heap_ids_def)
  show ?thesis
  proof (cases "?i \<in> set (map fst (vc_actors c))")
    case True
    then have "destroy_actor E h c = Some c'" using r Some by (auto simp: appendActor_def Let_def split: Option.bind_splits)
    moreover have "id_conflict c"
    proof (rule ccontr)
      assume n: "\<not> id_conflict c"
      then show False
        using unpublished_id(1) [OF _ i p [OF n]] g True by (simp add: good_def map_of_eq_None_iff)
    qed
    ultimately show ?thesis using destroy_actor_correct(1) [OF g l _ _ f] by blast
  next
    case False
    then obtain r1 c1 where 1: "initActor E h doInit run init ?i c = Some (r1, c1)"
      "(if is_valid r1
        then (if ?i \<in> set (map fst (vc_actors c1)) then None else Some (?i, c1\<lparr>vc_actors := (?i, h) # vc_actors c1\<rparr>))
        else do { c2 \<leftarrow> destroy_actor E h c1; Some (not_found, c2) }) = Some (r, c')"
      using r Some by (auto simp: appendActor_def Let_def split: Option.bind_splits)
    have n: "step_ok f c c1" "\<not> id_conflict c1 \<Longrightarrow> heap_ids c1 h = Some ?i"
        "r1 = ?i \<or> r1 = not_found \<and> (\<not> id_conflict c1 \<longrightarrow> unreferenced h c1)"
      using initActor_step [OF g l _ f i _ 1(1)] p run by blast+
    have g1: "good c1" using good_step [OF g n(1)] .
    have l1: "live h c1" using n(2) by (auto simp: live_def heap_ids_def)
    have "step_ok f c1 c'"
    proof (cases "is_valid r1")
      case True
      then have "c' = c1\<lparr>vc_actors := (?i, h) # vc_actors c1\<rparr>" "?i \<notin> set (map fst (vc_actors c1))"
        using 1(2) by (auto split: if_splits)
      then show ?thesis using publish_step [OF g1 f n(2)] by simp
    next
      case False
      then have d: "destroy_actor E h c1 = Some c'" using 1(2) by (auto split: Option.bind_splits)
      have "unreferenced h c1" if nc: "\<not> id_conflict c1"
      proof -
        have "is_valid ?i" using n(2) [OF nc] g1 nc heap_valid [of c1 h] by (auto simp: good_def heap_ids_def)
        then show ?thesis using n(3) False nc by auto
      qed
      then show ?thesis using destroy_actor_correct(1) [OF g1 l1 _ d f] by blast
    qed
    then show ?thesis using step_ok_trans [OF n(1)] by blast
  qed
qed

section \<open>User code keeps the invariant\<close>

lemma add_ref_step:
  assumes g: "good c" and ctor: "actor_ctor E svc defaults c = (h', c1)" and r1: "run_acts E h' cs [] c1 = Some (ev1, c2)"
    and s1: "good c1 \<Longrightarrow> live h' c1 \<Longrightarrow> step_ok (vc_fresh c1) c1 c2"
    and s2: "\<And>d d' ev'. good d \<Longrightarrow> live h' d \<Longrightarrow> run_acts E h' is [] d = Some (ev', d') \<Longrightarrow> step_ok (vc_fresh d) d d'"
    and r2: "appendActor E h' doInit (\<lambda>c. map_option snd (run_acts E h' is [] c)) out
      (deref h' (\<lambda>a. set_actor h' (a\<lparr>ac_type := ty\<rparr>)) c2) = Some (x, c')"
  shows "step_ok (vc_fresh c) c c'"
proof -
  note k = actor_ctor_correct [OF g ctor]
  have g1: "good c1" using good_step [OF g k(2)] .
  have u1: "unpublished h' c1" if "\<not> id_conflict c1"
  proof -
    have "actor_inv c1" "\<not> id_conflict c" using g1 that step_ok_log [OF k(2)] by (auto simp: good_def)
    then have "actor_inv c" using g by (simp add: good_def)
    then have "\<not> points_to c i h'" for i
      using k(1) by (auto simp: actor_inv_def ids_ok_def points_to_def)
    then show ?thesis
      using \<open>actor_inv c\<close> k(5,6) unfolding unpublished_def actor_inv_def pointers_ok_def by fastforce
  qed
  have t1: "step_ok (vc_fresh c1) c1 c2" using s1 [OF g1 k(3)] .
  have lt: "h' < vc_fresh c1" using k(1,4) by simp
  let ?c3 = "deref h' (\<lambda>a. set_actor h' (a\<lparr>ac_type := ty\<rparr>)) c2"
  have g2: "good c2" and l2: "live h' c2" using good_step [OF g1 t1] live_step [OF k(3) g1 t1 lt] .
  have t2: "step_ok f c2 ?c3" for f by (rule step_ok_deref [OF l2], erule step_ok_set_actor) simp
  have t12: "step_ok (vc_fresh c1) c1 ?c3" using step_ok_trans [OF t1 t2] .
  have g3: "good ?c3" and l3: "live h' ?c3" using good_step [OF g1 t12] live_step [OF k(3) g1 t12 lt] .
  have u3: "\<not> id_conflict ?c3 \<Longrightarrow> unpublished h' ?c3" using unpublished_step [OF u1 g1 t12 lt] by blast
  have "step_ok (vc_fresh c) ?c3 c'"
    by (rule appendActor_step [OF g3 l3 u3 _ _ r2]) (use s2 [OF g3 l3] k(1) in auto)
  moreover have "step_ok (vc_fresh c) c1 ?c3" using step_ok_mono [OF t12] k(4) by simp
  ultimately show ?thesis using step_ok_trans [OF k(2) step_ok_trans] by blast
qed

lemma run_acts_step:
  fixes E :: "('b, 'z) user_env_scheme"
  shows "run_act E h a ev c = Some (ev', c') \<Longrightarrow> good c \<Longrightarrow> live h c \<Longrightarrow> step_ok (vc_fresh c) c c'"
    and "run_acts E h as ev c = Some (ev', c') \<Longrightarrow> good c \<Longrightarrow> live h c \<Longrightarrow> step_ok (vc_fresh c) c c'"
proof (induction E h a ev c and E h as ev c arbitrary: ev' c' and ev' c' rule: run_act_run_acts.induct)
  case (1 E h x ev c)
  then show ?case using step_ok_emit by (auto split: Option.bind_splits)
next
  case (2 E h ev c)
  then show ?case using actor_reply_unmoved step_ok_unmoved by fastforce
next
  case (3 E h dest ev c)
  then show ?case using actor_forward_unmoved step_ok_unmoved by fastforce
next
  case (4 E h ev c)
  have "step_ok (vc_fresh c) c (deref h (\<lambda>a c. snd (ask_deliver (en_correlation E ev) (ac_id a) ev c)) c)"
    by (rule step_ok_deref [OF 4(3)]) (rule step_ok_ask_deliver)
  then show ?case using 4(1) by auto
next
  case (5 E h i d ev c)
  have "step_ok (vc_fresh c) c (deref h (\<lambda>a. ask_register i \<lparr>slot_owner = ac_id a, slot_done = False, slot_deliver = d\<rparr>) c)"
    by (rule step_ok_deref [OF 5(3)]) (simp add: ask_register_def)
  then show ?case using 5(1) by auto
next
  case (11 E h ev c)
  then have "deref_opt h (\<lambda>a. unregisterCallback E (ac_id a)) c = Some c'" by (auto split: Option.bind_splits)
  from step_ok_deref_unmoved [OF 11(3) this] unregisterCallback_unmoved show ?case by blast
next
  case (12 E h ev c)
  have "step_ok (vc_fresh c) c (deref h (\<lambda>a. set_actor h (ensure_coro_scope a)) c)"
    by (rule step_ok_deref [OF 12(3)], erule step_ok_set_actor) (simp add: ensure_coro_scope_def)
  then show ?case using 12 by auto
next
  case (13 E h svc defaults ty ctor init outcome ev c)
  obtain h' c1 where c1: "actor_ctor E svc defaults c = (h', c1)" by fastforce
  then obtain e2 c2 x where c2: "run_acts E h' ctor [] c1 = Some (e2, c2)"
    "appendActor E h' True (\<lambda>c. map_option snd (run_acts E h' init [] c)) outcome
      (deref h' (\<lambda>a. set_actor h' (a\<lparr>ac_type := ty\<rparr>)) c2) = Some (x, c')"
    using 13(3) by (auto split: Option.bind_splits)
  note ctor = 13(1) [OF refl c1 [symmetric] c2(1)] and init = 13(2) [OF refl c1 [symmetric] c2(1) refl refl]
  show ?case by (rule add_ref_step [OF 13(4) c1 c2(1) ctor init c2(2)])
next
  case (15 E h x xs ev c)
  then obtain e1 c1 where 1: "run_act E h x ev c = Some (e1, c1)" "run_acts E h xs e1 c1 = Some (ev', c')"
    by (auto split: Option.bind_splits)
  have s: "step_ok (vc_fresh c) c c1" using 15(1) [OF 1(1) 15(4,5)] .
  have "step_ok (vc_fresh c1) c1 c'"
    using 15(2) [OF 1(1) refl 1(2) good_step [OF 15(4) s] live_step_fresh [OF 15(5,4) s]] .
  then show ?case using step_ok_seq [OF 15(4) s] by simp
qed (auto simp: ask_unregister_def ask_register_type_def intro: step_ok_registerEvent step_ok_unregisterEvent
    step_ok_registerCallback)

end
