(* ===== verification/Core_Loop.thy ===== *)
theory Core_Loop
  imports Core_Lifecycle
begin

text \<open>
  The event loop of a core (\<open>src/qb/core/VirtualCore.cpp\<close>): the default handlers of an actor, the
  reception of events with the gate for actors that are still activating, the completion of
  asynchronous initialisations, the callbacks, the reaping of killed actors, the polling of signals, the
  loop itself and its shutdown phase.
\<close>

section \<open>Handlers\<close>

abbreviation SIGINT :: "32 word" where "SIGINT \<equiv> 2"
abbreviation SIGTERM :: "32 word" where "SIGTERM \<equiv> 15"

definition on_PingEvent :: "('b, 'z) user_env_scheme \<Rightarrow> addr \<Rightarrow> 'b event \<Rightarrow> 'b core \<Rightarrow> 'b core option" where
  "on_PingEvent E h ev = deref_opt h (\<lambda>a c.
     if en_ping_type E ev = 0 \<or> en_ping_type E ev = ucast (ac_type a)
     then core_send E (en_tid E Require_event) False (en_sizeof E Require_event) (ev_getSource (hd ev)) (ac_id a)
            (en_object E Require_event (en_ping_type E ev) (en_correlation E ev)) c
     else Some c)"

definition on_RequireEvent :: "('b, 'z) user_env_scheme \<Rightarrow> addr \<Rightarrow> 'b event \<Rightarrow> 'b core \<Rightarrow> 'b core option" where
  "on_RequireEvent E h ev = deref_opt h (\<lambda>a c. Some (snd (ask_deliver (en_correlation E ev) (ac_id a) ev c)))"

definition on_KillEvent :: "addr \<Rightarrow> 'b core \<Rightarrow> 'b core option" where
  "on_KillEvent h c = Some (actor_kill h c)"

definition on_SignalEvent :: "('b, 'z) user_env_scheme \<Rightarrow> addr \<Rightarrow> 'b event \<Rightarrow> 'b core \<Rightarrow> 'b core option" where
  "on_SignalEvent E h ev c =
     (if en_signum E ev = SIGINT \<or> en_signum E ev = SIGTERM then Some (actor_kill h c) else Some c)"

definition on_UnregisterCallbackEvent :: "addr \<Rightarrow> 'b core \<Rightarrow> 'b core option" where
  "on_UnregisterCallbackEvent h = deref_opt h (\<lambda>a c. Some (unregisterCallback_now (ac_id a) c))"

text \<open>The handler of an actor for a type: the user's, or the one of the class \<open>Actor\<close>.\<close>

definition actor_on ::
  "('b, 'z) user_env_scheme \<Rightarrow> event_id \<Rightarrow> addr \<Rightarrow> 'b event \<Rightarrow> 'b core \<Rightarrow> ('b event \<times> 'b core) option" where
  "actor_on E tid h ev c =
     (case map_of (vc_heap c) h of
        None \<Rightarrow> Some (ev, logged (Dangling h) c)
      | Some a \<Rightarrow>
          let c0 = logged (Handled h tid ev) c
          in case en_on E tid h ev c of
               Some acts \<Rightarrow> run_acts E h acts ev c0
             | None \<Rightarrow> map_option (Pair ev)
                 (if tid = en_tid E Kill_event then on_KillEvent h c0
                  else if tid = en_tid E Signal_event then on_SignalEvent E h ev c0
                  else if tid = en_tid E Unregister_callback_event then on_UnregisterCallbackEvent h c0
                  else if tid = en_tid E Ping_event then on_PingEvent E h ev c0
                  else if tid = en_tid E Require_event then on_RequireEvent E h ev c0
                  else Some c0))"

definition core_route :: "('b, 'z) user_env_scheme \<Rightarrow> 'b event \<Rightarrow> 'b core \<Rightarrow> ('b event \<times> 'b core) option" where
  "core_route E ev c =
     memh_route (core_policy E (en_iter E) (actor_on E)) True
       (\<lambda>e c. if \<not> is_broadcast (ev_getDestination (hd e)) then logged (Unroutable e) c else c) ev c"

section \<open>Reception\<close>

definition kActivationStashCap :: nat where
  "kActivationStashCap = 4096"

definition is_activating :: "actor_id \<Rightarrow> 'b core \<Rightarrow> bool" where
  "is_activating i c \<longleftrightarrow> map_of (vc_activating c) i \<noteq> None"

definition set_activation :: "actor_id \<Rightarrow> 'b activation \<Rightarrow> 'b core \<Rightarrow> 'b core" where
  "set_activation i act c = c\<lparr>vc_activating := AList.update i act (vc_activating c)\<rparr>"

definition stash_event :: "actor_id \<Rightarrow> 'b event \<Rightarrow> 'b core \<Rightarrow> bool \<times> 'b core" where
  "stash_event dest ev c =
     (case map_of (vc_activating c) dest of
        None \<Rightarrow> (False, c)
      | Some act \<Rightarrow>
          if length (act_stash act) \<ge> kActivationStashCap then (False, set_activation dest (act\<lparr>act_deadline := 1\<rparr>) c)
          else (True, logged (Stashed ev)
                  (set_activation dest (act\<lparr>act_stash := act_stash act @ [take (unat (bucket_size (hd ev))) ev]\<rparr>) c)))"

definition gated :: "('b, 'z) user_env_scheme \<Rightarrow> 'b event \<Rightarrow> 'b core \<Rightarrow> bool" where
  "gated E ev c \<longleftrightarrow> vc_activating c \<noteq> [] \<and> \<not> is_broadcast (ev_getDestination (hd ev)) \<and>
     is_activating (ev_getDestination (hd ev)) c \<and> ev_getID (hd ev) \<noteq> en_tid E Kill_event"

definition receive_gated :: "('b, 'z) user_env_scheme \<Rightarrow> 'b event \<Rightarrow> 'b core \<Rightarrow> 'b core" where
  "receive_gated E ev c =
     (let (replied, c1) = ask_try_deliver_reply E ev (ev_getDestination (hd ev)) c
      in if replied then core_dispose E ev c1
         else let (taken, c2) = stash_event (ev_getDestination (hd ev)) ev c1
              in if taken then c2 else core_dispose E ev c2)"

definition receive_event :: "('b, 'z) user_env_scheme \<Rightarrow> 'b event \<Rightarrow> 'b core \<Rightarrow> 'b core option" where
  "receive_event E ev c =
     (if gated E ev c then Some (count_received ev (receive_gated E ev c))
      else do {
        (ev1, c1) \<leftarrow> core_route E (on_head (set_alive False) ev) c;
        Some (count_received ev1 c1)
      })"

function receive_events :: "('b, 'z) user_env_scheme \<Rightarrow> 'b bucket list \<Rightarrow> 'b core \<Rightarrow> 'b core option" where
  "receive_events E events c =
     (if events = [] then Some c
      else let n = unat (bucket_size (hd events))
           in if n = 0 then Some (logged (Zero_width events) c)
              else case receive_event E (take n events) c of
                None \<Rightarrow> None
              | Some c1 \<Rightarrow> receive_events E (drop n events) c1)"
  by pat_completeness auto
termination
  by (relation "measure (\<lambda>(E, events, c). length events)") auto

declare receive_events.simps [simp del]

text \<open>
  \<open>receive_producers E i n\<close> is the loop of \<open>_mail_box.consume_all\<close> over the producers \<open>i, \<dots>, i + n - 1\<close>
  of this core's mailbox.
\<close>

fun receive_producers :: "('b, 'z) user_env_scheme \<Rightarrow> nat \<Rightarrow> nat \<Rightarrow> 'b core \<Rightarrow> 'b core option" where
  "receive_producers E i 0 c = Some c"
| "receive_producers E i (Suc n) c =
     do {
       let eng = en_peers E (vc_tick c) (vc_engine c);
       mb \<leftarrow> engine_mailbox (vc_resolved c) eng;
       if i < length (mb_producers mb) then do {
         (k, buf, p) \<leftarrow> producer_dequeue MaxRingEvents (vc_event_buffer c) 0 MaxRingEvents (mb_producers mb ! i);
         let c1 = c\<lparr>vc_engine := set_mailbox (vc_resolved c) (mb\<lparr>mb_producers := (mb_producers mb)[i := p]\<rparr>) eng,
                    vc_tick := vc_tick c + 1, vc_event_buffer := buf\<rparr>;
         c2 \<leftarrow> (if k \<noteq> 0 then receive_events E (take k buf) c1 else Some c1);
         receive_producers E (i + 1) n c2
       }
       else None
     }"

definition core_receive :: "('b, 'z) user_env_scheme \<Rightarrow> 'b core \<Rightarrow> 'b core option" where
  "core_receive E c =
     (if vc_resolved c < length (vc_pipes c) then do {
        let (m, p) = pipe_swap (vc_mono c) (vc_pipes c ! vc_resolved c);
        let c1 = set_pipe (vc_resolved c) p (c\<lparr>vc_mono := m\<rparr>);
        bs \<leftarrow> mem_read (storage m) (p_begin m) (pipe_size m);
        c2 \<leftarrow> receive_events E bs c1;
        let c3 = c2\<lparr>vc_mono := pipe_reset (vc_mono c2)\<rparr>;
        mb \<leftarrow> engine_mailbox (vc_resolved c3) (vc_engine c3);
        receive_producers E 0 (length (mb_producers mb)) c3
      }
      else None)"

section \<open>Asynchronous initialisation\<close>

fun pump_scan :: "('b, 'z) user_env_scheme \<Rightarrow> 64 word \<Rightarrow> actor_id list \<Rightarrow> 'b core \<Rightarrow> actor_id list \<times> 'b core" where
  "pump_scan E now [] c = ([], c)"
| "pump_scan E now (i # is) c =
     (case map_of (vc_activating c) i of
        None \<Rightarrow> pump_scan E now is c
      | Some act \<Rightarrow>
          if init_done (act_init act) then let (ids, c1) = pump_scan E now is c in (i # ids, c1)
          else if \<not> act_cancelling act \<and> act_deadline act \<noteq> 0 \<and> now \<ge> act_deadline act
          then let c1 = set_activation i (act\<lparr>act_cancelling := True\<rparr>) c;
                   c2 = (case map_of (vc_actors c1) i of
                           None \<Rightarrow> c1
                         | Some h \<Rightarrow> deref h (\<lambda>a. set_actor h (cancel_coro_scope a)) c1)
               in pump_scan E now is c2
          else pump_scan E now is c)"

fun replay :: "('b, 'z) user_env_scheme \<Rightarrow> 'b event list \<Rightarrow> 'b core \<Rightarrow> 'b core option" where
  "replay E [] c = Some c"
| "replay E (ev # evs) c = do { (ev1, c1) \<leftarrow> core_route E (on_head (set_alive False) ev) c; replay E evs c1 }"

definition finish_activation :: "('b, 'z) user_env_scheme \<Rightarrow> actor_id \<Rightarrow> 'b core \<Rightarrow> 'b core option" where
  "finish_activation E i c =
     (case map_of (vc_activating c) i of
        None \<Rightarrow> Some c
      | Some act \<Rightarrow>
          let dying = List.member (vc_dying c) i;
              c1 = c\<lparr>vc_activating := AList.delete i (vc_activating c), vc_dying := removeAll i (vc_dying c)\<rparr>;
              ok = (act_init act = Returned_bool True)
          in case map_of (vc_actors c1) i of
               None \<Rightarrow> Some (fold (core_dispose E) (act_stash act) c1)
             | Some h \<Rightarrow>
                 if dying \<or> \<not> ok then removeActor E i (fold (core_dispose E) (act_stash act) c1)
                 else replay E (act_stash act) (deref h (\<lambda>a. set_actor h (a\<lparr>ac_activated := True\<rparr>)) c1))"

fun pump_done :: "('b, 'z) user_env_scheme \<Rightarrow> actor_id list \<Rightarrow> 'b core \<Rightarrow> 'b core option" where
  "pump_done E [] c = Some c"
| "pump_done E (i # is) c = do { c1 \<leftarrow> finish_activation E i c; pump_done E is c1 }"

definition pump_activations :: "('b, 'z) user_env_scheme \<Rightarrow> 'b core \<Rightarrow> 'b core option" where
  "pump_activations E c =
     (if vc_activating c = [] then Some c
      else let (done_ids, c1) = pump_scan E (en_now E c) (en_id_iter E (map fst (vc_activating c))) c
           in pump_done E done_ids c1)"

text \<open>\<open>__init__actors__\<close> and the creation of the registered actors.\<close>

fun init_each :: "('b, 'z) user_env_scheme \<Rightarrow> addr list \<Rightarrow> 'b core \<Rightarrow> (bool \<times> 'b core) option" where
  "init_each E [] c = Some (True, c)"
| "init_each E (h # hs) c =
     do {
       let (acts, init) = en_init E h c;
       (out, c1) \<leftarrow> drive_init (\<lambda>c. map_option snd (run_acts E h acts [] c)) init c;
       case out of
         ReadyTrue \<Rightarrow> init_each E hs c1
       | ReadyFalse \<Rightarrow> Some (False, c1)
       | Suspended_init \<Rightarrow> init_each E hs (begin_activation E h c1)
     }"

definition init_actors :: "('b, 'z) user_env_scheme \<Rightarrow> 'b core \<Rightarrow> (bool \<times> 'b core) option" where
  "init_actors E c = init_each E (map snd (en_iter E (vc_actors c))) c"

section \<open>Callbacks and reaping\<close>

fun run_callbacks :: "('b, 'z) user_env_scheme \<Rightarrow> (addr \<times> actor_id) list \<Rightarrow> 'b core \<Rightarrow> 'b core option" where
  "run_callbacks E [] c = Some c"
| "run_callbacks E ((h, i) # es) c =
     do {
       c1 \<leftarrow> (if vc_to_remove c = [] \<or> \<not> List.member (vc_to_remove c) i
             then deref_opt h (\<lambda>a c. map_option snd (run_acts E h (en_tick E h c) [] (logged (Ticked h) c))) c
             else Some c);
       run_callbacks E es c1
     }"

fun remove_batch :: "('b, 'z) user_env_scheme \<Rightarrow> actor_id list \<Rightarrow> 'b core \<Rightarrow> 'b core option" where
  "remove_batch E [] c = Some c"
| "remove_batch E (i # is) c = do { c1 \<leftarrow> removeActor E i c; remove_batch E is c1 }"

text \<open>
  The reaping loop ends: a pass either removes an actor from the map or runs no user code, and then
  nothing refills the set.
\<close>

lemma destroy_actor_tables: "destroy_actor E h c = Some c' \<Longrightarrow> same_tables c c'"
  by (auto simp: destroy_actor_def deref_opt_def logged_def same_tables_def
      split: option.splits Option.bind_splits dest!: do_emits_tables)

lemma length_delete_less: "map_of xs i = Some h \<Longrightarrow> length (AList.delete i xs) < length xs"
proof (induction xs)
  case (Cons x xs)
  then show ?case using length_delete_le [of i xs] by (cases x) (auto simp: le_imp_less_Suc split: if_splits)
qed simp

lemma length_update_mem: "map_of xs i = Some h \<Longrightarrow> length (AList.update i x xs) = length xs"
  by (induction xs) (auto split: if_splits)

definition fewer_actors :: "'b core \<Rightarrow> 'b core \<Rightarrow> bool" where
  "fewer_actors c c' \<longleftrightarrow> length (vc_actors c') < length (vc_actors c) \<or>
     vc_actors c' = vc_actors c \<and> vc_to_remove c' = vc_to_remove c"

lemma unregister_to_remove [simp]:
  "vc_to_remove (unregisterEvents i c) = vc_to_remove c" "vc_to_remove (unregisterCallback_now i c) = vc_to_remove c"
  "vc_to_remove (deref h (\<lambda>a. set_actor h (cancel_coro_scope a)) c) = vc_to_remove c"
  by (auto simp: unregisterEvents_def unregisterCallback_now_def deref_def set_actor_def logged_def split: option.splits)

lemma remove_now_fewer: "remove_now E i c = Some c' \<Longrightarrow> fewer_actors c c'"
proof (cases "map_of (vc_actors c) i")
  case (Some h)
  assume r: "remove_now E i c = Some c'"
  define c1 where "c1 = unregisterEvents i (unregisterCallback_now i c)"
  define c2 where "c2 = deref h (\<lambda>a. set_actor h (cancel_coro_scope a)) c1"
  have "map_of (vc_actors c1) i = Some h" using Some by (simp add: c1_def)
  then obtain c3 where c3: "destroy_actor E h (c2\<lparr>vc_actors := AList.delete i (vc_actors c2)\<rparr>) = Some c3"
    "vc_actors c' = vc_actors c3"
    using r unfolding remove_now_def c1_def [symmetric]
    by (auto simp: Let_def c2_def [symmetric] split: Option.bind_splits if_splits)
  have "vc_actors c3 = AList.delete i (vc_actors c)"
    using destroy_actor_tables [OF c3(1)] by (simp add: same_tables_def c2_def cancel_simps c1_def)
  then show ?thesis using c3(2) length_delete_less [OF Some] by (simp add: fewer_actors_def)
qed (auto simp: remove_now_def fewer_actors_def)

lemma removeActor_fewer:
  assumes r: "removeActor E i c = Some c'"
  shows "fewer_actors c c'"
proof (cases "map_of (vc_activating c) i")
  case None
  then show ?thesis using r remove_now_fewer by (simp add: removeActor_def)
next
  case (Some act)
  define c1 where "c1 = (case map_of (vc_actors c) i of
      Some h \<Rightarrow> deref h (\<lambda>a. set_actor h (cancel_coro_scope a)) c | None \<Rightarrow> c)"
  have same: "vc_actors c1 = vc_actors c" "vc_to_remove c1 = vc_to_remove c"
    by (auto simp: c1_def cancel_simps split: option.splits)
  let ?c2 = "c1\<lparr>vc_activating := AList.delete i (vc_activating c1), vc_dying := removeAll i (vc_dying c1)\<rparr>"
  have "c' = c1\<lparr>vc_dying := List.insert i (vc_dying c1)\<rparr> \<or> remove_now E i ?c2 = Some c'"
    using r Some by (simp add: removeActor_def c1_def [symmetric] split: if_splits)
  then show ?thesis using same remove_now_fewer [of E i ?c2 c'] by (auto simp: fewer_actors_def)
qed

lemma fewer_actors_trans: "fewer_actors a b \<Longrightarrow> fewer_actors b c \<Longrightarrow> fewer_actors a c"
  by (auto simp: fewer_actors_def)

lemma remove_batch_fewer: "remove_batch E is c = Some c' \<Longrightarrow> fewer_actors c c'"
proof (induction "is" arbitrary: c)
  case (Cons i "is")
  then show ?case
    using removeActor_fewer fewer_actors_trans by (auto split: Option.bind_splits) blast
qed (simp add: fewer_actors_def)

function reap :: "('b, 'z) user_env_scheme \<Rightarrow> 'b core \<Rightarrow> 'b core option" where
  "reap E c =
     (if vc_to_remove c = [] then Some c
      else case remove_batch E (en_id_iter E (vc_to_remove c)) (c\<lparr>vc_to_remove := []\<rparr>) of
             None \<Rightarrow> None
           | Some c1 \<Rightarrow> reap E c1)"
  by pat_completeness auto
termination
proof (relation "measure (\<lambda>(E, c). 2 * length (vc_actors c) + (if vc_to_remove c = [] then 0 else 1))", goal_cases)
  case (2 E c c1)
  then show ?case using remove_batch_fewer [OF 2(2)] by (auto simp: fewer_actors_def)
qed simp

declare reap.simps [simp del]

section \<open>The loop\<close>

text \<open>
  What one pass reads of the world: the pending signal, loaded twice, the signal generation, whether a
  stop was requested, and what the run of the I/O event loop does: calls from the handlers and scoped
  coroutines of an actor, which exist as long as it does, and the resumption of a suspended \<open>onInit()\<close>,
  with its new state.
\<close>

datatype 'b io = Io_acts addr "'b act list" | Io_resume actor_id "'b act list" init_state

record 'b world = "'b user_env" +
  en_pending :: "'b core \<Rightarrow> 32 word"
  en_generation :: "'b core \<Rightarrow> 32 word"
  en_pending_again :: "'b core \<Rightarrow> 32 word"
  en_stop :: "'b core \<Rightarrow> bool"
  en_io_active :: "'b core \<Rightarrow> bool"
  en_io :: "'b core \<Rightarrow> 'b io list"

definition poll_signal :: "('b, 'z) world_scheme \<Rightarrow> 'b core \<Rightarrow> 'b core option" where
  "poll_signal E c =
     (let pending = en_pending E c; stop_requested = en_stop E c
      in if pending \<noteq> 0 \<or> stop_requested
         then let generation = en_generation E c; signum = en_pending_again E c;
                  new_signal = (signum \<noteq> 0 \<and> generation \<noteq> vc_last_generation c)
              in if new_signal \<or> (stop_requested \<and> \<not> vc_stop_delivered c)
                 then let c1 = (if new_signal then c\<lparr>vc_last_generation := generation\<rparr> else c);
                          c2 = (if stop_requested then c1\<lparr>vc_stop_delivered := True\<rparr> else c1);
                          own = BroadcastId (ucast (vc_index c));
                          ev = on_head (fill_event (en_tid E Signal_event) False (en_sizeof E Signal_event) own own)
                                 (en_object E Signal_event (if signum \<noteq> 0 then signum else SIGINT) 0)
                      in core_recycle E ev c2
                 else Some c
         else Some c)"

fun run_io :: "('b, 'z) user_env_scheme \<Rightarrow> 'b io list \<Rightarrow> 'b core \<Rightarrow> 'b core option" where
  "run_io E [] c = Some c"
| "run_io E (Io_acts h acts # ios) c =
     (case map_of (vc_heap c) h of
        None \<Rightarrow> run_io E ios c
      | Some a \<Rightarrow> do { (_, c1) \<leftarrow> run_acts E h acts [] c; run_io E ios c1 })"
| "run_io E (Io_resume i acts st # ios) c =
     (case map_of (vc_activating c) i of
        None \<Rightarrow> run_io E ios c
      | Some act \<Rightarrow>
          if act_init act \<noteq> Suspended then run_io E ios c
          else do {
            c1 \<leftarrow> deref_opt (act_owner act) (\<lambda>a c. map_option snd (run_acts E (act_owner act) acts [] c)) c;
            case map_of (vc_activating c1) i of
              None \<Rightarrow> run_io E ios c1
            | Some act1 \<Rightarrow> run_io E ios (set_activation i (act1\<lparr>act_init := st\<rparr>) c1)
          })"

definition run_listener :: "('b, 'z) world_scheme \<Rightarrow> 'b core \<Rightarrow> 'b core option" where
  "run_listener E c =
     (if en_io_active E c then do {
        c1 \<leftarrow> run_io E (en_io E c) c;
        Some (c1\<lparr>vc_metrics := (vc_metrics c1)\<lparr>m_event_io := word_of_nat (length (en_io E c))\<rparr>\<rparr>)
      }
      else Some c)"

text \<open>
  The end of a pass: \<open>carry_over()\<close> and, if the mailbox has a latency, the spin credit; a core without
  credit waits on the mailbox, which changes nothing of the state.
\<close>

definition end_of_pass :: "'b core \<Rightarrow> 'b core option" where
  "end_of_pass c =
     do {
       let m = carry_over (vc_metrics c);
       mb \<leftarrow> engine_mailbox (vc_resolved c) (vc_engine c);
       Some (c\<lparr>vc_metrics :=
         if mb_latency mb > 0 \<and> m_spin_credit m \<noteq> 0 then m\<lparr>m_spin_credit := m_spin_credit m - 1\<rparr> else m\<rparr>)
     }"

text \<open>The phase after the reception; the flag is \<open>break\<close>.\<close>

definition callbacks_and_reap :: "('b, 'z) user_env_scheme \<Rightarrow> 'b core \<Rightarrow> (bool \<times> 'b core) option" where
  "callbacks_and_reap E c =
     do {
       c1 \<leftarrow> (if vc_to_remove c \<noteq> [] then Some c else run_callbacks E (vc_callback_list c) c);
       if vc_to_remove c1 \<noteq> [] then do {
         c2 \<leftarrow> reap E c1;
         if vc_actors c2 = [] then Some (True, c2) else do { c3 \<leftarrow> end_of_pass c2; Some (False, c3) }
       }
       else do { c3 \<leftarrow> end_of_pass c1; Some (False, c3) }
     }"

definition workflow_pass :: "('b, 'z) world_scheme \<Rightarrow> 'b core \<Rightarrow> (bool \<times> 'b core) option" where
  "workflow_pass E c =
     do {
       let c1 = c\<lparr>vc_metrics := (vc_metrics c)\<lparr>m_nanotimer := en_now E c\<rparr>, vc_loop_count := vc_loop_count c + 1\<rparr>;
       c2 \<leftarrow> poll_signal E c1;
       c3 \<leftarrow> run_listener E c2;
       (stop, c4) \<leftarrow> (if vc_activating c3 \<noteq> []
                     then do { d \<leftarrow> pump_activations E c3; Some (vc_actors d = [], d) }
                     else Some (False, c3));
       if stop then Some (True, c4)
       else do {
         (_, c5) \<leftarrow> flush_all E c4;
         c6 \<leftarrow> core_receive E c5;
         callbacks_and_reap E c6
       }
     }"

text \<open>
  \<open>workflow_loop E n\<close> runs at most \<open>n\<close> passes and \<open>shutdown_loop E n\<close> at most \<open>n\<close> rounds of the drain
  after them; the flag says whether the loop was left.
\<close>

fun workflow_loop :: "('b, 'z) world_scheme \<Rightarrow> nat \<Rightarrow> 'b core \<Rightarrow> (bool \<times> 'b core) option" where
  "workflow_loop E 0 c = Some (False, c)"
| "workflow_loop E (Suc n) c =
     do { (stop, c1) \<leftarrow> workflow_pass E c; if stop then Some (True, c1) else workflow_loop E n c1 }"

fun shutdown_loop :: "('b, 'z) world_scheme \<Rightarrow> nat \<Rightarrow> 'b core \<Rightarrow> (bool \<times> 'b core) option" where
  "shutdown_loop E 0 c = Some (False, c)"
| "shutdown_loop E (Suc n) c =
     do {
       c1 \<leftarrow> core_receive E c;
       (work, c2) \<leftarrow> flush_all E c1;
       if \<not> work then Some (True, c2)
       else do {
         (any_live, c3) \<leftarrow> dispose_residual_to_stopped_cores E c2;
         if \<not> any_live then Some (True, c3) else shutdown_loop E n c3
       }
     }"

definition workflow :: "('b, 'z) world_scheme \<Rightarrow> nat \<Rightarrow> nat \<Rightarrow> 'b core \<Rightarrow> (bool \<times> 'b core) option" where
  "workflow E passes rounds c =
     do {
       (left, c1) \<leftarrow> workflow_loop E passes c;
       if \<not> left then Some (False, c1)
       else do {
         (drained, c2) \<leftarrow> shutdown_loop E rounds c1;
         if \<not> drained then Some (False, c2)
         else do { eng \<leftarrow> mark_core_stopped (vc_resolved c2) (vc_engine c2); Some (True, c2\<lparr>vc_engine := eng\<rparr>) }
       }
     }"

end
