(* ===== verification/Core_Safety.thy ===== *)
theory Core_Safety
  imports Core_Loop
begin

text \<open>
  The event loop of a core keeps the invariant of its bookkeeping, so that it never uses a pointer to a
  destroyed actor; and what the loop does with the events it receives: order, the gate in front of an
  actor that is still activating, the bound of its stash, the signals.
\<close>

section \<open>Snapshots\<close>

text \<open>No call of the API touches the snapshot buffers of the dispatches that are under way.\<close>

lemma deref_snap: "(\<And>a. vc_snap (g a c) = vc_snap c) \<Longrightarrow> vc_snap (deref h g c) = vc_snap c"
  by (auto simp: deref_def logged_def split: option.splits)

lemma deref_opt_snap:
  "deref_opt h g c = Some c' \<Longrightarrow> (\<And>a c'. g a c = Some c' \<Longrightarrow> vc_snap c' = vc_snap c) \<Longrightarrow> vc_snap c' = vc_snap c"
  by (auto simp: deref_opt_def logged_def split: option.splits)

lemmas snap_defs = registerEvent_def unregisterEvent_def unregisterEvents_def registerCallback_def
  unregisterCallback_now_def ask_register_def ask_unregister_def ask_register_type_def ask_deliver_def deliver_thunk_def
  killActor_def actor_kill_def set_actor_def begin_activation_def generate_id_def logged_def

lemma snap_simps [simp]:
  "vc_snap (registerEvent t h c) = vc_snap c" "vc_snap (unregisterEvent t h c) = vc_snap c"
  "vc_snap (unregisterEvents i c) = vc_snap c" "vc_snap (registerCallback h c) = vc_snap c"
  "vc_snap (unregisterCallback_now i c) = vc_snap c" "vc_snap (ask_register n s c) = vc_snap c"
  "vc_snap (ask_unregister n c) = vc_snap c" "vc_snap (ask_register_type t c) = vc_snap c"
  "vc_snap (snd (ask_deliver n i ev c)) = vc_snap c" "vc_snap (actor_kill h c) = vc_snap c"
  "vc_snap (set_actor h a c) = vc_snap c" "vc_snap (begin_activation E h c) = vc_snap c"
  "vc_snap (snd (generate_id c)) = vc_snap c" "vc_snap (logged x c) = vc_snap c"
  by (auto simp: snap_defs deref_def Let_def split: option.splits prod.splits)

lemma unmoved_snap: "unmoved c' = unmoved c \<Longrightarrow> vc_snap c' = vc_snap c"
  by (rule unmoved_eqD(8))

lemma do_emit_snap: "do_emit E h x c = Some c' \<Longrightarrow> vc_snap c' = vc_snap c"
  by (cases x) (auto split: if_splits elim!: deref_opt_snap dest: unmoved_snap core_push_unmoved core_send_unmoved core_broadcast_unmoved)

lemma do_emits_snap: "do_emits E h xs c = Some c' \<Longrightarrow> vc_snap c' = vc_snap c"
  by (induction xs arbitrary: c) (auto split: Option.bind_splits dest!: do_emit_snap)

lemma destroy_actor_snap: "destroy_actor E h c = Some c' \<Longrightarrow> vc_snap c' = vc_snap c"
  by (auto simp: destroy_actor_def elim!: deref_opt_snap split: Option.bind_splits dest!: do_emits_snap)

lemma remove_now_snap: "remove_now E i c = Some c' \<Longrightarrow> vc_snap c' = vc_snap c"
  by (auto simp: remove_now_def Let_def deref_def split: option.splits Option.bind_splits if_splits dest!: destroy_actor_snap)

lemma removeActor_snap: "removeActor E i c = Some c' \<Longrightarrow> vc_snap c' = vc_snap c"
  by (auto simp: removeActor_def Let_def deref_def split: option.splits if_splits dest!: remove_now_snap)

lemma appendActor_snap:
  assumes "appendActor E h doInit run init c = Some (r, c')" "\<And>c c'. run c = Some c' \<Longrightarrow> vc_snap c' = vc_snap c"
  shows "vc_snap c' = vc_snap c"
  using assms(1)
  by (auto simp: appendActor_def initActor_def drive_init_def Let_def split: option.splits if_splits init_state.splits
      init_outcome.splits Option.bind_splits dest!: destroy_actor_snap removeActor_snap assms(2))

lemma fold_register_snap [simp]: "vc_snap (fold (\<lambda>s. registerEvent (g s) h) xs c) = vc_snap c"
  by (induction xs arbitrary: c) auto

lemma actor_ctor_snap: "actor_ctor E svc d c = (h, c') \<Longrightarrow> vc_snap c' = vc_snap c"
  by (auto simp: actor_ctor_def generate_id_def Let_def split: prod.splits option.splits if_splits)

lemma run_acts_snap:
  fixes E :: "('b, 'z) user_env_scheme"
  shows "run_act E h a ev c = Some (ev', c') \<Longrightarrow> vc_snap c' = vc_snap c"
    and "run_acts E h as ev c = Some (ev', c') \<Longrightarrow> vc_snap c' = vc_snap c"
proof (induction E h a ev c and E h as ev c arbitrary: ev' c' and ev' c' rule: run_act_run_acts.induct)
  case (13 E h svc defaults ty ctor init outcome ev c)
  obtain h' c1 where c1: "actor_ctor E svc defaults c = (h', c1)" by fastforce
  then obtain e2 c2 x where c2: "run_acts E h' ctor [] c1 = Some (e2, c2)"
    "appendActor E h' True (\<lambda>c. map_option snd (run_acts E h' init [] c)) outcome
      (deref h' (\<lambda>a. set_actor h' (a\<lparr>ac_type := ty\<rparr>)) c2) = Some (x, c')"
    using 13(3) by (auto split: Option.bind_splits)
  have "vc_snap c' = vc_snap (deref h' (\<lambda>a. set_actor h' (a\<lparr>ac_type := ty\<rparr>)) c2)"
    using appendActor_snap [OF c2(2)] 13(2) [OF refl c1 [symmetric] c2(1) refl refl] by auto
  moreover have "vc_snap (deref h' (\<lambda>a. set_actor h' (a\<lparr>ac_type := ty\<rparr>)) c2) = vc_snap c2" by (rule deref_snap) simp
  ultimately show ?case using 13(1) [OF refl c1 [symmetric] c2(1)] actor_ctor_snap [OF c1] by simp
next
  case (15 E h x xs ev c)
  from 15(3) obtain e1 c1 where 1: "run_act E h x ev c = Some (e1, c1)" "run_acts E h xs e1 c1 = Some (ev', c')"
    by (auto split: Option.bind_splits)
  show ?case using 15(1) [OF 1(1)] 15(2) [OF 1(1) refl 1(2)] by simp
next
  case (1 E h x ev c)
  then obtain c1 where "do_emit E h x c = Some c1" "c1 = c'" by (auto split: Option.bind_splits)
  then show ?case using do_emit_snap by blast
next
  case (2 E h ev c)
  then have "actor_reply E ev c = Some (ev', c')" by simp
  then show ?case by (rule unmoved_snap [OF actor_reply_unmoved])
next
  case (3 E h dest ev c)
  then have "actor_forward E dest ev c = Some (ev', c')" by simp
  then show ?case by (rule unmoved_snap [OF actor_forward_unmoved])
next
  case (11 E h ev c)
  then have "deref_opt h (\<lambda>a. unregisterCallback E (ac_id a)) c = Some c'" by (auto split: Option.bind_splits)
  then show ?case by (rule deref_opt_snap) (rule unmoved_snap [OF unregisterCallback_unmoved])
qed (auto intro!: deref_snap)

section \<open>Dispatch keeps the invariant\<close>

lemma step_ok_metrics [simp]:
  "step_ok f c (count_try c)" "step_ok f c (count_sent ev c)" "step_ok f c (count_received ev c)"
  by (simp_all add: count_try_def count_sent_def count_received_def)

lemma core_dispose_step: "step_ok f c (core_dispose E ev c)"
proof -
  obtain d r where dr: "find_disposer (ev_getID (hd ev)) (vc_disposers c) (vc_router c) = (d, r)" by fastforce
  then have "registered_events r = registered_events (vc_router c)" by (auto simp: find_disposer_def split: if_splits)
  then have "memh_lookup r = memh_lookup (vc_router c)" by (simp add: memh_lookup_def fun_eq_iff)
  then have s: "step_ok f c (c\<lparr>vc_disposers := vc_disposers c, vc_router := r\<rparr>)" by (intro step_ok_router) simp
  have "core_dispose E ev c = c\<lparr>vc_router := r\<rparr> \<or> (\<exists>t. core_dispose E ev c = logged (Destroyed t ev) (c\<lparr>vc_router := r\<rparr>))"
    using dr by (cases d) (auto simp: core_dispose_def memh_dispose_def disposer_dispose_def ev_getID_def Let_def)
  then show ?thesis using s step_ok_trans [OF s step_ok_logged] by auto
qed

lemma fold_dispose_step: "step_ok f c (fold (core_dispose E) evs c)"
proof (induction evs arbitrary: c)
  case (Cons ev evs)
  show ?case using step_ok_trans [OF core_dispose_step Cons] by simp
qed simp

lemma on_handlers_step:
  assumes "live h c" "good c"
    and "(if tid = en_tid E Kill_event then on_KillEvent h c
      else if tid = en_tid E Signal_event then on_SignalEvent E h ev c
      else if tid = en_tid E Unregister_callback_event then on_UnregisterCallbackEvent h c
      else if tid = en_tid E Ping_event then on_PingEvent E h ev c
      else if tid = en_tid E Require_event then on_RequireEvent E h ev c
      else Some c) = Some c'"
  shows "step_ok f c c'"
proof -
  have d: "step_ok f c c'" if "deref_opt h g c = Some c'" "\<And>a. g a c = Some c' \<Longrightarrow> step_ok f c c'" for g
    using step_ok_deref_opt [OF assms(1) that(1)] that(2) by blast
  have "step_ok f c c'" if "on_PingEvent E h ev c = Some c'"
    using that unfolding on_PingEvent_def
    by (rule d) (auto split: if_splits dest!: core_send_unmoved intro: step_ok_unmoved)
  moreover have "step_ok f c c'" if "on_RequireEvent E h ev c = Some c'"
    using that unfolding on_RequireEvent_def by (rule d) (auto intro: step_ok_ask_deliver)
  moreover have "step_ok f c c'" if "on_UnregisterCallbackEvent h c = Some c'"
    using that unfolding on_UnregisterCallbackEvent_def by (rule d) (auto intro: step_ok_unregisterCallback_now)
  ultimately show ?thesis
    using assms(3) step_ok_actor_kill [OF assms(1)]
    by (auto simp: on_KillEvent_def on_SignalEvent_def split: if_splits)
qed

lemma actor_on_step:
  assumes l: "live h c" and g: "good c" and on: "actor_on E tid h ev c = Some (ev', c')"
  shows "step_ok (vc_fresh c) c c'"
proof (cases "map_of (vc_heap c) h")
  case None
  then show ?thesis using on step_ok_deref [OF l, of "vc_fresh c"] by (simp add: actor_on_def deref_def)
next
  case (Some a)
  let ?c = "logged (Handled h tid ev) c"
  have s: "step_ok f c ?c" for f by simp
  have lg: "live h ?c" "good ?c" using live_step [OF l g s, of "h + 1"] good_step [OF g s] by auto
  have "step_ok (vc_fresh ?c) ?c c'"
  proof (cases "en_on E tid h ev c")
    case None
    then show ?thesis using on Some on_handlers_step [OF lg] by (auto simp: actor_on_def Let_def)
  next
    case (Some acts)
    then have "run_acts E h acts ev ?c = Some (ev', c')" using on \<open>map_of (vc_heap c) h = Some a\<close> by (simp add: actor_on_def)
    from run_acts_step(2) [OF this lg(2,1)] show ?thesis .
  qed
  then show ?thesis using step_ok_seq [OF g s] by blast
qed

lemma actor_on_snap:
  assumes on: "actor_on E tid h ev c = Some (ev', c')"
  shows "vc_snap c' = vc_snap c"
proof -
  have d: "vc_snap c' = vc_snap d" if "deref_opt h g d = Some c'" "\<And>a c'. g a d = Some c' \<Longrightarrow> vc_snap c' = vc_snap d" for d g
    using deref_opt_snap [OF that] .
  have ping: "vc_snap c' = vc_snap d" if "on_PingEvent E h ev d = Some c'" for d
    using that unfolding on_PingEvent_def
    by (rule d) (auto split: if_splits dest: unmoved_snap core_send_unmoved)
  have req: "vc_snap c' = vc_snap d" if "on_RequireEvent E h ev d = Some c'" for d
    using that unfolding on_RequireEvent_def by (rule d) auto
  have unr: "vc_snap c' = vc_snap d" if "on_UnregisterCallbackEvent h d = Some c'" for d
    using that unfolding on_UnregisterCallbackEvent_def by (rule d) auto
  show ?thesis
    using on ping req unr
    by (auto simp: actor_on_def Let_def on_KillEvent_def on_SignalEvent_def split: option.splits if_splits
        dest!: run_acts_snap(2))
qed

text \<open>What the code relies on of its hash maps: a traversal visits the entries of the map.\<close>

definition iteration_ok :: "('b, 'z) user_env_scheme \<Rightarrow> bool" where
  "iteration_ok E \<longleftrightarrow> (\<forall>xs i h. (i, h) \<in> set (en_iter E xs) \<longrightarrow> map_of xs i = Some h) \<and>
     (\<forall>xs. set (en_id_iter E xs) = set xs)"

abbreviation route_policy :: "('b, 'z) user_env_scheme \<Rightarrow> ('b event, event_id, actor_id, addr, 'b core) policy" where
  "route_policy E \<equiv> core_policy E (en_iter E) (actor_on E)"

lemma route_snap_ok: "snap_ok (route_policy E)"
  unfolding snap_ok_def using actor_on_snap by (fastforce simp: core_policy_def)

lemma good_snap [simp]: "good (c\<lparr>vc_snap := s\<rparr>) = good c"
  by (simp add: good_def id_conflict_def inv_defs)

lemma live_snap [simp]: "live h (c\<lparr>vc_snap := s\<rparr>) = live h c"
  by (simp add: live_def id_conflict_def)

lemma good_lookup: "good c \<Longrightarrow> memh_lookup (vc_router c) t i = Some h \<Longrightarrow> live h c"
  unfolding good_def live_def actor_inv_def pointers_ok_def points_to_def by blast

lemma invoke_good:
  assumes "good c" "live h c" "invoke (route_policy E) t h e c = Some (e', c')"
  shows "step_ok (vc_fresh c) c c'"
proof -
  have "c' = c \<or> actor_on E t h e c = Some (e', c')"
    using assms(3) by (auto simp: invoke_def core_policy_def split: if_splits)
  then show ?thesis using actor_on_step [OF assms(2,1)] by auto
qed

lemma invoke_all_good:
  "good c \<Longrightarrow> \<forall>h \<in> set hs. live h c \<Longrightarrow> invoke_all (route_policy E) t hs e c = Some (e', c') \<Longrightarrow> good c'"
proof (induction hs arbitrary: e c)
  case (Cons h hs)
  from Cons.prems(3) obtain e1 c1 where 1: "invoke (route_policy E) t h e c = Some (e1, c1)"
    "invoke_all (route_policy E) t hs e1 c1 = Some (e', c')" by (auto split: Option.bind_splits)
  have s: "step_ok (vc_fresh c) c c1" using invoke_good [OF Cons.prems(1) _ 1(1)] Cons.prems(2) by simp
  have "\<forall>h \<in> set hs. live h c1" using live_step_fresh [OF _ Cons.prems(1) s] Cons.prems(2) by simp
  then show ?case using Cons.IH [OF good_step [OF Cons.prems(1) s] _ 1(2)] by blast
qed simp

lemma good_logged: "good c \<Longrightarrow> \<forall>h. x \<noteq> Dangling h \<Longrightarrow> good (logged x c)"
  using good_step step_ok_logged by blast

lemma policy_dispose_good: "good c \<Longrightarrow> good (policy_dispose (route_policy E) t e c)"
  by (auto simp: policy_dispose_def core_policy_def intro: good_logged)

lemma core_route_good:
  assumes g: "good c" and it: "iteration_ok E" and r: "core_route E ev c = Some (ev', c')"
  shows "good c'"
proof -
  let ?P = "route_policy E" and ?t = "ev_getID (hd ev)"
  let ?err = "\<lambda>e c. if \<not> is_broadcast (ev_getDestination (hd e)) then logged (Unroutable e) c else c"
  show ?thesis
  proof (cases "map_of (registered_events (vc_router c)) ?t")
    case None
    have "memh_dispose ?P e c = core_dispose E e c" for e and c :: "'a core"
      by (simp add: core_dispose_def memh_dispose_def disposer_dispose_def Let_def split: prod.split option.split)
    then have "c' = core_dispose E ev (?err ev c)"
      using r None by (auto simp: core_route_def memh_route_def core_policy_def)
    moreover have "good (?err ev c)" using g good_logged by auto
    ultimately show ?thesis using good_step [OF _ core_dispose_step] by blast
  next
    case (Some subs)
    then have rt: "semh_route ?P ?t True subs ev c = Some (ev', c')"
      using r by (simp add: core_route_def memh_route_def core_policy_def)
    have lk: "live h c" if "map_of subs i = Some h" for i h
      using good_lookup [OF g, of ?t i h] Some that by (simp add: memh_lookup_def)
    show ?thesis
    proof (cases "pol_broadcast ?P (pol_dest ?P ev)")
      case True
      let ?hs = "map snd (pol_iter ?P subs)" and ?c = "pol_set_snap ?P ?t (pol_snap ?P ?t c @ map snd (pol_iter ?P subs)) c"
      obtain e1 c1 where 1: "invoke_all ?P ?t ?hs ev ?c = Some (e1, c1)"
        "c' = policy_dispose ?P ?t e1 (pol_set_snap ?P ?t (pol_snap ?P ?t c) c1)"
        using rt unfolding semh_route_broadcast [OF route_snap_ok True refl] by (auto simp: Let_def split: option.splits)
      have "\<forall>h \<in> set ?hs. live h ?c" using lk it by (fastforce simp: iteration_ok_def core_policy_def)
      moreover have "good ?c" using g by (simp add: core_policy_def)
      ultimately have "good c1" using invoke_all_good 1(1) by blast
      then have "good (pol_set_snap ?P ?t (pol_snap ?P ?t c) c1)" by (simp add: core_policy_def)
      then show ?thesis using policy_dispose_good 1(2) by blast
    next
      case False
      then obtain e1 c1 where 1: "(case map_of subs (pol_dest ?P ev) of Some h \<Rightarrow> invoke ?P ?t h ev c | None \<Rightarrow> Some (ev, c)) = Some (e1, c1)"
        "c' = policy_dispose ?P ?t e1 c1"
        using rt by (auto simp: semh_route_def split: Option.bind_splits)
      have "good c1"
      proof (cases "map_of subs (pol_dest ?P ev)")
        case (Some h)
        then have "invoke ?P ?t h ev c = Some (e1, c1)" using 1(1) by simp
        then show ?thesis using good_step [OF g invoke_good [OF g lk [OF Some]]] by blast
      qed (use 1(1) g in simp)
      then show ?thesis using policy_dispose_good 1(2) by blast
    qed
  qed
qed

section \<open>The loop keeps the invariant\<close>

lemma step_ok_activation:
  assumes "map_of (vc_activating c) i = Some act0" "act_owner act = act_owner act0"
  shows "step_ok f c (set_activation i act c)"
proof -
  have "step_ok f c (c\<lparr>vc_actors := vc_actors c, vc_activating := AList.update i act (vc_activating c), vc_dying := vc_dying c\<rparr>)"
    by (rule step_ok_shrink) (use assms in \<open>auto simp: update_conv' split: if_splits\<close>)
  then show ?thesis by (simp add: set_activation_def)
qed

lemma ask_try_deliver_step: "step_ok f c (snd (ask_try_deliver_reply E ev dest c))"
  by (auto simp: ask_try_deliver_reply_def intro: step_ok_ask_deliver)

lemma stash_event_step: "step_ok f c (snd (stash_event dest ev c))"
  by (auto simp: stash_event_def split: option.splits
      intro!: step_ok_activation step_ok_trans [OF step_ok_activation step_ok_logged])

lemma receive_gated_step: "step_ok f c (receive_gated E ev c)"
proof -
  obtain r c1 where 1: "ask_try_deliver_reply E ev (ev_getDestination (hd ev)) c = (r, c1)" by fastforce
  obtain t c2 where 2: "stash_event (ev_getDestination (hd ev)) ev c1 = (t, c2)" by fastforce
  have s1: "step_ok f c c1" using ask_try_deliver_step [of f c E ev "ev_getDestination (hd ev)"] 1 by simp
  have s2: "step_ok f c1 c2" using stash_event_step [of f c1 "ev_getDestination (hd ev)" ev] 2 by simp
  show ?thesis
    using step_ok_trans [OF s1 core_dispose_step [of f c1 E ev]] step_ok_trans [OF s1 s2]
      step_ok_trans [OF step_ok_trans [OF s1 s2] core_dispose_step [of f c2 E ev]]
    by (simp add: receive_gated_def 1 2)
qed

lemma receive_event_good:
  assumes "good c" "iteration_ok E" "receive_event E ev c = Some c'"
  shows "good c'"
proof (cases "gated E ev c")
  case True
  then have "c' = count_received ev (receive_gated E ev c)" using assms(3) by (simp add: receive_event_def)
  then show ?thesis using good_step [OF assms(1) step_ok_trans [OF receive_gated_step step_ok_metrics(3)]] by simp
next
  case False
  then obtain ev1 c1 where "core_route E (on_head (set_alive False) ev) c = Some (ev1, c1)" "c' = count_received ev1 c1"
    using assms(3) by (auto simp: receive_event_def split: Option.bind_splits)
  then show ?thesis using core_route_good [OF assms(1,2)] good_step [OF _ step_ok_metrics(3)] by blast
qed

lemma receive_events_good: "good c \<Longrightarrow> iteration_ok E \<Longrightarrow> receive_events E bs c = Some c' \<Longrightarrow> good c'"
proof (induction E bs c rule: receive_events.induct)
  case (1 E events c)
  let ?n = "unat (bucket_size (hd events))"
  consider "events = []" | "events \<noteq> []" "?n = 0" | c1 where "events \<noteq> []" "?n \<noteq> 0" "receive_event E (take ?n events) c = Some c1"
      "receive_events E (drop ?n events) c1 = Some c'"
    using 1(4) by (subst (asm) receive_events.simps) (auto simp: Let_def split: if_splits option.splits)
  then show ?case
  proof cases
    case 1
    then show ?thesis using \<open>receive_events E events c = Some c'\<close> \<open>good c\<close> by (simp add: receive_events.simps)
  next
    case 2
    then have "c' = logged (Zero_width events) c"
      using \<open>receive_events E events c = Some c'\<close> by (subst (asm) receive_events.simps) simp
    then show ?thesis using good_logged [OF \<open>good c\<close>] by simp
  next
    case 3
    have "good c1" using receive_event_good [OF 1(2,3) 3(3)] .
    then show ?thesis using 1(1) [OF 3(1) refl 3(2,3)] 1(3) 3(4) by blast
  qed
qed

lemma step_ok_transport [simp]:
  "step_ok f c (c\<lparr>vc_engine := eng, vc_tick := n, vc_event_buffer := buf\<rparr>)" "step_ok f c (c\<lparr>vc_mono := m\<rparr>)"
  "step_ok f c (c\<lparr>vc_metrics := m', vc_loop_count := k\<rparr>)" "step_ok f c (c\<lparr>vc_last_generation := g\<rparr>)"
  "step_ok f c (c\<lparr>vc_stop_delivered := b\<rparr>)"
  by (rule step_okI [of _ _ "[]"]; simp add: inv_defs extends_def)+

lemma receive_producers_good: "good c \<Longrightarrow> iteration_ok E \<Longrightarrow> receive_producers E i n c = Some c' \<Longrightarrow> good c'"
proof (induction n arbitrary: i c)
  case (Suc n)
  let ?eng = "en_peers E (vc_tick c) (vc_engine c)"
  from Suc.prems(3) obtain mb k buf p where q: "engine_mailbox (vc_resolved c) ?eng = Some mb" "i < length (mb_producers mb)"
      "producer_dequeue MaxRingEvents (vc_event_buffer c) 0 MaxRingEvents (mb_producers mb ! i) = Some (k, buf, p)"
    by (auto simp: Let_def split: Option.bind_splits if_splits)
  define c1 where "c1 = c\<lparr>vc_engine := set_mailbox (vc_resolved c) (mb\<lparr>mb_producers := (mb_producers mb)[i := p]\<rparr>) ?eng,
    vc_tick := vc_tick c + 1, vc_event_buffer := buf\<rparr>"
  from Suc.prems(3) q obtain c2 where c2: "(if k \<noteq> 0 then receive_events E (take k buf) c1 else Some c1) = Some c2"
      "receive_producers E (i + 1) n c2 = Some c'"
    unfolding c1_def by (auto simp: Let_def simp del: One_nat_def split: Option.bind_splits)
  have "good c1" using good_step [OF Suc.prems(1) step_ok_transport(1)] unfolding c1_def .
  then have "good c2" using receive_events_good [OF _ Suc.prems(2)] c2(1) by (auto split: if_splits)
  then show ?case using Suc.IH [OF _ Suc.prems(2) c2(2)] by blast
qed simp

lemma core_receive_good:
  assumes "good c" "iteration_ok E" "core_receive E c = Some c'"
  shows "good c'"
proof -
  obtain m p where sw: "pipe_swap (vc_mono c) (vc_pipes c ! vc_resolved c) = (m, p)" by fastforce
  obtain bs c2 n where c2: "receive_events E bs (set_pipe (vc_resolved c) p (c\<lparr>vc_mono := m\<rparr>)) = Some c2"
      "receive_producers E 0 n (c2\<lparr>vc_mono := pipe_reset (vc_mono c2)\<rparr>) = Some c'"
    using assms(3) by (auto simp: core_receive_def sw Let_def split: if_splits Option.bind_splits)
  have "good (set_pipe (vc_resolved c) p (c\<lparr>vc_mono := m\<rparr>))"
    using good_step [OF assms(1) step_ok_trans [OF step_ok_transport(2) step_ok_unmoved]] by (metis unmoved_steps(6))
  then have "good c2" using receive_events_good assms(2) c2(1) by blast
  then have "good (c2\<lparr>vc_mono := pipe_reset (vc_mono c2)\<rparr>)" using good_step step_ok_transport(2) by blast
  then show ?thesis using receive_producers_good assms(2) c2(2) by blast
qed

text \<open>Flushing and draining: transport, the log, the metrics and the router's memo.\<close>

lemma core_try_send_step: "core_try_send E ev c = Some (ok, c') \<Longrightarrow> step_ok f c c'"
  using step_ok_unmoved core_try_send_unmoved by blast

lemma backoff_step: "backoff E n ev c = Some (ok, c') \<Longrightarrow> step_ok f c c'"
proof (induction n arbitrary: c)
  case (Suc n)
  from Suc.prems obtain b c1 where 1: "core_try_send E ev (count_try c) = Some (b, c1)"
    "if b then c' = c1 else backoff E n ev c1 = Some (ok, c')" by (auto split: Option.bind_splits if_splits)
  have s: "step_ok f c c1" using step_ok_trans [OF step_ok_metrics(1) core_try_send_step [OF 1(1)]] .
  show ?case
  proof (cases b)
    case False
    then show ?thesis using step_ok_trans [OF s Suc.IH] 1(2) by simp
  qed (use 1(2) s in simp)
qed simp

lemma flush_walk_step: "flush_walk E cur bs c = Some (x, c') \<Longrightarrow> step_ok f c c'"
proof (induction "length bs" arbitrary: cur bs c rule: less_induct)
  case (less bs cur c)
  let ?n = "unat (bucket_size (hd bs))" and ?ev = "take (max (unat (bucket_size (hd bs))) 1) bs"
  note w = flush_walk.simps [of E cur bs c, unfolded less.prems]
  show ?case
  proof (cases "bs = []")
    case True
    then show ?thesis using w by simp
  next
    case False
    then obtain ok c1 where 2: "core_try_send E ?ev (count_try c) = Some (ok, c1)"
      using w by (auto simp: Let_def split: option.splits prod.splits)
    have s: "step_ok f c c1" using step_ok_trans [OF step_ok_metrics(1) core_try_send_step [OF 2]] .
    have l: "step_ok f c (logged x (count_sent ?ev d))" if "step_ok f c d" "\<forall>h. x \<noteq> Dangling h" for x d
      using step_ok_trans [OF step_ok_trans [OF that(1) step_ok_metrics(2)] step_ok_logged [OF that(2)]] .
    have o: "step_ok f c (count_sent ?ev (core_dispose E ?ev (logged (Oversize ?ev) c1)))"
      by (rule step_ok_trans [OF step_ok_trans [OF step_ok_trans [OF s step_ok_logged] core_dispose_step] step_ok_metrics(2)]) simp
    show ?thesis
    proof (cases "?n = 0")
      case True
      then show ?thesis
        using w False 2 step_ok_trans [OF s step_ok_logged, of "Zero_width bs"]
        by (auto simp: Let_def split: if_splits)
    next
      case n: False
      then have lt: "length (drop ?n bs) < length bs" using False by simp
      note IH = less.hyps [OF lt]
      consider "ok" "flush_walk E (cur + ?n) (drop ?n bs) (logged (Sent ?ev) (count_sent ?ev c1)) = Some (x, c')"
        | "\<not> ok" "?n > kMaxDeliverableBuckets"
          "flush_walk E (cur + ?n) (drop ?n bs) (count_sent ?ev (core_dispose E ?ev (logged (Oversize ?ev) c1))) = Some (x, c')"
        | "\<not> ok" "\<not> ?n > kMaxDeliverableBuckets" "ev_getQOS (hd ?ev) = 0"
          "flush_walk E (cur + ?n) (drop ?n bs) (logged (Best_effort_drop ?ev) (count_sent ?ev c1)) = Some (x, c')"
        | sent c2 where "\<not> ok" "\<not> ?n > kMaxDeliverableBuckets" "ev_getQOS (hd ?ev) \<noteq> 0"
          "backoff E kFlushYieldAttempts ?ev c1 = Some (sent, c2)"
          "if sent then flush_walk E (cur + ?n) (drop ?n bs) (logged (Sent ?ev) (count_sent ?ev c2)) = Some (x, c')
           else unmoved c' = unmoved c2"
        using w False 2 n by (auto simp: Let_def split: if_splits option.splits Option.bind_splits)
      then show ?thesis
      proof cases
        case 1
        show ?thesis by (rule step_ok_trans [OF l [OF s] IH [OF 1(2)]]) simp
      next
        case 2
        show ?thesis by (rule step_ok_trans [OF o IH [OF 2(3)]])
      next
        case 3
        show ?thesis by (rule step_ok_trans [OF l [OF s] IH [OF 3(4)]]) simp
      next
        case 4
        have s2: "step_ok f c c2" using step_ok_trans [OF s backoff_step [OF 4(4)]] .
        show ?thesis
        proof (cases sent)
          case True
          then have t: "flush_walk E (cur + ?n) (drop ?n bs) (logged (Sent ?ev) (count_sent ?ev c2)) = Some (x, c')"
            using 4(5) by simp
          show ?thesis by (rule step_ok_trans [OF l [OF s2] IH [OF t]]) simp
        next
          case False
          then show ?thesis using step_ok_trans [OF s2 step_ok_unmoved] 4(5) by simp
        qed
      qed
    qed
  qed
qed

lemma flush_pipes_step: "flush_pipes E i n w c = Some (w', c') \<Longrightarrow> step_ok f c c'"
proof (induction n arbitrary: i w c)
  case (Suc n)
  let ?p = "vc_pipes c ! i"
  show ?case
  proof (cases "i = vc_resolved c \<or> pipe_size ?p = 0")
    case True
    then show ?thesis using Suc.prems Suc.IH [of "i + 1" w c] by (simp add: Let_def)
  next
    case False
    with Suc.prems obtain bs x c1 p where 1: "flush_walk E (p_begin ?p) bs c = Some (x, c1)"
      "flush_pipes E (i + 1) n True (set_pipe i p c1) = Some (w', c')"
      by (auto simp: Let_def split: Option.bind_splits)
    have "step_ok f c1 (set_pipe i p c1)" by (rule step_ok_unmoved) simp
    then show ?thesis
      using step_ok_trans [OF step_ok_trans [OF flush_walk_step [OF 1(1)]] Suc.IH [OF 1(2)]] by blast
  qed
qed simp

lemma flush_all_step: "flush_all E c = Some (w, c') \<Longrightarrow> step_ok f c c'"
  by (simp add: flush_all_def flush_pipes_step)

lemma residual_pipes_step: "dispose_residual_pipes E i n w c = Some (w', c') \<Longrightarrow> step_ok f c c'"
proof (induction n arbitrary: i w c)
  case (Suc n)
  let ?p = "vc_pipes c ! i"
  show ?case
  proof (cases "i = vc_resolved c \<or> pipe_size ?p = 0")
    case True
    then show ?thesis using Suc.prems Suc.IH [of "i + 1" w c] by (simp add: Let_def)
  next
    case False
    with Suc.prems obtain stopped where st: "is_core_stopped i (vc_engine c) = Some stopped"
      by (auto simp: Let_def split: Option.bind_splits)
    show ?thesis
    proof (cases stopped)
      case False
      then show ?thesis using Suc.prems st \<open>\<not> (i = vc_resolved c \<or> pipe_size ?p = 0)\<close> Suc.IH [of "i + 1" True c] by (simp add: Let_def)
    next
      case True
      with Suc.prems st False obtain bs where 1: "dispose_residual_pipes E (i + 1) n w
          (set_pipe i (pipe_reset ?p) (dispose_walk (core_dispose E) bs c)) = Some (w', c')"
        by (auto simp: Let_def split: Option.bind_splits)
      let ?c1 = "dispose_walk (core_dispose E) bs c"
      have s: "step_ok f c ?c1" by (simp add: dispose_walk_events_of fold_dispose_step)
      have "step_ok f ?c1 (set_pipe i (pipe_reset ?p) ?c1)" by (rule step_ok_unmoved) simp
      then show ?thesis using step_ok_trans [OF step_ok_trans [OF s] Suc.IH [OF 1]] by blast
    qed
  qed
qed simp

lemma residual_step: "dispose_residual_to_stopped_cores E c = Some (w, c') \<Longrightarrow> step_ok f c c'"
  by (simp add: dispose_residual_to_stopped_cores_def residual_pipes_step)

section \<open>Initialisation, callbacks and reaping\<close>

lemma good_actor: "good c \<Longrightarrow> map_of (vc_actors c) i = Some h \<Longrightarrow> live h c"
  unfolding good_def live_def actor_inv_def pointers_ok_def points_to_def by blast

lemma good_owner: "good c \<Longrightarrow> map_of (vc_activating c) i = Some act \<Longrightarrow> live (act_owner act) c"
  unfolding good_def live_def actor_inv_def pointers_ok_def points_to_def by blast

lemma deref_same_id_step:
  "live h c \<Longrightarrow> (\<And>a. ac_id (g a) = ac_id a) \<Longrightarrow> step_ok f c (deref h (\<lambda>a. set_actor h (g a)) c)"
  by (rule step_ok_deref) (auto intro: step_ok_set_actor)

lemma cancel_step: "live h c \<Longrightarrow> step_ok f c (deref h (\<lambda>a. set_actor h (cancel_coro_scope a)) c)"
  by (erule deref_same_id_step) (simp add: cancel_coro_scope_def)

lemma pump_scan_good: "good c \<Longrightarrow> pump_scan E now is c = (ids, c') \<Longrightarrow> good c'"
proof (induction "is" arbitrary: c ids)
  case (Cons i "is")
  show ?case
  proof (cases "map_of (vc_activating c) i")
    case None
    then show ?thesis using Cons by simp
  next
    case (Some act)
    let ?c1 = "set_activation i (act\<lparr>act_cancelling := True\<rparr>) c"
    let ?c2 = "case map_of (vc_actors ?c1) i of None \<Rightarrow> ?c1 | Some h \<Rightarrow> deref h (\<lambda>a. set_actor h (cancel_coro_scope a)) ?c1"
    have g1: "good ?c1" by (rule good_step [OF Cons.prems(1) step_ok_activation [OF Some]]) simp
    then have "good ?c2" by (auto split: option.split intro: good_step [OF g1 cancel_step] dest: good_actor)
    then show ?thesis
      using Cons Some by (auto simp: Let_def split: if_splits prod.splits)
  qed
qed simp

lemma replay_good: "good c \<Longrightarrow> iteration_ok E \<Longrightarrow> replay E evs c = Some c' \<Longrightarrow> good c'"
  by (induction evs arbitrary: c) (auto split: Option.bind_splits dest: core_route_good)

lemma end_activation_step:
  "step_ok f c (c\<lparr>vc_activating := AList.delete i (vc_activating c), vc_dying := ds\<rparr>)"
proof -
  have "step_ok f c (c\<lparr>vc_actors := vc_actors c, vc_activating := AList.delete i (vc_activating c), vc_dying := ds\<rparr>)"
    by (rule step_ok_shrink) (auto simp: delete_conv' split: if_splits)
  then show ?thesis by simp
qed

lemma finish_activation_good:
  assumes g: "good c" and it: "iteration_ok E" and r: "finish_activation E i c = Some c'"
  shows "good c'"
proof (cases "map_of (vc_activating c) i")
  case (Some act)
  let ?c1 = "c\<lparr>vc_activating := AList.delete i (vc_activating c), vc_dying := removeAll i (vc_dying c)\<rparr>"
  have g1: "good ?c1" using good_step [OF g end_activation_step] .
  let ?c2 = "fold (core_dispose E) (act_stash act) ?c1"
  have g2: "good ?c2" using good_step [OF g1 fold_dispose_step] .
  note f = r [unfolded finish_activation_def Some option.case Let_def]
  show ?thesis
  proof (cases "map_of (vc_actors ?c1) i")
    case None
    then show ?thesis using f g2 by simp
  next
    case h: (Some h)
    show ?thesis
    proof (cases "List.member (vc_dying c) i \<or> act_init act \<noteq> Returned_bool True")
      case True
      then have r2: "removeActor E i ?c2 = Some c'" using f h by simp
      show ?thesis by (rule good_step [OF g2 removeActor_step [OF g2 r2, of 0]]) simp
    next
      case False
      then have r2: "replay E (act_stash act) (deref h (\<lambda>a. set_actor h (a\<lparr>ac_activated := True\<rparr>)) ?c1) = Some c'"
        using f h by simp
      have "good (deref h (\<lambda>a. set_actor h (a\<lparr>ac_activated := True\<rparr>)) ?c1)"
        by (rule good_step [OF g1 deref_same_id_step [OF good_actor [OF g1 h], of _ 0]]) simp
      then show ?thesis using replay_good it r2 by blast
    qed
  qed
qed (use g r in \<open>simp add: finish_activation_def\<close>)

lemma pump_done_good: "good c \<Longrightarrow> iteration_ok E \<Longrightarrow> pump_done E is c = Some c' \<Longrightarrow> good c'"
  by (induction "is" arbitrary: c) (auto split: Option.bind_splits dest: finish_activation_good)

lemma pump_activations_good: "good c \<Longrightarrow> iteration_ok E \<Longrightarrow> pump_activations E c = Some c' \<Longrightarrow> good c'"
  by (auto simp: pump_activations_def split: if_splits prod.splits dest: pump_scan_good pump_done_good)

lemma run_callbacks_good:
  "good c \<Longrightarrow> \<forall>(h, i) \<in> set es. live h c \<Longrightarrow> run_callbacks E es c = Some c' \<Longrightarrow> good c'"
proof (induction es arbitrary: c)
  case (Cons e es)
  obtain h i where e: "e = (h, i)" by fastforce
  note 2 = Cons.IH Cons.prems [unfolded e]
  from 2(4) obtain c1 where c1: "run_callbacks E es c1 = Some c'"
    "c1 = c \<or> deref_opt h (\<lambda>a c. map_option snd (run_acts E h (en_tick E h c) [] (logged (Ticked h) c))) c = Some c1"
    by (auto split: Option.bind_splits if_splits)
  have l: "live h c" using 2(3) by simp
  have s: "step_ok (vc_fresh c) c c1"
    if d: "deref_opt h (\<lambda>a c. map_option snd (run_acts E h (en_tick E h c) [] (logged (Ticked h) c))) c = Some c1"
  proof (rule step_ok_deref_opt [OF l d])
    assume "map_option snd (run_acts E h (en_tick E h c) [] (logged (Ticked h) c)) = Some c1"
    then obtain ev where r: "run_acts E h (en_tick E h c) [] (logged (Ticked h) c) = Some (ev, c1)" by auto
    have t: "step_ok (vc_fresh c) c (logged (Ticked h) c)" by simp
    have "vc_fresh (logged (Ticked h) c) = vc_fresh c" by (simp add: logged_def)
    then show "step_ok (vc_fresh c) c c1"
      using step_ok_trans [OF t] run_acts_step(2) [OF r good_step [OF 2(2) t] live_step_fresh [OF l 2(2) t]] by simp
  qed
  then have s: "step_ok (vc_fresh c) c c1" using c1(2) by auto
  have "\<forall>(h, i) \<in> set es. live h c1" using 2(3) live_step_fresh [OF _ 2(2) s] by auto
  then show ?case using 2(1) [OF good_step [OF 2(2) s] _ c1(1)] by blast
qed simp

lemma remove_batch_good: "good c \<Longrightarrow> remove_batch E is c = Some c' \<Longrightarrow> good c'"
proof (induction "is" arbitrary: c)
  case (Cons i "is")
  from Cons.prems(2) obtain c1 where c1: "removeActor E i c = Some c1" "remove_batch E is c1 = Some c'"
    by (auto split: Option.bind_splits)
  have "good c1" by (rule good_step [OF Cons.prems(1) removeActor_step [OF Cons.prems(1) c1(1), of 0]]) simp
  then show ?case using Cons.IH c1(2) by blast
qed simp

lemma reap_good: "good c \<Longrightarrow> reap E c = Some c' \<Longrightarrow> good c'"
proof (induction E c rule: reap.induct)
  case (1 E c)
  note w = reap.simps [of E c, unfolded 1(3)]
  show ?case
  proof (cases "vc_to_remove c = []")
    case False
    then obtain c1 where c1: "remove_batch E (en_id_iter E (vc_to_remove c)) (c\<lparr>vc_to_remove := []\<rparr>) = Some c1" "reap E c1 = Some c'"
      using w by (auto split: option.splits)
    have "good c1" using remove_batch_good [OF good_step [OF 1(2) step_ok_fields(1)] c1(1)] .
    then show ?thesis using 1(1) [OF False c1(1)] c1(2) by blast
  qed (use w 1(2) in simp)
qed

lemma callback_points: "actor_inv c \<Longrightarrow> (h, i) \<in> set (vc_callback_list c) \<Longrightarrow> points_to c i h"
proof -
  assume g: "actor_inv c" and m: "(h, i) \<in> set (vc_callback_list c)"
  have "set (map prod.swap (vc_callback_list c)) = set (vc_callbacks c)"
    using g mset_eq_setD unfolding actor_inv_def tables_ok_def by blast
  then have "(i, h) \<in> set (vc_callbacks c)" using m by force
  then have "map_of (vc_callbacks c) i = Some h" using g by (simp add: actor_inv_def tables_ok_def)
  then show ?thesis using g by (simp add: actor_inv_def pointers_ok_def)
qed

lemma callback_live: "good c \<Longrightarrow> (h, i) \<in> set (vc_callback_list c) \<Longrightarrow> live h c"
  using callback_points unfolding good_def live_def points_to_def by blast

lemma end_of_pass_step: "end_of_pass c = Some c' \<Longrightarrow> step_ok f c c'"
  by (auto simp: end_of_pass_def Let_def simp del: split_paired_All split: Option.bind_splits)

lemma callbacks_and_reap_good:
  assumes g: "good c" and r: "callbacks_and_reap E c = Some (b, c')"
  shows "good c'"
proof -
  obtain c1 where c1: "(if vc_to_remove c \<noteq> [] then Some c else run_callbacks E (vc_callback_list c) c) = Some c1"
    using r by (auto simp: callbacks_and_reap_def split: Option.bind_splits)
  have "\<forall>(h, i) \<in> set (vc_callback_list c). live h c" using callback_live [OF g] by blast
  then have g1: "good c1" using c1 g run_callbacks_good [OF g] by (simp split: if_splits)
  show ?thesis
  proof (cases "vc_to_remove c1 = []")
    case True
    then have "end_of_pass c1 = Some c'" using r c1 by (auto simp: callbacks_and_reap_def split: Option.bind_splits)
    then show ?thesis using good_step [OF g1 end_of_pass_step] by blast
  next
    case False
    then obtain c2 where c2: "reap E c1 = Some c2" "c' = c2 \<or> end_of_pass c2 = Some c'"
      using r c1 by (auto simp: callbacks_and_reap_def split: Option.bind_splits if_splits)
    have "good c2" using reap_good [OF g1 c2(1)] .
    then show ?thesis using c2(2) good_step [OF _ end_of_pass_step] by blast
  qed
qed

section \<open>The loop\<close>

lemma poll_signal_good:
  assumes g: "good c" and r: "poll_signal E c = Some c'"
  shows "good c'"
proof -
  let ?c1 = "c\<lparr>vc_last_generation := en_generation E c\<rparr>"
  have "c' = c \<or> (\<exists>ev d. d \<in> {c, ?c1, c\<lparr>vc_stop_delivered := True\<rparr>, ?c1\<lparr>vc_stop_delivered := True\<rparr>} \<and> core_recycle E ev d = Some c')"
    using r unfolding poll_signal_def Let_def by (simp split: if_splits) blast+
  then show ?thesis
    using g good_step [OF g step_ok_transport(4)] good_step [OF g step_ok_transport(5)]
      good_step [OF good_step [OF g step_ok_transport(4)] step_ok_transport(5)]
      good_step [OF _ step_ok_unmoved [OF core_recycle_unmoved]] by blast
qed

lemma run_io_good: "good c \<Longrightarrow> run_io E ios c = Some c' \<Longrightarrow> good c'"
proof (induction ios arbitrary: c)
  case (Cons io ios)
  show ?case
  proof (cases io)
    case (Io_acts h acts)
    show ?thesis
    proof (cases "map_of (vc_heap c) h")
      case None
      then show ?thesis using Cons Io_acts by simp
    next
      case (Some a)
      then obtain ev c1 where r: "run_acts E h acts [] c = Some (ev, c1)" "run_io E ios c1 = Some c'"
        using Cons.prems(2) Io_acts by (auto split: Option.bind_splits)
      have "live h c" using Some by (simp add: live_def)
      then show ?thesis using Cons.IH [OF good_step [OF Cons.prems(1) run_acts_step(2) [OF r(1) Cons.prems(1)]] r(2)] by simp
    qed
  next
    case (Io_resume i acts st)
    show ?thesis
    proof (cases "\<exists>act. map_of (vc_activating c) i = Some act \<and> act_init act = Suspended")
      case False
      then show ?thesis using Cons Io_resume by (auto split: option.splits)
    next
      case True
      then obtain act c1 where a: "map_of (vc_activating c) i = Some act"
        "deref_opt (act_owner act) (\<lambda>a c. map_option snd (run_acts E (act_owner act) acts [] c)) c = Some c1"
        "run_io E ios (case map_of (vc_activating c1) i of None \<Rightarrow> c1 | Some act1 \<Rightarrow> set_activation i (act1\<lparr>act_init := st\<rparr>) c1) = Some c'"
        using Cons.prems(2) Io_resume by (auto split: Option.bind_splits option.splits)
      have l: "live (act_owner act) c" using good_owner [OF Cons.prems(1) a(1)] .
      have "step_ok (vc_fresh c) c c1"
        by (rule step_ok_deref_opt [OF l a(2)]) (use run_acts_step(2) [OF _ Cons.prems(1) l] in auto)
      then have g1: "good c1" by (rule good_step [OF Cons.prems(1)])
      have "good (case map_of (vc_activating c1) i of None \<Rightarrow> c1 | Some act1 \<Rightarrow> set_activation i (act1\<lparr>act_init := st\<rparr>) c1)"
        using g1 by (auto split: option.split intro!: good_step [OF g1 step_ok_activation])
      then show ?thesis using Cons.IH a(3) by blast
    qed
  qed
qed simp

lemma run_listener_good: "good c \<Longrightarrow> run_listener E c = Some c' \<Longrightarrow> good c'"
  by (auto simp: run_listener_def split: if_splits Option.bind_splits intro: good_step [OF run_io_good step_ok_fields(6)])

lemma workflow_pass_good:
  assumes g: "good c" and it: "iteration_ok E" and r: "workflow_pass E c = Some (b, c')"
  shows "good c'"
proof -
  let ?c1 = "c\<lparr>vc_metrics := (vc_metrics c)\<lparr>m_nanotimer := en_now E c\<rparr>, vc_loop_count := vc_loop_count c + 1\<rparr>"
  have g1: "good ?c1" using good_step [OF g step_ok_transport(3)] .
  obtain c2 c3 where c3: "poll_signal E ?c1 = Some c2" "run_listener E c2 = Some c3"
    using r by (auto simp: workflow_pass_def Let_def split: Option.bind_splits)
  then have g3: "good c3" using run_listener_good poll_signal_good [OF g1] by blast
  obtain stop c4 where c4: "(if vc_activating c3 \<noteq> [] then do { d \<leftarrow> pump_activations E c3; Some (vc_actors d = [], d) }
      else Some (False, c3)) = Some (stop, c4)"
    using r c3 by (auto simp: workflow_pass_def Let_def simp del: if_split split: Option.bind_splits)
  then have g4: "good c4" using g3 pump_activations_good [OF g3 it] by (auto split: if_splits Option.bind_splits)
  show ?thesis
  proof (cases stop)
    case True
    then show ?thesis using r c3 c4 g4 by (simp add: workflow_pass_def Let_def del: if_split)
  next
    case False
    then obtain w c5 c6 where c6: "flush_all E c4 = Some (w, c5)" "core_receive E c5 = Some c6" "callbacks_and_reap E c6 = Some (b, c')"
      using r c3 c4 by (auto simp: workflow_pass_def Let_def simp del: if_split split: Option.bind_splits)
    show ?thesis
      using callbacks_and_reap_good [OF core_receive_good [OF good_step [OF g4 flush_all_step [OF c6(1)]] it c6(2)] c6(3)] .
  qed
qed

lemma workflow_loop_good: "good c \<Longrightarrow> iteration_ok E \<Longrightarrow> workflow_loop E n c = Some (b, c') \<Longrightarrow> good c'"
proof (induction n arbitrary: c)
  case (Suc n)
  from Suc.prems(3) obtain stop c1 where c1: "workflow_pass E c = Some (stop, c1)"
    "if stop then c' = c1 else workflow_loop E n c1 = Some (b, c')" by (auto split: Option.bind_splits if_splits)
  then show ?case using Suc.IH workflow_pass_good [OF Suc.prems(1,2) c1(1)] Suc.prems(2) by (auto split: if_splits)
qed simp

lemma shutdown_loop_good: "good c \<Longrightarrow> iteration_ok E \<Longrightarrow> shutdown_loop E n c = Some (b, c') \<Longrightarrow> good c'"
proof (induction n arbitrary: c)
  case (Suc n)
  from Suc.prems(3) obtain c1 w c2 where c2: "core_receive E c = Some c1" "flush_all E c1 = Some (w, c2)"
    by (auto split: Option.bind_splits)
  have g2: "good c2" using good_step [OF core_receive_good [OF Suc.prems(1,2) c2(1)] flush_all_step [OF c2(2)]] .
  show ?case
  proof (cases w)
    case True
    with Suc.prems(3) c2 obtain any c3 where c3: "dispose_residual_to_stopped_cores E c2 = Some (any, c3)"
      by (auto split: Option.bind_splits)
    have g3: "good c3" using good_step [OF g2 residual_step [OF c3(1)]] .
    show ?thesis using Suc.prems(3) c2 c3 True g3 Suc.IH [OF g3 Suc.prems(2)] by (simp split: if_splits)
  qed (use Suc.prems(3) c2 g2 in simp)
qed simp

lemma workflow_good:
  assumes g: "good c" and it: "iteration_ok E" and r: "workflow E n m c = Some (b, c')"
  shows "good c'"
proof -
  obtain left c1 where c1: "workflow_loop E n c = Some (left, c1)" using r by (auto simp: workflow_def split: Option.bind_splits)
  have g1: "good c1" using workflow_loop_good [OF g it c1] .
  show ?thesis
  proof (cases left)
    case False
    then show ?thesis using r c1 g1 by (simp add: workflow_def)
  next
    case True
    then obtain drained c2 where c2: "shutdown_loop E m c1 = Some (drained, c2)"
      "unmoved c' = unmoved c2"
      using r c1 by (auto simp: workflow_def split: Option.bind_splits if_splits)
    have g2: "good c2" using shutdown_loop_good [OF g1 it c2(1)] .
    show ?thesis using good_step [OF g2 step_ok_unmoved [OF c2(2)]] .
  qed
qed

end
