(* ===== verification/Core_Start.thy ===== *)
theory Core_Start
  imports Core_Safety
begin

text \<open>
  The life of a virtual core from its construction on (\<open>core/VirtualCore.cpp\<close>, constructor, and
  \<open>core/Main.cpp\<close>, \<open>Main::start_thread\<close>), and what an engine is told before it starts
  (\<open>CoreInitializer\<close> of \<open>core/Main.h\<close> and \<open>core/Main.cpp\<close>): which actors a core creates. The thread
  affinity is up to the operating system; that \<open>__init__\<close> reports success is an argument.

  \<open>started_core_pointers_safe\<close> is the conclusion of the actor bookkeeping: whatever the actors of a
  core do, the core follows no pointer to a destroyed actor, as long as every actor was constructed
  with an id of its own. \<open>promised_ids_kept\<close> relates the ids that \<open>addActor\<close> returns before the start
  to those that the actors get from the pool of the core.
\<close>

section \<open>Construction\<close>

definition metrics_new :: "64 word \<Rightarrow> metrics" where
  "metrics_new now = \<lparr>m_spin_credit = 0, m_event_io = 0, m_event_received = 0, m_bucket_received = 0, m_event_sent_try = 0,
     m_event_sent = 0, m_bucket_sent = 0, m_nanotimer = now\<rparr>"

text \<open>
  \<open>block\<close> is what freshly allocated pipe memory holds and \<open>buffer\<close> the content of the new event buffer;
  \<open>nb_service\<close>, \<open>disposers\<close> and \<open>asked\<close> are the process-wide number of services, disposer registry and
  the thread's ask counter, and \<open>now\<close> the wall clock.
\<close>

definition VirtualCore ::
  "'b bucket list \<Rightarrow> 'b bucket list \<Rightarrow> service_id \<Rightarrow> event_id list \<Rightarrow> 64 word \<Rightarrow> 64 word \<Rightarrow> core_id \<Rightarrow> 'b engine \<Rightarrow> 'b core" where
  "VirtualCore block buffer nb_service disposers asked now index eng =
     \<lparr>vc_index = index, vc_resolved = unat (resolve (eng_core_set eng) (unat index)), vc_engine = eng,
      vc_pipes = replicate (unat (engine_getNbCore eng)) (pipe_new block), vc_mono = pipe_new block,
      vc_event_buffer = buffer, vc_router = memh_new, vc_snap = (\<lambda>_. []), vc_disposers = disposers,
      vc_ids = pool_init (nb_service + 1), vc_nb_service = nb_service, vc_heap = [], vc_fresh = 0, vc_actors = [],
      vc_callbacks = [], vc_callback_list = [], vc_to_remove = [], vc_activating = [], vc_dying = [],
      vc_metrics = metrics_new now, vc_loop_count = 0, vc_last_generation = 0, vc_stop_delivered = False,
      vc_ask_slots = [], vc_ask_types = [], vc_ask_counter = asked, vc_tick = 0, vc_log = []\<rparr>"

section \<open>The registered actors\<close>

text \<open>
  A \<open>TActorFactory\<close>: the id promised by \<open>addActor\<close>, the service index of a service actor, whether the
  constructor subscribes the default events, the type and what the constructor of the actor calls.
\<close>

record 'b factory =
  fa_id :: actor_id
  fa_service :: "service_id option"
  fa_defaults :: bool
  fa_type :: event_id
  fa_ctor :: "'b act list"

definition create :: "('b, 'z) user_env_scheme \<Rightarrow> 'b factory \<Rightarrow> 'b core \<Rightarrow> (addr \<times> 'b core) option" where
  "create E fa c =
     do {
       let (h, c1) = actor_ctor E (fa_service fa) (fa_defaults fa) c;
       (_, c2) \<leftarrow> run_acts E h (fa_ctor fa) [] c1;
       Some (h, deref h (\<lambda>a. set_actor h (a\<lparr>ac_type := fa_type fa\<rparr>)) c2)
     }"

text \<open>The \<open>any_of\<close> of \<open>start_thread\<close> over the factories; the flag says whether one failed.\<close>

fun create_actors :: "('b, 'z) user_env_scheme \<Rightarrow> 'b factory list \<Rightarrow> 'b core \<Rightarrow> (bool \<times> 'b core) option" where
  "create_actors E [] c = Some (False, c)"
| "create_actors E (fa # fas) c =
     do {
       (h, c1) \<leftarrow> create E fa c;
       (i, c2) \<leftarrow> appendActor E h False Some Null_task c1;
       if \<not> is_valid i then Some (True, c2) else create_actors E fas c2
     }"

datatype start_error = BadInit | NoActor | BadActorInit | ExceptionThrown

fun error_code :: "start_error \<Rightarrow> 64 word" where
  "error_code BadInit = push_bit 9 1"
| "error_code NoActor = push_bit 10 1"
| "error_code BadActorInit = push_bit 11 1"
| "error_code ExceptionThrown = push_bit 12 1"

definition init_core ::
  "('b, 'z) user_env_scheme \<Rightarrow> bool \<Rightarrow> 'b factory list \<Rightarrow> 'b core \<Rightarrow> (start_error option \<times> 'b core) option" where
  "init_core E init_ok fas c =
     (if \<not> init_ok then Some (Some BadInit, c)
      else if fas = [] then Some (Some NoActor, c)
      else do {
        (failed, c1) \<leftarrow> create_actors E fas c;
        if failed then Some (Some BadActorInit, c1)
        else do {
          (ok, c2) \<leftarrow> init_actors E c1;
          Some (if ok then None else Some BadActorInit, c2)
        }
      })"

text \<open>
  \<open>start_thread\<close>: \<open>ready\<close> is what \<open>__wait__all__cores__ready\<close> returns; the guard marks the core stopped
  on every way out.
\<close>

definition start_thread ::
  "('b, 'z) world_scheme \<Rightarrow> bool \<Rightarrow> bool \<Rightarrow> nat \<Rightarrow> nat \<Rightarrow> 'b factory list \<Rightarrow> 'b core \<Rightarrow>
     (start_error option \<times> bool \<times> 'b core) option" where
  "start_thread E init_ok ready passes rounds fas c =
     do {
       (err, c1) \<leftarrow> init_core E init_ok fas c;
       (fin, c2) \<leftarrow> (if ready then workflow E passes rounds c1 else Some (True, c1));
       if fin then do { eng \<leftarrow> mark_core_stopped (vc_resolved c2) (vc_engine c2); Some (err, True, c2\<lparr>vc_engine := eng\<rparr>) }
       else Some (err, False, c2)
     }"

section \<open>What the engine is told before the start\<close>

record 'b core_initializer =
  ci_index :: core_id
  ci_next_id :: service_id
  ci_affinity :: core_bits
  ci_latency :: int
  ci_factories :: "'b factory list"
  ci_services :: "service_id list"

definition CoreInitializer :: "service_id \<Rightarrow> core_id \<Rightarrow> 'b core_initializer" where
  "CoreInitializer nb_service index =
     \<lparr>ci_index = index, ci_next_id = nb_service + 1, ci_affinity = core_of_list [index], ci_latency = 0,
      ci_factories = [], ci_services = []\<rparr>"

definition ci_clear :: "service_id \<Rightarrow> 'b core_initializer \<Rightarrow> 'b core_initializer" where
  "ci_clear nb_service ci =
     ci\<lparr>ci_next_id := nb_service + 1, ci_affinity := core_clear (ci_affinity ci), ci_factories := [], ci_services := []\<rparr>"

definition ci_setAffinity :: "core_bits \<Rightarrow> 'b core_initializer \<Rightarrow> 'b core_initializer" where
  "ci_setAffinity ids ci = ci\<lparr>ci_affinity := ids\<rparr>"

definition ci_setLatency :: "int \<Rightarrow> 'b core_initializer \<Rightarrow> 'b core_initializer" where
  "ci_setLatency latency ci = ci\<lparr>ci_latency := latency\<rparr>"

text \<open>\<open>addActor<_Actor>\<close>; the arguments describe the factory of the actor type.\<close>

definition addActor ::
  "service_id option \<Rightarrow> bool \<Rightarrow> event_id \<Rightarrow> 'b act list \<Rightarrow> 'b core_initializer \<Rightarrow> actor_id \<times> 'b core_initializer" where
  "addActor svc defaults ty ctor ci =
     (let fa = (\<lambda>i. \<lparr>fa_id = i, fa_service = svc, fa_defaults = defaults, fa_type = ty, fa_ctor = ctor\<rparr>)
      in case svc of
           Some sid \<Rightarrow>
             if sid \<notin> set (ci_services ci)
             then let i = ActorId sid (ci_index ci)
                  in (i, ci\<lparr>ci_services := sid # ci_services ci, ci_factories := ci_factories ci @ [fa i]\<rparr>)
             else (not_found, ci)
         | None \<Rightarrow>
             if ci_next_id ci = - 1 then (not_found, ci)
             else let i = ActorId (ci_next_id ci) (ci_index ci)
                  in (i, ci\<lparr>ci_next_id := ci_next_id ci + 1, ci_factories := ci_factories ci @ [fa i]\<rparr>))"

text \<open>The \<open>ActorBuilder\<close>: whether every id was valid, and the ids.\<close>

definition ci_builder :: "'b core_initializer \<Rightarrow> bool \<times> actor_id list \<times> 'b core_initializer" where
  "ci_builder ci = (True, [], ci)"

definition builder_addActor ::
  "service_id option \<Rightarrow> bool \<Rightarrow> event_id \<Rightarrow> 'b act list \<Rightarrow> bool \<times> actor_id list \<times> 'b core_initializer \<Rightarrow>
     bool \<times> actor_id list \<times> 'b core_initializer" where
  "builder_addActor svc defaults ty ctor b =
     (let (valid, ids, ci) = b; (i, ci1) = addActor svc defaults ty ctor ci
      in (valid \<and> is_valid i, ids @ [i], ci1))"

text \<open>
  \<open>registerIndex\<close> gives every service type its index, once; the map of the registered services and their number.
\<close>

definition registerIndex ::
  "event_id \<Rightarrow> (event_id \<times> service_id) list \<times> service_id \<Rightarrow> service_id \<times> (event_id \<times> service_id) list \<times> service_id" where
  "registerIndex tag reg =
     (let (services, nb_service) = reg
      in case map_of services tag of
           Some idx \<Rightarrow> (idx, services, nb_service)
         | None \<Rightarrow> let new_id = nb_service + 1 in (new_id, (tag, new_id) # services, new_id))"

definition getServiceId ::
  "event_id \<Rightarrow> core_id \<Rightarrow> (event_id \<times> service_id) list \<times> service_id \<Rightarrow> actor_id \<times> (event_id \<times> service_id) list \<times> service_id" where
  "getServiceId tag index reg = (let (idx, reg1) = registerIndex tag reg in (ActorId idx index, reg1))"

section \<open>A core follows no dangling pointer\<close>

lemma unat_below: "x \<noteq> - 1 \<Longrightarrow> unat (x :: 16 word) < 65535"
proof -
  assume "x \<noteq> - 1"
  then have "unat x \<noteq> unat (- 1 :: 16 word)" by (simp add: word_unat_eq_iff)
  moreover have "unat x < 2 ^ 16" by (rule order.strict_trans2 [OF unsigned_less]) simp
  ultimately show ?thesis by (simp add: unsigned_minus_1_eq_mask mask_eq_exp_minus_1)
qed

lemma unat_inc: "x \<noteq> - 1 \<Longrightarrow> unat (x + 1 :: 16 word) = unat x + 1"
  by (drule unat_below) (simp add: unat_word_ariths)

lemma new_core_good:
  assumes "nb_service \<noteq> - 1"
  shows "good (VirtualCore block buffer nb_service disposers asked now index eng)"
proof -
  have m: "unat (nb_service + 1) = unat nb_service + 1" using unat_inc assms by blast
  have "unat nb_service < n" if "n \<in> free_ids (bits (pool_init (nb_service + 1)))" for n
    using that pool_init_correct [of "nb_service + 1"] m by auto
  then show ?thesis
    using pool_init_correct [of "nb_service + 1"]
    by (simp add: good_def VirtualCore_def inv_defs memh_new_def memh_lookup_def)
qed

lemma create_append_step:
  assumes g: "good c" and r: "create E fa c = Some (h, c1)" "appendActor E h False Some Null_task c1 = Some (i, c2)"
  shows "step_ok (vc_fresh c) c c2"
proof -
  obtain h' d where ctor: "actor_ctor E (fa_service fa) (fa_defaults fa) c = (h', d)" by fastforce
  then obtain ev d2 where d2: "run_acts E h' (fa_ctor fa) [] d = Some (ev, d2)" "h' = h"
    "c1 = deref h' (\<lambda>a. set_actor h' (a\<lparr>ac_type := fa_type fa\<rparr>)) d2"
    using r(1) by (auto simp: create_def split: Option.bind_splits)
  have a: "appendActor E h' False (\<lambda>c. map_option snd (run_acts E h' [] [] c)) Null_task
      (deref h' (\<lambda>a. set_actor h' (a\<lparr>ac_type := fa_type fa\<rparr>)) d2) = Some (i, c2)"
    using r(2) d2(2,3) by (simp add: appendActor_def initActor_def)
  show ?thesis by (rule add_ref_step [OF g ctor d2(1) _ _ a]) (use run_acts_step(2) d2(1) in blast)+
qed

lemma create_actors_good: "good c \<Longrightarrow> create_actors E fas c = Some (b, c') \<Longrightarrow> good c'"
proof (induction fas arbitrary: c)
  case (Cons fa fas)
  from Cons.prems(2) obtain h c1 i c2 where c2: "create E fa c = Some (h, c1)" "appendActor E h False Some Null_task c1 = Some (i, c2)"
    by (auto split: Option.bind_splits)
  then have g: "good c2" using good_step [OF Cons.prems(1) create_append_step [OF Cons.prems(1)]] by blast
  show ?case using Cons.prems(2) c2 g Cons.IH [OF g] by (simp split: if_splits)
qed simp

lemma begin_activation_live: "live h' c \<Longrightarrow> live h' (begin_activation E h c)"
  by (auto simp: live_def begin_activation_def deref_def set_actor_def id_conflict_def logged_def update_conv' Let_def
      split: option.splits if_splits)

lemma init_each_good:
  "good c \<Longrightarrow> \<forall>h \<in> set hs. live h c \<Longrightarrow> init_each E hs c = Some (b, c') \<Longrightarrow> good c'"
proof (induction hs arbitrary: c)
  case (Cons h hs)
  obtain acts init where i: "en_init E h c = (acts, init)" by fastforce
  let ?run = "\<lambda>c. map_option snd (run_acts E h acts [] c)"
  from Cons.prems(3) i obtain out c1 where d: "drive_init ?run init c = Some (out, c1)" by (auto split: Option.bind_splits)
  have l: "live h c" using Cons.prems(2) by simp
  have "step_ok (vc_fresh c) c d" if "?run c = Some d" for d
    using that run_acts_step(2) [OF _ Cons.prems(1) l] by auto
  from drive_init_step [OF Cons.prems(1) l d this] have s: "step_ok (vc_fresh c) c c1" .
  have g1: "good c1" using good_step [OF Cons.prems(1) s] .
  have l1: "live h' c1" if "h' \<in> set (h # hs)" for h'
    using live_step_fresh [OF _ Cons.prems(1) s] Cons.prems(2) that by blast
  have "good (begin_activation E h c1)" using good_step [OF g1 begin_activation_step [OF g1 l1, of h 0]] by simp
  moreover have "\<forall>h' \<in> set hs. live h' (begin_activation E h c1)" using l1 by (auto intro: begin_activation_live)
  ultimately show ?case
    using Cons.prems(3) i d g1 Cons.IH [of c1] Cons.IH [of "begin_activation E h c1"] l1
    by (auto split: init_outcome.splits)
qed simp

lemma init_core_good:
  assumes g: "good c" and it: "iteration_ok E" and r: "init_core E ok fas c = Some (err, c')"
  shows "good c'"
proof -
  consider "c' = c" | b c1 where "create_actors E fas c = Some (b, c1)" "c' = c1"
    | b c1 ok' where "create_actors E fas c = Some (b, c1)" "init_actors E c1 = Some (ok', c')"
    using r by (auto simp: init_core_def split: if_splits Option.bind_splits)
  then show ?thesis
  proof cases
    case (3 b c1 ok')
    have g1: "good c1" using create_actors_good [OF g 3(1)] .
    have "\<forall>h \<in> set (map snd (en_iter E (vc_actors c1))). live h c1"
      using it good_actor [OF g1] unfolding iteration_ok_def by fastforce
    then show ?thesis using init_each_good [OF g1 _ 3(2) [unfolded init_actors_def]] by blast
  qed (use g create_actors_good [OF g] in auto)
qed

lemma start_thread_good:
  assumes g: "good c" and it: "iteration_ok E" and r: "start_thread E ok ready n m fas c = Some (err, fin, c')"
  shows "good c'"
proof -
  obtain err' c1 where c1: "init_core E ok fas c = Some (err', c1)" using r by (auto simp: start_thread_def split: Option.bind_splits)
  define w where "w = (if ready then workflow E n m c1 else Some (True, c1))"
  obtain fin' c2 where w: "w = Some (fin', c2)" and "unmoved c' = unmoved c2"
    using r [unfolded start_thread_def c1 Option.bind.simps prod.case, folded w_def]
    by (auto split: if_splits Option.bind_splits)
  note c2 = c1 w [unfolded w_def] this(2)
  have g1: "good c1" using init_core_good [OF g it c2(1)] .
  have g2: "good c2" using c2(2) g1 workflow_good [OF g1 it] by (auto split: if_splits)
  show ?thesis using good_step [OF g2 step_ok_unmoved [OF c2(3)]] .
qed

definition demo_world :: "nat world" where
  "demo_world =
     \<lparr>en_alloc = (\<lambda>n. Some (replicate n (demo_bucket 0 1))), en_peers = (\<lambda>n eng. eng), en_trivial = (\<lambda>t. True),
      en_tid = (\<lambda>s. case s of Kill_event \<Rightarrow> 1 | Signal_event \<Rightarrow> 2 | Unregister_callback_event \<Rightarrow> 3 | Ping_event \<Rightarrow> 4 | Require_event \<Rightarrow> 5),
      en_sizeof = (\<lambda>s. 64), en_object = (\<lambda>s n w. [demo_bucket 2 1]), en_signum = (\<lambda>ev. 0), en_ping_type = (\<lambda>ev. 0),
      en_correlation = (\<lambda>ev. 0), en_on = (\<lambda>t h ev c. None), en_tick = (\<lambda>h c. [Emit (Kill h)]), en_dtor = (\<lambda>h c. []),
      en_init = (\<lambda>h c. ([Register_callback], Returned_bool True)), en_now = (\<lambda>c. 0), en_deadline_ns = 0,
      en_iter = AList.clearjunk, en_id_iter = (\<lambda>xs. xs), en_pending = (\<lambda>c. 0), en_generation = (\<lambda>c. 0),
      en_pending_again = (\<lambda>c. 0), en_stop = (\<lambda>c. False), en_io_active = (\<lambda>c. False), en_io = (\<lambda>c. [])\<rparr>"

definition demo_factory :: "nat factory" where
  "demo_factory = \<lparr>fa_id = ActorId 1 2, fa_service = Some 1, fa_defaults = False, fa_type = 9, fa_ctor = []\<rparr>"

definition demo_new_core :: "nat core" where
  "demo_new_core = VirtualCore (replicate 4096 (demo_bucket 0 1)) (replicate 1023 (demo_bucket 0 1)) 1 [] 0 0 2 demo_engine"

lemma demo_world_simps [simp]:
  "en_init demo_world h c = ([Register_callback], Returned_bool True)" "en_iter demo_world = AList.clearjunk" "en_id_iter demo_world is = is"
  by (simp_all add: demo_world_def)

lemma demo_create:
  "\<exists>c a. create demo_world demo_factory demo_new_core = Some (0, c) \<and> vc_heap c = [(0, a)] \<and> ac_id a = ActorId 1 2 \<and>
     vc_actors c = [] \<and> vc_callbacks c = [] \<and> vc_callback_list c = [] \<and> vc_log c = []"
proof -
  have v: "is_valid (ActorId 1 2)" by code_simp
  show ?thesis
    by (simp add: create_def actor_ctor_def usable_id_def demo_factory_def demo_new_core_def VirtualCore_def
        default_events_def registerEvent_def deref_def set_actor_def v)
qed

lemma demo_create_actors:
  "\<exists>c a. create_actors demo_world [demo_factory] demo_new_core = Some (False, c) \<and> vc_heap c = [(0, a)] \<and>
     ac_id a = ActorId 1 2 \<and> vc_actors c = [(ActorId 1 2, 0)] \<and> vc_callbacks c = [] \<and> vc_callback_list c = [] \<and> vc_log c = []"
proof -
  have v: "is_valid (ActorId 1 2)" by code_simp
  from demo_create obtain c a where c: "create demo_world demo_factory demo_new_core = Some (0, c)" "vc_heap c = [(0, a)]"
    "ac_id a = ActorId 1 2" "vc_actors c = []" "vc_callbacks c = []" "vc_callback_list c = []" "vc_log c = []" by blast
  then have "create_actors demo_world [demo_factory] demo_new_core = Some (False, c\<lparr>vc_actors := [(ActorId 1 2, 0)]\<rparr>)"
    using v by (simp add: appendActor_def initActor_def Let_def)
  then show ?thesis using c by auto
qed

lemma demo_start:
  "\<exists>c. start_thread demo_world True True 0 0 [demo_factory] demo_new_core = Some (None, False, c) \<and>
     vc_actors c = [(ActorId 1 2, 0)] \<and> vc_callback_list c = [(0, ActorId 1 2)] \<and> vc_log c = []"
proof -
  have v: "is_valid (ActorId 1 2)" by code_simp
  from demo_create_actors obtain c a where 1: "create_actors demo_world [demo_factory] demo_new_core = Some (False, c)"
    and c: "vc_heap c = [(0, a)]" "ac_id a = ActorId 1 2" "vc_actors c = [(ActorId 1 2, 0)]" "vc_callbacks c = []"
      "vc_callback_list c = []" "vc_log c = []" by blast
  let ?c3 = "c\<lparr>vc_callbacks := [(ActorId 1 2, 0)], vc_callback_list := [(0, ActorId 1 2)]\<rparr>"
  have 2: "init_actors demo_world c = Some (True, ?c3)"
    using c v by (simp add: init_actors_def drive_init_def registerCallback_def deref_def Let_def)
  have "start_thread demo_world True True 0 0 [demo_factory] demo_new_core = Some (None, False, ?c3)"
    using 1 2 by (simp add: start_thread_def init_core_def workflow_def del: create_actors.simps)
  then show ?thesis using c by auto
qed



section \<open>The promised ids\<close>

text \<open>What a constructor that creates no further actor leaves as it is.\<close>

fun creates_actor :: "'b act \<Rightarrow> bool" where
  "creates_actor (Add_ref svc defaults ty ctor init outcome) = True"
| "creates_actor _ = False"

definition same_ids :: "'b core \<Rightarrow> 'b core \<Rightarrow> bool" where
  "same_ids c c' \<longleftrightarrow> vc_ids c' = vc_ids c \<and> vc_actors c' = vc_actors c \<and> vc_index c' = vc_index c \<and>
     vc_nb_service c' = vc_nb_service c \<and> heap_ids c' = heap_ids c"

lemma same_ids_trans: "same_ids a b \<Longrightarrow> same_ids b c \<Longrightarrow> same_ids a c"
  by (simp add: same_ids_def)

lemma same_ids_unmoved: "unmoved c' = unmoved c \<Longrightarrow> same_ids c c'"
  using same_tables_unmoved [of c' c] heap_ids_unmoved [of c' c] by (simp add: same_ids_def same_tables_def)

lemma same_ids_deref:
  assumes "\<And>a. map_of (vc_heap c) h = Some a \<Longrightarrow> same_ids c (g a c)"
  shows "same_ids c (deref h g c)"
  using assms by (auto simp: deref_def same_ids_def logged_def heap_ids_def fun_eq_iff split: option.split)

lemma same_ids_set_actor: "map_of (vc_heap c) h = Some a \<Longrightarrow> ac_id a' = ac_id a \<Longrightarrow> same_ids c (set_actor h a' c)"
  using heap_ids_set_actor [of c h a a'] by (simp add: same_ids_def) (simp add: set_actor_def)

lemma same_ids_fields [simp]:
  "same_ids c c" "same_ids c (c\<lparr>vc_disposers := ds, vc_router := r\<rparr>)" "same_ids c (c\<lparr>vc_router := r\<rparr>)"
  "same_ids c (c\<lparr>vc_callbacks := cs, vc_callback_list := cl\<rparr>)" "same_ids c (c\<lparr>vc_ask_slots := xs\<rparr>)"
  "same_ids c (c\<lparr>vc_ask_types := ts\<rparr>)"
  by (simp_all add: same_ids_def heap_ids_def fun_eq_iff)

lemma same_ids_logged [simp]: "same_ids c (logged x d) = same_ids c d"
  by (simp add: same_ids_def heap_ids_def fun_eq_iff logged_def)

lemma same_ids_emit: "do_emit E h x c = Some c' \<Longrightarrow> same_ids c c'"
  using do_emit_tables [of E h x c c'] do_emit_heap [of E h x c c'] by (simp add: same_ids_def same_tables_def)

lemma same_ids_register: "same_ids c (registerEvent t h c)"
  by (auto simp: registerEvent_def intro!: same_ids_deref)

lemma same_ids_ask_deliver: "same_ids c (snd (ask_deliver n i ev c))"
  by (auto simp: ask_deliver_def deliver_thunk_def Let_def split: option.split)

lemma plain_act_same_ids:
  assumes r: "run_act E h a ev c = Some (ev', c')" and "\<not> creates_actor a"
  shows "same_ids c c'"
proof (cases a)
  case (Emit x)
  then show ?thesis using r same_ids_emit by (auto split: Option.bind_splits)
next
  case Reply
  then show ?thesis using r same_ids_unmoved [OF actor_reply_unmoved] by simp
next
  case (Forward dest)
  then show ?thesis using r same_ids_unmoved [OF actor_forward_unmoved] by simp
next
  case Unregister_callback
  then show ?thesis
    using r same_ids_unmoved [OF unregisterCallback_unmoved] by (auto simp: deref_opt_def split: Option.bind_splits option.splits)
qed (use assms in \<open>auto simp: registerCallback_def unregisterEvent_def ask_register_def ask_unregister_def ask_register_type_def
    ensure_coro_scope_def same_ids_ask_deliver same_ids_register intro!: same_ids_deref same_ids_set_actor split: option.splits\<close>)

lemma plain_acts_same_ids:
  "run_acts E h as ev c = Some (ev', c') \<Longrightarrow> list_all (\<lambda>a. \<not> creates_actor a) as \<Longrightarrow> same_ids c c'"
proof (induction as arbitrary: ev c)
  case (Cons a as)
  from Cons.prems(1) obtain e1 c1 where 1: "run_act E h a ev c = Some (e1, c1)" "run_acts E h as e1 c1 = Some (ev', c')"
    by (auto split: Option.bind_splits)
  have "same_ids c c1" "same_ids c1 c'"
    using plain_act_same_ids [OF 1(1)] Cons.IH [OF 1(2)] Cons.prems(2) by simp_all
  then show ?case by (rule same_ids_trans)
qed simp

lemma fold_register_same_ids: "same_ids c (fold (\<lambda>s. registerEvent (g s) h) xs c)"
  by (induction xs arbitrary: c) (auto intro: same_ids_trans [OF same_ids_register])

lemma generate_id_next:
  assumes inv: "pool_inv (vc_ids c)" and free: "free_ids (bits (vc_ids c)) = {n..<kBits}" and n: "n < kBits"
  shows "\<exists>p. generate_id c = (ActorId (word_of_nat n) (vc_index c), c\<lparr>vc_ids := p\<rparr>) \<and> pool_inv p \<and>
    free_ids (bits p) = {n + 1..<kBits}"
proof -
  have m: "Min (free_ids (bits (vc_ids c))) = n" unfolding free by (rule Min_eqI) (use n in auto)
  have ne: "free_ids (bits (vc_ids c)) \<noteq> {}" using n free by simp
  then obtain p where p: "pool_acquire (vc_ids c) = (word_of_nat n, p)" "pool_inv p" "free_ids (bits p) = {n..<kBits} - {n}"
    using pool_acquire_correct [OF inv] m free by auto
  have "\<not> pool_empty (vc_ids c)" using inv ne free n by (simp add: pool_empty_def pool_inv_def)
  moreover have "word_of_nat n \<noteq> BroadcastSid"
    using n by (simp add: BroadcastSid_def word_unat_eq_iff unat_of_nat unsigned_minus_1_eq_mask mask_eq_exp_minus_1 take_bit_nat_eq_self)
  moreover have "{n..<kBits} - {n} = {n + 1..<kBits}" by auto
  ultimately show ?thesis using p by (intro exI [of _ p]) (simp add: generate_id_def)
qed

text \<open>
  \<open>numbered nb index k fas\<close>: the factories promise the ids the next \<open>k\<close>-th actor on gets, in their order.
\<close>

fun numbered :: "service_id \<Rightarrow> core_id \<Rightarrow> nat \<Rightarrow> 'b factory list \<Rightarrow> bool" where
  "numbered nb index k [] \<longleftrightarrow> True"
| "numbered nb index k (fa # fas) \<longleftrightarrow>
     (case fa_service fa of
        Some sid \<Rightarrow> fa_id fa = ActorId sid index \<and> 0 < sid \<and> sid \<le> nb \<and> numbered nb index k fas
      | None \<Rightarrow> unat nb + 1 + k < kBits \<and> fa_id fa = ActorId (word_of_nat (unat nb + 1 + k)) index \<and>
          numbered nb index (k + 1) fas)"

lemma numbered_valid: "numbered nb index k (fa # fas) \<Longrightarrow> is_valid (fa_id fa)"
proof (cases "fa_service fa")
  case None
  define m where "m = unat nb + 1 + k"
  assume "numbered nb index k (fa # fas)"
  then have m: "m < kBits" "fa_id fa = ActorId (word_of_nat m) index" using None by (simp_all add: m_def del: of_nat_add of_nat_Suc)
  then have "unat (word_of_nat m :: service_id) = m" by (simp add: unat_of_nat take_bit_nat_eq_self)
  moreover have "m \<noteq> 0" by (simp add: m_def)
  ultimately have "(word_of_nat m :: service_id) \<noteq> 0" by (metis unat_0)
  then show ?thesis using m(2) by (simp add: is_valid_iff ActorId_def)
qed (auto simp: is_valid_iff ActorId_def)

definition next_ids :: "service_id \<Rightarrow> core_id \<Rightarrow> nat \<Rightarrow> 'b core \<Rightarrow> bool" where
  "next_ids nb index k c \<longleftrightarrow> pool_inv (vc_ids c) \<and> free_ids (bits (vc_ids c)) = {unat nb + 1 + k..<kBits} \<and>
     vc_index c = index \<and> vc_nb_service c = nb"

lemma next_ids_same: "same_ids c c' \<Longrightarrow> next_ids nb index k c' = next_ids nb index k c"
  by (simp add: same_ids_def next_ids_def)

lemma actor_ctor_next:
  assumes nx: "next_ids nb index k c" and num: "numbered nb index k (fa # fas)"
    and r: "actor_ctor E (fa_service fa) (fa_defaults fa) c = (h, c1)"
  shows "next_ids nb index (if fa_service fa = None then k + 1 else k) c1" "heap_ids c1 h = Some (fa_id fa)" "vc_actors c1 = vc_actors c"
proof -
  obtain p where p: "(case fa_service fa of None \<Rightarrow> generate_id c | Some sid \<Rightarrow> (ActorId sid (vc_index c), c)) =
      (fa_id fa, c\<lparr>vc_ids := p\<rparr>)" "next_ids nb index (if fa_service fa = None then k + 1 else k) (c\<lparr>vc_ids := p\<rparr>)"
  proof (cases "fa_service fa")
    case None
    then have n: "unat nb + 1 + k < kBits" "fa_id fa = ActorId (word_of_nat (unat nb + 1 + k)) index" using num by simp_all
    then show ?thesis
      using that None nx generate_id_next [of c "unat nb + 1 + k"] by (auto simp: next_ids_def)
  next
    case (Some sid)
    then show ?thesis using that [of "vc_ids c"] nx num by (simp add: next_ids_def)
  qed
  let ?c1 = "c\<lparr>vc_ids := p\<rparr>"
  define a where "a = \<lparr>ac_id = fa_id fa, ac_type = 0, ac_alive = True, ac_activated = True, ac_scope = False, ac_cancelled = False\<rparr>"
  define c2 where "c2 = ?c1\<lparr>vc_heap := (vc_fresh c, a) # vc_heap c, vc_fresh := vc_fresh c + 1\<rparr>"
  define c3 where "c3 = (if usable_id (fa_service fa) (fa_id fa) ?c1 then id else logged (Unusable_id (vc_fresh c) (fa_id fa))) c2"
  have h: "h = vc_fresh c" and c1: "c1 = (if fa_defaults fa then fold (\<lambda>s. registerEvent (en_tid E s) h) default_events c3 else c3)"
    using r p(1) by (auto simp: actor_ctor_def Let_def c3_def c2_def a_def split: if_splits)
  have "same_ids c2 c3" by (simp add: c3_def)
  moreover have "same_ids c3 c1" by (simp add: c1 fold_register_same_ids)
  ultimately have same: "same_ids c2 c1" by (rule same_ids_trans)
  have "next_ids nb index (if fa_service fa = None then k + 1 else k) c2" "heap_ids c2 h = Some (fa_id fa)" "vc_actors c2 = vc_actors c"
    using p(2) h by (simp_all add: next_ids_def c2_def a_def heap_ids_def)
  then show "next_ids nb index (if fa_service fa = None then k + 1 else k) c1" "heap_ids c1 h = Some (fa_id fa)" "vc_actors c1 = vc_actors c"
    using next_ids_same [OF same] same by (simp_all add: same_ids_def)
qed

lemma create_append_next:
  assumes nx: "next_ids nb index k c" and num: "numbered nb index k (fa # fas)" and new: "fa_id fa \<notin> fst ` set (vc_actors c)"
    and plain: "list_all (\<lambda>a. \<not> creates_actor a) (fa_ctor fa)"
    and r: "create E fa c = Some (h, c1)" "appendActor E h False Some Null_task c1 = Some (i, c2)"
  shows "i = fa_id fa" "next_ids nb index (if fa_service fa = None then k + 1 else k) c2" "vc_actors c2 = (fa_id fa, h) # vc_actors c"
proof -
  let ?k = "if fa_service fa = None then k + 1 else k"
  obtain h' d where ctor: "actor_ctor E (fa_service fa) (fa_defaults fa) c = (h', d)" by fastforce
  then obtain ev d2 where d2: "run_acts E h' (fa_ctor fa) [] d = Some (ev, d2)" "h' = h"
    "c1 = deref h' (\<lambda>a. set_actor h' (a\<lparr>ac_type := fa_type fa\<rparr>)) d2"
    using r(1) by (auto simp: create_def split: Option.bind_splits)
  note n = actor_ctor_next [OF nx num ctor]
  have "same_ids d2 c1" unfolding d2(3) by (rule same_ids_deref, erule same_ids_set_actor) simp
  then have same: "same_ids d c1" using same_ids_trans plain_acts_same_ids [OF d2(1) plain] by blast
  have 1: "next_ids nb index ?k c1" "heap_ids c1 h = Some (fa_id fa)" "vc_actors c1 = vc_actors c"
    using n next_ids_same [OF same] same d2(2) by (simp_all add: same_ids_def)
  then obtain a where a: "map_of (vc_heap c1) h = Some a" "ac_id a = fa_id fa" by (auto simp: heap_ids_def)
  note v = numbered_valid [OF num]
  have new1: "fa_id fa \<notin> set (map fst (vc_actors c1))" using new 1(3) by auto
  have "i = fa_id fa \<and> c2 = c1\<lparr>vc_actors := (fa_id fa, h) # vc_actors c1\<rparr>"
    using r(2) a v new1 by (auto simp: appendActor_def initActor_def Let_def)
  then show "i = fa_id fa" "next_ids nb index ?k c2" "vc_actors c2 = (fa_id fa, h) # vc_actors c"
    using 1 by (simp_all add: next_ids_def)
qed

lemma create_actors_numbered:
  assumes "next_ids nb index k c" "numbered nb index k fas" "\<forall>fa \<in> set fas. list_all (\<lambda>a. \<not> creates_actor a) (fa_ctor fa)"
    and "distinct (map fst (vc_actors c) @ map fa_id fas)" "create_actors E fas c = Some (failed, c')"
  shows "\<not> failed \<and> map fst (rev (vc_actors c')) = map fst (rev (vc_actors c)) @ map fa_id fas"
  using assms
proof (induction fas arbitrary: k c)
  case (Cons fa fas)
  from Cons.prems(5) obtain h c1 i c2 where c2: "create E fa c = Some (h, c1)" "appendActor E h False Some Null_task c1 = Some (i, c2)"
    by (auto split: Option.bind_splits)
  have new: "fa_id fa \<notin> fst ` set (vc_actors c)" using Cons.prems(4) by auto
  have plain: "list_all (\<lambda>a. \<not> creates_actor a) (fa_ctor fa)" using Cons.prems(3) by simp
  note n = create_append_next [OF Cons.prems(1,2) new plain c2]
  note v = numbered_valid [OF Cons.prems(2)]
  have "create_actors E fas c2 = Some (failed, c')" using Cons.prems(5) c2 n(1) v by simp
  moreover have "numbered nb index (if fa_service fa = None then k + 1 else k) fas"
    using Cons.prems(2) by (cases "fa_service fa") simp_all
  ultimately show ?case
    using Cons.IH [OF n(2)] Cons.prems(3,4) n(3) by simp
qed simp

text \<open>
  A sequence of \<open>addActor\<close> calls, each a service index, whether the default events are subscribed, a type
  and what the constructor does; the ids returned.
\<close>

type_synonym 'b registration = "service_id option \<times> bool \<times> event_id \<times> 'b act list"

fun register_all :: "'b registration list \<Rightarrow> 'b core_initializer \<Rightarrow> actor_id list \<times> 'b core_initializer" where
  "register_all [] ci = ([], ci)"
| "register_all ((svc, defaults, ty, ctor) # rs) ci =
     (let (i, ci1) = addActor svc defaults ty ctor ci; (is, ci2) = register_all rs ci1 in (i # is, ci2))"

definition actors_in :: "'b factory list \<Rightarrow> nat" where
  "actors_in fas = length (filter (\<lambda>fa. fa_service fa = None) fas)"

definition initializer_ok :: "service_id \<Rightarrow> 'b core_initializer \<Rightarrow> bool" where
  "initializer_ok nb ci \<longleftrightarrow> numbered nb (ci_index ci) 0 (ci_factories ci) \<and>
     unat (ci_next_id ci) = unat nb + 1 + actors_in (ci_factories ci) \<and>
     (\<forall>fa \<in> set (ci_factories ci). \<forall>sid. fa_service fa = Some sid \<longrightarrow> sid \<in> set (ci_services ci)) \<and>
     distinct (map fa_id (ci_factories ci))"

lemma numbered_append:
  "numbered nb index k (fas @ gs) \<longleftrightarrow> numbered nb index k fas \<and> numbered nb index (k + actors_in fas) gs"
  by (induction fas arbitrary: k) (auto simp: actors_in_def simp del: of_nat_add of_nat_Suc split: option.split)

lemma numbered_id:
  "numbered nb index k fas \<Longrightarrow> fa \<in> set fas \<Longrightarrow> fa_service fa = None \<Longrightarrow>
     unat nb + 1 + k \<le> unat (service_id (fa_id fa)) \<and> unat (service_id (fa_id fa)) < unat nb + 1 + k + actors_in fas"
  "numbered nb index k fas \<Longrightarrow> fa \<in> set fas \<Longrightarrow> fa_service fa = Some sid \<Longrightarrow> fa_id fa = ActorId sid index \<and> unat sid \<le> unat nb"
proof (induction fas arbitrary: k)
  case (Cons g fas)
  {
    case 1
    show ?case
    proof (cases "fa_service g")
      case None
      define m where "m = unat nb + 1 + k"
      have m: "m < kBits" "fa_id g = ActorId (word_of_nat m) index" "numbered nb index (k + 1) fas"
        using 1(1) None by (simp_all add: m_def del: of_nat_add of_nat_Suc)
      have "unat (service_id (fa_id g)) = m" using m by (simp add: ActorId_def unat_of_nat take_bit_nat_eq_self)
      then show ?thesis
        using Cons(1) [OF m(3)] 1 None by (auto simp: actors_in_def m_def simp del: of_nat_add of_nat_Suc)
    next
      case (Some sid)
      then show ?thesis using Cons(1) [of k] 1 by (auto simp: actors_in_def)
    qed
  next
    case 2
    then show ?case using Cons(2) [of k] Cons(2) [of "k + 1"] by (auto simp: word_le_nat_alt split: option.splits)
  }
qed simp_all

lemma not_found_invalid: "\<not> is_valid not_found"
  by (simp add: is_valid_def not_found_def)

lemma initializer_ok_add:
  assumes ok: "initializer_ok nb ci"
    and fa: "numbered nb (ci_index ci) (actors_in (ci_factories ci)) [fa]" "\<forall>sid. fa_service fa = Some sid \<longrightarrow> sid \<notin> set (ci_services ci)"
    and n: "unat n = unat nb + 1 + actors_in (ci_factories ci @ [fa])" and svcs: "set (ci_services ci) \<subseteq> set svcs"
      "\<forall>sid. fa_service fa = Some sid \<longrightarrow> sid \<in> set svcs"
  shows "initializer_ok nb (ci\<lparr>ci_next_id := n, ci_services := svcs, ci_factories := ci_factories ci @ [fa]\<rparr>)"
proof -
  let ?fas = "ci_factories ci" and ?k = "actors_in (ci_factories ci)"
  have num: "numbered nb (ci_index ci) 0 ?fas" using ok by (simp add: initializer_ok_def)
  have "fa_id fa \<noteq> fa_id g" if g: "g \<in> set ?fas" for g
  proof (cases "fa_service g")
    case None
    note b = numbered_id(1) [OF num g None]
    show ?thesis
    proof (cases "fa_service fa")
      case None
      then show ?thesis using b numbered_id(1) [OF fa(1), of fa] by auto
    next
      case (Some sid)
      then have "service_id (fa_id fa) = sid" "unat sid \<le> unat nb"
        using numbered_id(2) [OF fa(1), of fa sid] by (simp_all add: ActorId_def)
      then show ?thesis using b by auto
    qed
  next
    case (Some sid)
    note b = numbered_id(2) [OF num g Some]
    have s: "sid \<in> set (ci_services ci)" using ok g Some by (auto simp: initializer_ok_def)
    have i: "service_id (fa_id g) = sid" using b by (simp add: ActorId_def)
    show ?thesis
    proof (cases "fa_service fa")
      case None
      then show ?thesis using b i numbered_id(1) [OF fa(1), of fa] by auto
    next
      case (Some sid')
      then have "service_id (fa_id fa) = sid'" using numbered_id(2) [OF fa(1), of fa sid'] by (simp add: ActorId_def)
      then show ?thesis using i s fa(2) Some by auto
    qed
  qed
  then have "distinct (map fa_id (?fas @ [fa]))" using ok by (auto simp: initializer_ok_def)
  moreover have "numbered nb (ci_index ci) 0 (?fas @ [fa])" using num fa(1) unfolding numbered_append by simp
  ultimately show ?thesis using ok n svcs unfolding initializer_ok_def by auto
qed

lemma addActor_ok:
  assumes ok: "initializer_ok nb ci" and svc: "\<forall>sid. svc = Some sid \<longrightarrow> 0 < sid \<and> sid \<le> nb"
    and r: "addActor svc defaults ty ctor ci = (i, ci')"
  shows "initializer_ok nb ci' \<and> ci_index ci' = ci_index ci \<and>
    (\<exists>gs. ci_factories ci' = ci_factories ci @ gs \<and> map fa_id gs = filter is_valid [i] \<and> (\<forall>g \<in> set gs. fa_ctor g = ctor))"
proof -
  let ?fa = "\<lambda>i. \<lparr>fa_id = i, fa_service = svc, fa_defaults = defaults, fa_type = ty, fa_ctor = ctor\<rparr>"
  define m where "m = unat nb + 1 + actors_in (ci_factories ci)"
  have m: "unat (ci_next_id ci) = m" using ok by (simp add: initializer_ok_def m_def)
  consider "i = not_found" "ci' = ci"
    | sid where "svc = Some sid" "sid \<notin> set (ci_services ci)" "i = ActorId sid (ci_index ci)"
      "ci' = ci\<lparr>ci_next_id := ci_next_id ci, ci_services := sid # ci_services ci, ci_factories := ci_factories ci @ [?fa i]\<rparr>"
    | "svc = None" "ci_next_id ci \<noteq> - 1" "i = ActorId (ci_next_id ci) (ci_index ci)"
      "ci' = ci\<lparr>ci_next_id := ci_next_id ci + 1, ci_services := ci_services ci, ci_factories := ci_factories ci @ [?fa i]\<rparr>"
    using r by (auto simp: addActor_def Let_def split: option.splits if_splits)
  then show ?thesis
  proof cases
    case 1
    then show ?thesis using ok not_found_invalid by (intro conjI exI [of _ "[]"]) simp_all
  next
    case (2 sid)
    have num: "numbered nb (ci_index ci) (actors_in (ci_factories ci)) [?fa i]" using 2 svc by simp
    have "initializer_ok nb ci'" unfolding 2(4)
      by (rule initializer_ok_add [OF ok num]) (use 2 m in \<open>auto simp: actors_in_def m_def\<close>)
    then show ?thesis using 2 numbered_valid [OF num] by simp
  next
    case 3
    have "m < kBits" using m unat_below [OF 3(2)] by simp
    moreover have "word_of_nat m = ci_next_id ci" using m [symmetric] by simp
    ultimately have num: "numbered nb (ci_index ci) (actors_in (ci_factories ci)) [?fa i]"
      using 3 by (simp add: m_def del: of_nat_add of_nat_Suc)
    have "initializer_ok nb ci'" unfolding 3(4)
      by (rule initializer_ok_add [OF ok num]) (use 3 m unat_inc [OF 3(2)] in \<open>auto simp: actors_in_def m_def\<close>)
    then show ?thesis using 3 numbered_valid [OF num] by simp
  qed
qed

lemma register_all_ok:
  assumes "initializer_ok nb ci" "\<forall>r \<in> set rs. \<forall>sid. fst r = Some sid \<longrightarrow> 0 < sid \<and> sid \<le> nb"
    and "register_all rs ci = (is, ci')"
  shows "initializer_ok nb ci' \<and> ci_index ci' = ci_index ci \<and>
    (\<exists>gs. ci_factories ci' = ci_factories ci @ gs \<and> map fa_id gs = filter is_valid is \<and>
      (\<forall>g \<in> set gs. \<exists>r \<in> set rs. fa_ctor g = snd (snd (snd r))))"
  using assms
proof (induction rs arbitrary: ci "is")
  case (Cons r rs)
  obtain svc d ty ctor where r: "r = (svc, d, ty, ctor)" by (cases r) auto
  obtain i ci1 where 1: "addActor svc d ty ctor ci = (i, ci1)" by fastforce
  obtain js where 2: "register_all rs ci1 = (js, ci')" "is = i # js"
    using Cons.prems(3) r 1 by (auto simp: Let_def split: prod.splits)
  have svc: "\<forall>sid. svc = Some sid \<longrightarrow> 0 < sid \<and> sid \<le> nb" using Cons.prems(2) r by simp
  from addActor_ok [OF Cons.prems(1) svc 1] obtain gs where g: "initializer_ok nb ci1" "ci_index ci1 = ci_index ci"
    "ci_factories ci1 = ci_factories ci @ gs" "map fa_id gs = filter is_valid [i]" "\<forall>g \<in> set gs. fa_ctor g = ctor" by blast
  have "\<forall>r \<in> set rs. \<forall>sid. fst r = Some sid \<longrightarrow> 0 < sid \<and> sid \<le> nb" using Cons.prems(2) by simp
  from Cons.IH [OF g(1) this 2(1)] obtain hs where h: "initializer_ok nb ci'" "ci_index ci' = ci_index ci1"
    "ci_factories ci' = ci_factories ci1 @ hs" "map fa_id hs = filter is_valid js"
    "\<forall>g \<in> set hs. \<exists>r \<in> set rs. fa_ctor g = snd (snd (snd r))" by blast
  have "map fa_id (gs @ hs) = filter is_valid is" using g(4) h(4) 2(2) by simp
  moreover have "\<forall>g \<in> set (gs @ hs). \<exists>r \<in> set (r # rs). fa_ctor g = snd (snd (snd r))" using g(5) h(5) r by auto
  ultimately show ?case using g(2,3) h(1-3) by (intro conjI exI [of _ "gs @ hs"]) simp_all
qed simp

text \<open>
  Service indices are unique and lie between 1 and the number of services, as long as fewer than 65535 are
  registered; so they never meet the ids of the pool.
\<close>

definition services_ok :: "(event_id \<times> service_id) list \<times> service_id \<Rightarrow> bool" where
  "services_ok reg \<longleftrightarrow> distinct (map snd (fst reg)) \<and> (\<forall>sid \<in> snd ` set (fst reg). 0 < sid \<and> sid \<le> snd reg)"

lemma registerIndex_ok:
  assumes ok: "services_ok reg" and nb: "snd reg \<noteq> - 1" and r: "registerIndex tag reg = (idx, reg')"
  shows "services_ok reg' \<and> map_of (fst reg') tag = Some idx \<and> 0 < idx \<and> idx \<le> snd reg' \<and> registerIndex tag reg' = (idx, reg')"
proof -
  obtain services n where reg: "reg = (services, n)" by fastforce
  have up: "n < n + 1" using unat_inc [of n] nb reg by (simp add: word_less_nat_alt)
  show ?thesis
  proof (cases "map_of services tag")
    case None
    have lt: "b < n + 1" if "(a, b) \<in> set services" for a b using that ok reg up by (force simp: services_ok_def)
    then have "(a, n + 1) \<notin> set services" "(a, b) \<in> set services \<longrightarrow> b \<le> n + 1" for a b by (auto intro: less_imp_le)
    moreover have "0 < n + 1" using unat_inc [of n] nb reg by (simp add: word_less_nat_alt)
    ultimately show ?thesis
      using None ok reg r up by (auto simp: services_ok_def registerIndex_def Let_def intro: less_imp_le)
  next
    case (Some i)
    then have "i \<in> snd ` set services" by (force dest: map_of_SomeD)
    then have "0 < i" "i \<le> n" using ok reg by (auto simp: services_ok_def)
    moreover have "idx = i" "reg' = (services, n)" using Some reg r by (auto simp: registerIndex_def)
    ultimately show ?thesis using Some ok reg by (simp add: registerIndex_def)
  qed
qed

text \<open>C6. The ids that \<open>addActor\<close> hands out before the start are those the actors have: when the core
  creates the registered actors, in their order, each gets from the pool, or as a service, exactly the id that was
  promised for it, and none is refused, however many actors and services were registered and whichever were
  rejected. This holds as long as the constructors themselves create no further actors.\<close>

theorem promised_ids_kept:
  assumes nb: "nb \<noteq> - 1" and svc: "\<forall>r \<in> set rs. \<forall>sid. fst r = Some sid \<longrightarrow> 0 < sid \<and> sid \<le> nb"
    and plain: "\<forall>r \<in> set rs. list_all (\<lambda>a. \<not> creates_actor a) (snd (snd (snd r)))"
    and reg: "register_all rs (CoreInitializer nb index) = (ids, ci)"
    and create: "create_actors E (ci_factories ci) (VirtualCore block buffer nb disposers asked now index eng) = Some (failed, c)"
  shows "\<not> failed \<and> map fst (rev (vc_actors c)) = filter is_valid ids"
proof -
  let ?c = "VirtualCore block buffer nb disposers asked now index eng"
  have "initializer_ok nb (CoreInitializer nb index :: 'a core_initializer)"
    using unat_inc [OF nb] by (simp add: initializer_ok_def CoreInitializer_def actors_in_def)
  from register_all_ok [OF this svc reg] obtain gs where g: "initializer_ok nb ci" "ci_index ci = index"
    "ci_factories ci = gs" "map fa_id gs = filter is_valid ids" "\<forall>g \<in> set gs. \<exists>r \<in> set rs. fa_ctor g = snd (snd (snd r))"
    by (auto simp: CoreInitializer_def)
  have nx: "next_ids nb index 0 ?c"
    using pool_init_correct [of "nb + 1"] unat_inc [OF nb] by (simp add: next_ids_def VirtualCore_def)
  have num: "numbered nb index 0 (ci_factories ci)" and d: "distinct (map fa_id (ci_factories ci))"
    using g(1,2) by (auto simp: initializer_ok_def)
  have pl: "\<forall>fa \<in> set (ci_factories ci). list_all (\<lambda>a. \<not> creates_actor a) (fa_ctor fa)" using g(3,5) plain by metis
  have a: "vc_actors ?c = []" by (simp add: VirtualCore_def)
  show ?thesis using create_actors_numbered [OF nx num pl _ create] d a g(3,4) by simp
qed

theorem promised_ids_kept_witness:
  "\<exists>ids ci c. register_all [(Some 1, False, 9, [])] (CoreInitializer 1 2 :: nat core_initializer) = (ids, ci) \<and>
     create_actors demo_world (ci_factories ci) demo_new_core = Some (False, c) \<and>
     map fst (rev (vc_actors c)) = filter is_valid ids \<and> ids = [ActorId 1 2]"
proof -
  let ?ci = "\<lparr>ci_index = 2, ci_next_id = 2, ci_affinity = core_of_list [2], ci_latency = 0,
     ci_factories = [demo_factory], ci_services = [1]\<rparr>"
  have r: "register_all [(Some 1, False, 9, [])] (CoreInitializer 1 2 :: nat core_initializer) = ([ActorId 1 2], ?ci)"
    by (simp add: addActor_def CoreInitializer_def demo_factory_def Let_def)
  have v: "is_valid (ActorId 1 2)" by code_simp
  obtain c where c: "create_actors demo_world (ci_factories ?ci) demo_new_core = Some (False, c)"
    using demo_create_actors by auto
  show ?thesis
    using r c promised_ids_kept [OF _ _ _ r c [unfolded demo_new_core_def]] by auto
qed

end
