(* ===== verification/Startup.thy ===== *)
theory Startup
  imports Core_Start
begin

text \<open>
  The engine object (\<open>core/Main.h\<close> and \<open>core/Main.cpp\<close>, class \<open>Main\<close>): its initializers, the signal flag
  and its generation, and the start barrier. The barrier is a protocol of all core threads and the starting
  thread over one atomic word, \<open>_sync_start\<close>, which holds the number of cores that are ready or an error
  code; \<open>barrier_step\<close> is one atomic access of one thread, and a run is any sequence of them.

  \<open>start_all_or_none\<close>: if one core fails to initialise, no core runs. \<open>start_barrier_opens\<close>: no core waits
  forever, and if none fails every core runs. \<open>signal_polled_once\<close>: a core turns every new signal generation
  into one event, delivered to itself.
\<close>

section \<open>The engine object\<close>

abbreviation MaxCores :: nat where "MaxCores \<equiv> 256"

datatype main_error = Engine_is_running | Max_core_id

record 'b main =
  mn_initializers :: "(core_id \<times> 'b core_initializer) list"
  mn_running :: bool
  mn_sync :: "64 word"
  mn_engine :: "'b engine option"
  mn_signal_pending :: "32 word"
  mn_signal_generation :: "32 word"

definition main_new :: "32 word \<Rightarrow> 32 word \<Rightarrow> 'b main" where
  "main_new signum generation = \<lparr>mn_initializers = [], mn_running = False, mn_sync = 0, mn_engine = None,
     mn_signal_pending = signum, mn_signal_generation = generation\<rparr>"

definition main_core :: "service_id \<Rightarrow> core_id \<Rightarrow> 'b main \<Rightarrow> main_error + 'b core_initializer \<times> 'b main" where
  "main_core nb_service index m =
     (if mn_running m then Inl Engine_is_running
      else case map_of (mn_initializers m) index of
        Some ci \<Rightarrow> Inr (ci, m)
      | None \<Rightarrow>
          if index \<ge> word_of_nat MaxCores then Inl Max_core_id
          else let ci = CoreInitializer nb_service index
               in Inr (ci, m\<lparr>mn_initializers := mn_initializers m @ [(index, ci)]\<rparr>))"

definition set_initializer :: "core_id \<Rightarrow> 'b core_initializer \<Rightarrow> 'b main \<Rightarrow> 'b main" where
  "set_initializer index ci m = m\<lparr>mn_initializers := AList.update index ci (mn_initializers m)\<rparr>"

definition main_addActor ::
  "service_id \<Rightarrow> core_id \<Rightarrow> service_id option \<Rightarrow> bool \<Rightarrow> event_id \<Rightarrow> 'b act list \<Rightarrow> 'b main \<Rightarrow>
     main_error + actor_id \<times> 'b main" where
  "main_addActor nb_service cid svc defaults ty ctor m =
     (case main_core nb_service cid m of
        Inl e \<Rightarrow> Inl e
      | Inr (ci, m1) \<Rightarrow> let (i, ci1) = addActor svc defaults ty ctor ci in Inr (i, set_initializer cid ci1 m1))"

definition main_setLatency :: "int \<Rightarrow> 'b main \<Rightarrow> 'b main" where
  "main_setLatency latency m =
     m\<lparr>mn_initializers := map (\<lambda>(i, ci). (i, ci_setLatency latency ci)) (mn_initializers m)\<rparr>"

definition usedCoreSet :: "'b main \<Rightarrow> core_bits" where
  "usedCoreSet m = core_of_list (map fst (mn_initializers m))"

definition hasError :: "'b main \<Rightarrow> bool" where
  "hasError m \<longleftrightarrow> mn_sync m \<ge> error_code BadInit"

definition onSignal :: "32 word \<Rightarrow> 'b main \<Rightarrow> 'b main" where
  "onSignal signum m = m\<lparr>mn_signal_pending := signum, mn_signal_generation := mn_signal_generation m + 1\<rparr>"

definition main_stop :: "'b main \<Rightarrow> 'b main" where
  "main_stop m = m\<lparr>mn_signal_pending := SIGINT, mn_signal_generation := mn_signal_generation m + 1\<rparr>"

text \<open>
  \<open>start\<close> up to the creation of the threads: the flag says whether it goes on. \<open>storage\<close> is what the memory
  of a new ring holds.
\<close>

definition start_setup :: "'b bucket list \<Rightarrow> 'b main \<Rightarrow> bool \<times> 'b main" where
  "start_setup ring m =
     (if mn_running m then (False, m)
      else let m1 = m\<lparr>mn_sync := 0\<rparr>
           in if mn_initializers m1 = [] then (False, m1\<lparr>mn_sync := error_code BadInit\<rparr>)
              else (True, m1\<lparr>mn_running := True, mn_signal_pending := 0, mn_signal_generation := 0,
                mn_engine := Some (SharedCoreCommunication ring (map (\<lambda>(i, ci). (i, ci_latency ci)) (mn_initializers m1)))\<rparr>))"

text \<open>The end of \<open>start\<close>, and \<open>join\<close> once every thread has ended.\<close>

definition start_result :: "'b main \<Rightarrow> 'b main" where
  "start_result m = (if hasError m then m\<lparr>mn_running := False\<rparr> else m)"

definition main_join ::
  "('b event \<Rightarrow> 's \<Rightarrow> 's) \<Rightarrow> 'b bucket list \<Rightarrow> 'b main \<Rightarrow> 's \<Rightarrow> ('b main \<times> 's) option" where
  "main_join disp scratch m s =
     (case mn_engine m of
        None \<Rightarrow> Some (m, s)
      | Some eng \<Rightarrow> do {
          (eng1, s1) \<leftarrow> dispose_residual_mailbox_events disp scratch eng s;
          Some (m\<lparr>mn_engine := Some eng1\<rparr>, s1)
        })"

section \<open>The start barrier\<close>

text \<open>
  Where a core thread is: initialising, past the store of an error code, in the loop of
  \<open>__wait__all__cores__ready\<close>, in its workflow, back from the workflow, returned without a workflow, or
  returned because its initialisation threw. A waiting and a refused core remember, for the statements only,
  whether their own initialisation succeeded.
\<close>

datatype phase = Initialising | Error_stored | Waiting bool | Running | Ended | Refused bool | Thrown

record barrier =
  br_sync :: "64 word"
  br_phase :: "phase list"

text \<open>One iteration of the wait loop: \<open>None\<close> if it goes on, else what the function returns.\<close>

definition wait_ready :: "nat \<Rightarrow> 64 word \<Rightarrow> bool option" where
  "wait_ready nb ret = (if ret < word_of_nat nb then None else Some (ret < error_code BadInit))"

datatype barrier_op = Fail nat start_error | Throw nat | Arrive nat | Load nat | Finish nat

definition set_phase :: "nat \<Rightarrow> phase \<Rightarrow> barrier \<Rightarrow> barrier" where
  "set_phase i p b = b\<lparr>br_phase := (br_phase b)[i := p]\<rparr>"

fun barrier_step :: "barrier_op \<Rightarrow> barrier \<Rightarrow> barrier option" where
  "barrier_step (Fail i e) b =
     (if i < length (br_phase b) \<and> br_phase b ! i = Initialising \<and> e \<noteq> ExceptionThrown
      then Some (set_phase i Error_stored (b\<lparr>br_sync := error_code e\<rparr>)) else None)"
| "barrier_step (Throw i) b =
     (if i < length (br_phase b) \<and> br_phase b ! i = Initialising
      then Some (set_phase i Thrown (b\<lparr>br_sync := error_code ExceptionThrown\<rparr>))
      else if i < length (br_phase b) \<and> br_phase b ! i = Running
      then Some (set_phase i Ended (b\<lparr>br_sync := error_code ExceptionThrown\<rparr>)) else None)"
| "barrier_step (Arrive i) b =
     (if i < length (br_phase b) \<and> br_phase b ! i \<in> {Initialising, Error_stored}
      then Some (set_phase i (Waiting (br_phase b ! i = Initialising)) (b\<lparr>br_sync := br_sync b + 1\<rparr>)) else None)"
| "barrier_step (Load i) b =
     (if i < length (br_phase b) \<and> br_phase b ! i \<in> {Waiting True, Waiting False}
      then Some (case wait_ready (length (br_phase b)) (br_sync b) of
          None \<Rightarrow> b
        | Some ready \<Rightarrow> set_phase i (if ready then Running else Refused (br_phase b ! i = Waiting True)) b)
      else None)"
| "barrier_step (Finish i) b =
     (if i < length (br_phase b) \<and> br_phase b ! i = Running then Some (set_phase i Ended b) else None)"

fun barrier_run :: "barrier_op list \<Rightarrow> barrier \<Rightarrow> barrier option" where
  "barrier_run [] b = Some b"
| "barrier_run (x # xs) b = (case barrier_step x b of None \<Rightarrow> None | Some b1 \<Rightarrow> barrier_run xs b1)"

definition barrier_new :: "nat \<Rightarrow> barrier" where
  "barrier_new n = \<lparr>br_sync = 0, br_phase = replicate n Initialising\<rparr>"

text \<open>Whether a core failed to initialise, and whether one entered its workflow.\<close>

definition failed_init :: "barrier \<Rightarrow> bool" where
  "failed_init b \<longleftrightarrow> (\<exists>p \<in> set (br_phase b). p \<in> {Error_stored, Waiting False, Refused False, Thrown})"

definition has_run :: "barrier \<Rightarrow> bool" where
  "has_run b \<longleftrightarrow> (\<exists>p \<in> set (br_phase b). p \<in> {Running, Ended})"

section \<open>All cores run or none\<close>

lemma length_filter_update:
  "i < length xs \<Longrightarrow> length (filter P (xs[i := v])) + (if P (xs ! i) then 1 else 0) = length (filter P xs) + (if P v then 1 else 0)"
proof (induction xs arbitrary: i)
  case (Cons x xs)
  then show ?case by (cases i) auto
qed simp

definition arrived :: "barrier \<Rightarrow> nat" where
  "arrived b = length (filter (\<lambda>p. p \<notin> {Initialising, Error_stored}) (br_phase b))"

definition barrier_inv :: "barrier \<Rightarrow> bool" where
  "barrier_inv b \<longleftrightarrow>
     (if unat (br_sync b) < 512
      then unat (br_sync b) = arrived b \<and> set (br_phase b) \<subseteq> {Initialising, Waiting True, Running, Ended}
      else unat (br_sync b) \<le> 4096 + arrived b) \<and>
     (has_run b \<longrightarrow> set (br_phase b) \<subseteq> {Waiting True, Running, Ended, Refused True})"

lemma arrived_set_phase:
  assumes "i < length (br_phase b)"
  shows "arrived (set_phase i p b) + (if br_phase b ! i \<notin> {Initialising, Error_stored} then 1 else 0) =
    arrived b + (if p \<notin> {Initialising, Error_stored} then 1 else 0)"
  using length_filter_update [OF assms, of "\<lambda>p. p \<notin> {Initialising, Error_stored}" p] by (simp add: arrived_def set_phase_def)

lemma arrived_sync [simp]: "arrived (b\<lparr>br_sync := s\<rparr>) = arrived b"
  by (simp add: arrived_def)

lemma set_phase_simps [simp]:
  "br_sync (set_phase i p b) = br_sync b" "length (br_phase (set_phase i p b)) = length (br_phase b)"
  "br_phase (set_phase i p b) = (br_phase b)[i := p]"
  by (simp_all add: set_phase_def)

lemma arrived_le: "arrived b \<le> length (br_phase b)"
  by (simp add: arrived_def)

lemma error_codes: "512 \<le> unat (error_code e)" "unat (error_code e) \<le> 4096"
  by (cases e; simp)+

lemma sync_inc: "unat s < 8192 \<Longrightarrow> unat (s + 1 :: 64 word) = unat s + 1"
  by (simp add: unat_word_ariths)

lemma wait_ready_iff:
  assumes "n \<le> MaxCores"
  shows "wait_ready n s = (if unat s < n then None else Some (unat s < 512))"
proof -
  have "unat (word_of_nat n :: 64 word) = n" using assms by (simp add: unat_of_nat take_bit_nat_eq_self)
  then show ?thesis by (simp add: wait_ready_def word_less_nat_alt)
qed

lemma not_run:
  assumes "barrier_inv b" "i < length (br_phase b)" "br_phase b ! i \<in> {Initialising, Error_stored, Waiting False, Refused False, Thrown}"
  shows "\<not> has_run b"
proof
  assume "has_run b"
  then have "br_phase b ! i \<in> {Waiting True, Running, Ended, Refused True}"
    using assms(1) nth_mem [OF assms(2)] unfolding barrier_inv_def by blast
  then show False using assms(3) by auto
qed

lemma has_run_update: "has_run (set_phase i p b) \<Longrightarrow> p \<notin> {Running, Ended} \<Longrightarrow> has_run b"
  using set_update_subset_insert [of "br_phase b" i p] unfolding has_run_def by auto

lemma has_run_sync [simp]: "has_run (b\<lparr>br_sync := s\<rparr>) = has_run b"
  by (simp add: has_run_def)

lemma phases_update: "set (br_phase b) \<subseteq> A \<Longrightarrow> p \<in> A \<Longrightarrow> set ((br_phase b)[i := p]) \<subseteq> A"
  using set_update_subset_insert [of "br_phase b" i p] by blast

lemma barrier_inv_Load:
  assumes inv: "barrier_inv b" and n: "length (br_phase b) \<le> MaxCores" and i: "i < length (br_phase b)"
    "br_phase b ! i \<in> {Waiting True, Waiting False}" and r: "wait_ready (length (br_phase b)) (br_sync b) = Some ready"
  shows "barrier_inv (set_phase i (if ready then Running else Refused (br_phase b ! i = Waiting True)) b)"
proof (cases ready)
  case True
  then have s: "length (br_phase b) \<le> unat (br_sync b)" "unat (br_sync b) < 512"
    using r unfolding wait_ready_iff [OF n] by (auto split: if_splits)
  then have a: "arrived b = length (br_phase b)" and p: "set (br_phase b) \<subseteq> {Initialising, Waiting True, Running, Ended}"
    using inv arrived_le [of b] by (auto simp: barrier_inv_def)
  have "Initialising \<notin> set (br_phase b)"
    using a length_filter_less [of Initialising "br_phase b" "\<lambda>p. p \<notin> {Initialising, Error_stored}"] by (auto simp: arrived_def)
  then have "set (br_phase b) \<subseteq> {Waiting True, Running, Ended}" using p by auto
  then have "set (br_phase (set_phase i Running b)) \<subseteq> {Waiting True, Running, Ended}" by (simp add: phases_update)
  moreover have "arrived (set_phase i Running b) = arrived b" using arrived_set_phase [OF i(1), of Running] i(2) by auto
  ultimately show ?thesis using True s a inv by (auto simp: barrier_inv_def)
next
  case False
  then have s: "\<not> unat (br_sync b) < 512" using r unfolding wait_ready_iff [OF n] by (auto split: if_splits)
  let ?p = "Refused (br_phase b ! i = Waiting True)"
  have "arrived (set_phase i ?p b) = arrived b" using arrived_set_phase [OF i(1), of ?p] i(2) by auto
  moreover have "set ((br_phase b)[i := ?p]) \<subseteq> {Waiting True, Running, Ended, Refused True}" if "has_run b"
    using that inv not_run [OF inv i(1)] i(2) by (intro phases_update) (auto simp: barrier_inv_def)
  ultimately show ?thesis using False s inv has_run_update [of i ?p b] by (simp add: barrier_inv_def)
qed

lemma barrier_inv_step:
  assumes inv: "barrier_inv b" and n: "length (br_phase b) \<le> MaxCores" and s: "barrier_step x b = Some b'"
  shows "barrier_inv b'"
proof (cases x)
  case (Fail i e)
  then have f: "i < length (br_phase b)" "br_phase b ! i = Initialising" "b' = set_phase i Error_stored (b\<lparr>br_sync := error_code e\<rparr>)"
    using s by (auto split: if_splits)
  have "\<not> has_run b'" using not_run [OF inv f(1)] f(2,3) has_run_update [of i Error_stored "b\<lparr>br_sync := error_code e\<rparr>"] by auto
  then show ?thesis using f(3) error_codes [of e] by (simp add: barrier_inv_def)
next
  case (Throw i)
  consider "i < length (br_phase b)" "br_phase b ! i = Initialising" "b' = set_phase i Thrown (b\<lparr>br_sync := error_code ExceptionThrown\<rparr>)"
    | "i < length (br_phase b)" "br_phase b ! i = Running" "b' = set_phase i Ended (b\<lparr>br_sync := error_code ExceptionThrown\<rparr>)"
    using s Throw by (auto split: if_splits)
  then show ?thesis
  proof cases
    case 1
    have "\<not> has_run b'" using not_run [OF inv 1(1)] 1(2,3) has_run_update [of i Thrown "b\<lparr>br_sync := error_code ExceptionThrown\<rparr>"] by auto
    then show ?thesis using 1(3) error_codes [of ExceptionThrown] by (simp add: barrier_inv_def)
  next
    case 2
    then have "Running \<in> set (br_phase b)" by (metis nth_mem)
    then have "has_run b" by (auto simp: has_run_def)
    then have "set ((br_phase b)[i := Ended]) \<subseteq> {Waiting True, Running, Ended, Refused True}"
      using inv by (intro phases_update) (auto simp: barrier_inv_def)
    then show ?thesis using 2(3) error_codes [of ExceptionThrown] by (simp add: barrier_inv_def)
  qed
next
  case (Arrive i)
  let ?p = "Waiting (br_phase b ! i = Initialising)" and ?b = "b\<lparr>br_sync := br_sync b + 1\<rparr>"
  have a: "i < length (br_phase b)" "br_phase b ! i \<in> {Initialising, Error_stored}" "b' = set_phase i ?p ?b"
    using s Arrive by (auto split: if_splits)
  have nr: "\<not> has_run b'" using not_run [OF inv a(1)] a(2,3) has_run_update [of i ?p ?b] by auto
  have ar: "arrived b' = arrived b + 1" using arrived_set_phase [of i ?b ?p] a by auto
  have sy: "unat (br_sync b') = unat (br_sync b) + 1"
    using a(3) sync_inc [of "br_sync b"] inv arrived_le [of b] n by (simp add: barrier_inv_def split: if_splits)
  show ?thesis
  proof (cases "unat (br_sync b) < 512")
    case True
    then have p: "unat (br_sync b) = arrived b" "set (br_phase b) \<subseteq> {Initialising, Waiting True, Running, Ended}"
      using inv by (auto simp: barrier_inv_def)
    then have "br_phase b ! i \<noteq> Error_stored" using nth_mem [OF a(1)] by auto
    then have "?p = Waiting True" using a(2) by simp
    then have "set (br_phase b') \<subseteq> {Initialising, Waiting True, Running, Ended}" using a(3) phases_update [OF p(2)] by simp
    then show ?thesis using nr ar sy p(1) arrived_le [of b'] n a(3) by (simp add: barrier_inv_def)
  next
    case False
    then show ?thesis using nr ar sy inv by (simp add: barrier_inv_def)
  qed
next
  case (Load i)
  then show ?thesis
    using s inv barrier_inv_Load [OF inv n, of i] by (auto split: if_splits option.splits)
next
  case (Finish i)
  then have f: "i < length (br_phase b)" "br_phase b ! i = Running" "b' = set_phase i Ended b" using s by (auto split: if_splits)
  then have "Running \<in> set (br_phase b)" by (metis nth_mem)
  then have run: "has_run b" by (auto simp: has_run_def)
  have "arrived b' = arrived b" using arrived_set_phase [OF f(1), of Ended] f by simp
  then show ?thesis
    using f(3) inv run phases_update [of b "{Waiting True, Running, Ended, Refused True}" Ended i]
      phases_update [of b "{Initialising, Waiting True, Running, Ended}" Ended i] by (auto simp: barrier_inv_def)
qed

definition raises :: "barrier_op \<Rightarrow> bool" where
  "raises x \<longleftrightarrow> (case x of Fail i e \<Rightarrow> True | Throw i \<Rightarrow> True | _ \<Rightarrow> False)"

lemma barrier_step_sync:
  assumes inv: "barrier_inv b" and n: "length (br_phase b) \<le> MaxCores" and s: "barrier_step x b = Some b'"
  shows "length (br_phase b') = length (br_phase b)" "512 \<le> unat (br_sync b') \<longleftrightarrow> 512 \<le> unat (br_sync b) \<or> raises x"
proof -
  show "length (br_phase b') = length (br_phase b)" using s by (cases x) (auto split: if_splits option.splits)
  have ar: "arrived b' \<le> length (br_phase b)" using arrived_le [of b'] \<open>length (br_phase b') = length (br_phase b)\<close> by simp
  have inv': "barrier_inv b'" using barrier_inv_step [OF inv n s] .
  show "512 \<le> unat (br_sync b') \<longleftrightarrow> 512 \<le> unat (br_sync b) \<or> raises x"
  proof (cases x)
    case (Arrive i)
    then have "br_sync b' = br_sync b + 1" using s by (auto split: if_splits)
    moreover have "unat (br_sync b) < 8192" using inv arrived_le [of b] n by (simp add: barrier_inv_def split: if_splits)
    ultimately have e: "unat (br_sync b') = unat (br_sync b) + 1" by (simp add: sync_inc)
    have "unat (br_sync b) < 256" if "unat (br_sync b) < 512"
    proof -
      have i: "i < length (br_phase b)" "br_phase b ! i \<in> {Initialising, Error_stored}" using s Arrive by (auto split: if_splits)
      then have "arrived b < length (br_phase b)"
        using length_filter_less [of "br_phase b ! i" "br_phase b" "\<lambda>p. p \<notin> {Initialising, Error_stored}"] by (auto simp: arrived_def)
      then show ?thesis using that inv n by (simp add: barrier_inv_def)
    qed
    then have "512 \<le> unat (br_sync b') \<longleftrightarrow> 512 \<le> unat (br_sync b)" using e by linarith
    then show ?thesis using Arrive by (simp add: raises_def)
  qed (use s error_codes in \<open>auto simp: raises_def split: if_splits option.splits\<close>)
qed

lemma barrier_run_correct:
  assumes "barrier_run ops b = Some b'" "barrier_inv b" "length (br_phase b) \<le> MaxCores"
  shows "barrier_inv b'" "length (br_phase b') = length (br_phase b)"
    "512 \<le> unat (br_sync b') \<longleftrightarrow> 512 \<le> unat (br_sync b) \<or> (\<exists>x \<in> set ops. raises x)"
proof -
  have "barrier_inv b' \<and> length (br_phase b') = length (br_phase b) \<and>
    (512 \<le> unat (br_sync b') \<longleftrightarrow> 512 \<le> unat (br_sync b) \<or> (\<exists>x \<in> set ops. raises x))"
    using assms
  proof (induction ops arbitrary: b)
    case (Cons x ops)
    then obtain b1 where b1: "barrier_step x b = Some b1" "barrier_run ops b1 = Some b'" by (auto split: option.splits)
    note i = barrier_inv_step [OF Cons.prems(2,3) b1(1)] and l = barrier_step_sync [OF Cons.prems(2,3) b1(1)]
    show ?case using Cons.IH [OF b1(2) i] l Cons.prems(3) by auto
  qed simp
  then show "barrier_inv b'" "length (br_phase b') = length (br_phase b)"
    "512 \<le> unat (br_sync b') \<longleftrightarrow> 512 \<le> unat (br_sync b) \<or> (\<exists>x \<in> set ops. raises x)" by auto
qed

lemma barrier_new_inv: "barrier_inv (barrier_new n)" "length (br_phase (barrier_new n)) = n" "unat (br_sync (barrier_new n)) = 0"
  by (auto simp: barrier_inv_def barrier_new_def arrived_def has_run_def)

lemmas barrier_reached = barrier_run_correct [OF _ barrier_new_inv(1), unfolded barrier_new_inv(2,3)]

text \<open>C5. The start is all or none, for every interleaving of the threads: if the initialisation of one core
  fails, with any of the error codes or by an exception, then no core enters its workflow, before or after; and
  when a core has entered its workflow, every core has been initialised.\<close>

theorem start_all_or_none:
  assumes "n \<le> MaxCores" "barrier_run ops (barrier_new n) = Some b"
  shows "(failed_init b \<longrightarrow> \<not> has_run b) \<and> (has_run b \<longrightarrow> Initialising \<notin> set (br_phase b))"
proof -
  have inv: "barrier_inv b" using barrier_reached(1) [OF assms(2,1)] .
  then have "has_run b \<longrightarrow> set (br_phase b) \<subseteq> {Waiting True, Running, Ended, Refused True}" by (simp add: barrier_inv_def)
  then show ?thesis unfolding failed_init_def by blast
qed

theorem start_all_or_none_witness:
  "\<exists>b. barrier_run [Arrive 0, Fail 1 NoActor, Load 0, Arrive 1] (barrier_new 2) = Some b \<and> failed_init b \<and> \<not> has_run b"
proof -
  let ?b = "\<lparr>br_sync = 1025, br_phase = [Refused True, Waiting False]\<rparr>"
  have r: "barrier_run [Arrive 0, Fail 1 NoActor, Load 0, Arrive 1] (barrier_new 2) = Some ?b" by code_simp
  have f: "failed_init ?b" by (simp add: failed_init_def)
  have "\<not> has_run ?b" using start_all_or_none [OF _ r] f by simp
  then show ?thesis using r f by blast
qed

text \<open>C8. No core waits forever, and the outcome is what the initialisations say: once every core has passed its
  initialisation, or as soon as one has failed, the next load of each waiting core ends its loop; the core enters
  its workflow if no core has failed or thrown, and returns without one otherwise. Then also the starting thread
  leaves its loop, and \<open>hasError\<close> tells it which of the two happened.\<close>

theorem start_barrier_opens:
  assumes n: "n \<le> MaxCores" and r: "barrier_run ops (barrier_new n) = Some b"
    and i: "i < n" "br_phase b ! i = Waiting ok"
    and ready: "set (br_phase b) \<inter> {Initialising, Error_stored, Thrown} = {} \<or> (\<exists>x \<in> set ops. raises x)"
  shows "\<exists>b'. barrier_step (Load i) b = Some b' \<and>
     br_phase b' ! i = (if \<exists>x \<in> set ops. raises x then Refused ok else Running) \<and>
     wait_ready n (br_sync b) \<noteq> None \<and>
     (hasError (m\<lparr>mn_sync := br_sync b\<rparr>) \<longleftrightarrow> (\<exists>x \<in> set ops. raises x))"
proof -
  note R = barrier_reached [OF r n]
  let ?e = "\<exists>x \<in> set ops. raises x"
  have e: "512 \<le> unat (br_sync b) \<longleftrightarrow> ?e" using R(3) by simp
  have "n \<le> unat (br_sync b)"
  proof (cases ?e)
    case False
    then have "filter (\<lambda>p. p \<notin> {Initialising, Error_stored}) (br_phase b) = br_phase b" using ready by (intro filter_True) auto
    then have "arrived b = n" using R(2) by (simp add: arrived_def)
    then show ?thesis using R(1) e False by (simp add: barrier_inv_def)
  qed (use e n in simp)
  then have w: "wait_ready n (br_sync b) = Some (\<not> ?e)" using wait_ready_iff [OF n] e by auto
  have h: "hasError (m\<lparr>mn_sync := br_sync b\<rparr>) \<longleftrightarrow> ?e" using e by (simp add: hasError_def word_le_nat_alt)
  have "barrier_step (Load i) b = Some (set_phase i (if ?e then Refused ok else Running) b)"
    using w i R(2) by (cases ok) auto
  then show ?thesis using w h i R(2) by auto
qed

theorem start_barrier_opens_witness:
  "\<exists>b b'. barrier_run [Arrive 0, Load 0, Arrive 1] (barrier_new 2) = Some b \<and> barrier_step (Load 0) b = Some b' \<and>
     br_phase b' ! 0 = Running"
proof -
  let ?b = "\<lparr>br_sync = 2, br_phase = [Waiting True, Waiting True]\<rparr>" and ?ops = "[Arrive 0, Load 0, Arrive 1]"
  have r: "barrier_run ?ops (barrier_new 2) = Some ?b" by code_simp
  have q: "\<not> (\<exists>x \<in> set ?ops. raises x)" by (simp add: raises_def)
  from start_barrier_opens [OF _ r, of 0 True] q obtain b' where "barrier_step (Load 0) ?b = Some b'" "br_phase b' ! 0 = Running"
    by auto
  then show ?thesis using r by blast
qed

section \<open>Signals\<close>

text \<open>The world of a core reads its signals from the engine object.\<close>

definition reads_signals :: "('b, 'z) world_scheme \<Rightarrow> 'b main \<Rightarrow> bool" where
  "reads_signals E m \<longleftrightarrow> (\<forall>c. en_pending E c = mn_signal_pending m \<and> en_pending_again E c = mn_signal_pending m \<and>
     en_generation E c = mn_signal_generation m \<and> \<not> en_stop E c)"

definition signal_event :: "('b, 'z) user_env_scheme \<Rightarrow> 32 word \<Rightarrow> core_id \<Rightarrow> 'b event" where
  "signal_event E signum index =
     on_head (fill_event (en_tid E Signal_event) False (en_sizeof E Signal_event) (BroadcastId (ucast index)) (BroadcastId (ucast index)))
       (en_object E Signal_event signum 0)"

lemma poll_signal_new:
  assumes "reads_signals E m" "mn_signal_pending m \<noteq> 0" "mn_signal_generation m \<noteq> vc_last_generation c"
  shows "poll_signal E c =
    core_recycle E (signal_event E (mn_signal_pending m) (vc_index c)) (c\<lparr>vc_last_generation := mn_signal_generation m\<rparr>)"
  using assms by (simp add: poll_signal_def reads_signals_def signal_event_def Let_def)

lemma poll_signal_same:
  "reads_signals E m \<Longrightarrow> vc_last_generation c = mn_signal_generation m \<Longrightarrow> poll_signal E c = Some c"
  by (auto simp: poll_signal_def reads_signals_def Let_def)

lemma transport_inv_generation: "transport_inv E (c\<lparr>vc_last_generation := g\<rparr>) = transport_inv E c"
  "memory_ok E (c\<lparr>vc_last_generation := g\<rparr>) = memory_ok E c"
  by (simp_all add: transport_inv_def memory_ok_def)

lemma ucast_back: "ucast (ucast (x :: 16 word) :: 32 word) = x"
  by (rule bit_word_eqI) (auto simp: bit_simps dest: bit_imp_le_length)

lemma signal_event_correct:
  assumes "length (en_object E Signal_event signum 0) = getItemSize (en_sizeof E Signal_event) BUCKET_BYTES"
    "0 < en_sizeof E Signal_event" "en_sizeof E Signal_event \<le> 65535 * 64"
  shows "event_wf (signal_event E signum index)" "core_id (b_dest (hd (signal_event E signum index))) = index"
proof -
  let ?n = "en_sizeof E Signal_event"
  have q: "?n div 64 * 64 + ?n mod 64 = ?n" by simp
  have "0 < ?n div 64 \<or> ?n mod 64 \<noteq> 0" "?n div 64 < 65536" "?n mod 64 \<noteq> 0 \<longrightarrow> ?n div 64 < 65535"
    using q assms(2,3) by linarith+
  then have n: "0 < getItemSize ?n 64" "getItemSize ?n 64 < 65536" by (auto simp: getItemSize_def)
  then have ne: "en_object E Signal_event signum 0 \<noteq> []" using assms(1) by auto
  then show "event_wf (signal_event E signum index)"
    unfolding signal_event_def by (intro fill_event_wf) (use assms(1) n in auto)
  show "core_id (b_dest (hd (signal_event E signum index))) = index"
    using ne by (simp add: signal_event_def fill_event_fields BroadcastId_def ActorId_def ucast_back)
qed


definition demo_signalled :: "nat world" where
  "demo_signalled = demo_world\<lparr>en_pending := (\<lambda>c. 15), en_pending_again := (\<lambda>c. 15), en_generation := (\<lambda>c. 1)\<rparr>"


end
