(* ===== verification/Uri.thy ===== *)
theory Uri
  imports Uri_Ports "HOL-Library.Char_ord" "HOL-Library.AList"
begin

text \<open>
  URIs (\<open>io/uri.h\<close> and \<open>io/uri.cpp\<close>): character classes, percent encoding, parsing into components, query
  parameters and path normalisation. A scan of the parser from one position to the next stop character is
  \<^const>\<open>takeWhile\<close>, and the position after it the rest of the string.

  Decoding inverts encoding; parsing a URI put together from its components gives the components back;
  the query parameters are the non-empty parts between ampersands, under lower-case names; and a
  normalised path has no dot segments left that could be removed.
\<close>

section \<open>Character classes\<close>

definition is_digit :: "char \<Rightarrow> bool" where
  "is_digit c \<longleftrightarrow> CHR ''0'' \<le> c \<and> c \<le> CHR ''9''"

definition isalpha :: "char \<Rightarrow> bool" where
  "isalpha c \<longleftrightarrow> CHR ''A'' \<le> c \<and> c \<le> CHR ''Z'' \<or> CHR ''a'' \<le> c \<and> c \<le> CHR ''z''"

definition is_alnum :: "char \<Rightarrow> bool" where
  "is_alnum c \<longleftrightarrow> CHR ''0'' \<le> c \<and> c \<le> CHR ''9'' \<or> CHR ''A'' \<le> c \<and> c \<le> CHR ''Z'' \<or> CHR ''a'' \<le> c \<and> c \<le> CHR ''z''"

definition is_unreserved :: "char \<Rightarrow> bool" where
  "is_unreserved c \<longleftrightarrow> is_alnum c \<or> c \<in> set ''-._~''"

definition is_gen_delim :: "char \<Rightarrow> bool" where
  "is_gen_delim c \<longleftrightarrow> c \<in> set '':/?#[]@''"

definition is_sub_delim :: "char \<Rightarrow> bool" where
  "is_sub_delim c \<longleftrightarrow> c = CHR 0x27 \<or> c \<in> set ''!$&()*+,;=''"

definition is_reserved :: "char \<Rightarrow> bool" where
  "is_reserved c \<longleftrightarrow> is_gen_delim c \<or> is_sub_delim c"

definition is_scheme_character :: "char \<Rightarrow> bool" where
  "is_scheme_character c \<longleftrightarrow> is_alnum c \<or> c \<in> set ''+-.''"

definition is_user_info_character :: "char \<Rightarrow> bool" where
  "is_user_info_character c \<longleftrightarrow> is_unreserved c \<or> is_sub_delim c \<or> c \<in> set ''%:''"

definition is_authority_character :: "char \<Rightarrow> bool" where
  "is_authority_character c \<longleftrightarrow> is_unreserved c \<or> is_sub_delim c \<or> c \<in> set ''%@:[]''"

definition is_path_character :: "char \<Rightarrow> bool" where
  "is_path_character c \<longleftrightarrow> is_unreserved c \<or> is_sub_delim c \<or> c \<in> set ''%/:@''"

definition is_query_character :: "char \<Rightarrow> bool" where
  "is_query_character c \<longleftrightarrow> is_path_character c \<or> c = CHR ''?''"

definition is_fragment_character :: "char \<Rightarrow> bool" where
  "is_fragment_character c \<longleftrightarrow> is_query_character c"

definition is_hex_digit :: "char \<Rightarrow> bool" where
  "is_hex_digit c \<longleftrightarrow> CHR ''0'' \<le> c \<and> c \<le> CHR ''9'' \<or> CHR ''a'' \<le> c \<and> c \<le> CHR ''f'' \<or> CHR ''A'' \<le> c \<and> c \<le> CHR ''F''"

definition hex_value :: "char \<Rightarrow> nat" where
  "hex_value c =
     (if CHR ''0'' \<le> c \<and> c \<le> CHR ''9'' then of_char c - of_char (CHR ''0'')
      else if CHR ''a'' \<le> c \<and> c \<le> CHR ''f'' then of_char c - of_char (CHR ''a'') + 10
      else if CHR ''A'' \<le> c \<and> c \<le> CHR ''F'' then of_char c - of_char (CHR ''A'') + 10
      else 0)"

definition hex :: string where
  "hex = ''0123456789ABCDEF''"

text \<open>The table of hexadecimal values, \<open>-1\<close> for other characters.\<close>

definition tbl :: "int list" where
  "tbl = replicate 48 (- 1) @ [0, 1, 2, 3, 4, 5, 6, 7, 8, 9] @ replicate 7 (- 1) @ [10, 11, 12, 13, 14, 15] @
     replicate 26 (- 1) @ [10, 11, 12, 13, 14, 15] @ replicate 153 (- 1)"

section \<open>Percent encoding\<close>

fun decode :: "string \<Rightarrow> string" where
  "decode [] = []"
| "decode (c # cs) =
     (case cs of
        a # b # rest \<Rightarrow>
          if c = CHR ''%''
          then (if is_hex_digit a \<and> is_hex_digit b then char_of (hex_value a * 16 + hex_value b) # decode rest
                else CHR ''%'' # decode cs)
          else (if c = CHR ''+'' then CHR '' '' else c) # decode cs
      | _ \<Rightarrow> (if c = CHR ''+'' then CHR '' '' else c) # decode cs)"

definition escape :: "char \<Rightarrow> string" where
  "escape c = [CHR ''%'', hex ! (of_char c div 16 mod 16), hex ! (of_char c mod 16)]"

definition encode :: "string \<Rightarrow> string" where
  "encode input =
     concat (map (\<lambda>c. if is_unreserved c then [c] else if c = CHR '' '' then ''+'' else escape c) input)"

text \<open>The variants of the header, over iterators: decoding stops at a malformed escape.\<close>

fun decode_it :: "string \<Rightarrow> string" where
  "decode_it [] = []"
| "decode_it (c # cs) =
     (if c = CHR ''%''
      then (case cs of
              a # b # rest \<Rightarrow>
                let v1 = tbl ! of_char a; v2 = tbl ! of_char b
                in if v1 < 0 \<or> v2 < 0 then [] else char_of (nat v1 * 16 + nat v2) # decode_it rest
            | _ \<Rightarrow> [])
      else c # decode_it cs)"

definition encode_it :: "string \<Rightarrow> string" where
  "encode_it input = concat (map (\<lambda>c. if \<not> is_unreserved c \<and> \<not> is_reserved c then escape c else [c]) input)"

section \<open>Scans\<close>

lemma span_all: "(\<And>c. c \<in> set s \<Longrightarrow> P c) \<Longrightarrow> takeWhile P s = s" "(\<And>c. c \<in> set s \<Longrightarrow> P c) \<Longrightarrow> dropWhile P s = []"
  by (auto simp: takeWhile_eq_all_conv dropWhile_eq_Nil_conv)

lemma span_stop:
  "(\<And>c. c \<in> set s \<Longrightarrow> P c) \<Longrightarrow> \<not> P d \<Longrightarrow> takeWhile P (s @ d # t) = s"
  "(\<And>c. c \<in> set s \<Longrightarrow> P c) \<Longrightarrow> \<not> P d \<Longrightarrow> dropWhile P (s @ d # t) = d # t"
  by (induction s) auto

section \<open>Round trip of percent encoding\<close>

lemma hex_digits:
  "n < 16 \<Longrightarrow> is_hex_digit (hex ! n) \<and> hex_value (hex ! n) = n \<and> tbl ! of_char (hex ! n) = int n"
proof -
  assume "n < 16"
  moreover have "list_all (\<lambda>n. is_hex_digit (hex ! n) \<and> hex_value (hex ! n) = n) [0..<16]" by code_simp
  moreover have "list_all (\<lambda>n. tbl ! of_char (hex ! n) = int n) [0..<16]" by code_simp
  ultimately show ?thesis by (simp add: list_all_iff)
qed

lemma escape_digits: "char_of (of_char c div 16 mod 16 * 16 + of_char c mod 16 :: nat) = c"
proof -
  have "(of_char c :: nat) < 256" by (metis of_char_mod_256 mod_less_divisor zero_less_numeral)
  then have "(of_char c :: nat) div 16 mod 16 * 16 + of_char c mod 16 = of_char c" by (simp add: div_less_iff_less_mult)
  then show ?thesis by simp
qed

lemma decode_escape [simp]: "decode (escape c @ s) = c # decode s" "decode_it (escape c @ s) = c # decode_it s"
  using hex_digits [of "of_char c div 16 mod 16"] hex_digits [of "of_char c mod 16"] escape_digits [of c]
  by (simp_all add: escape_def)

lemma decode_plain [simp]: "c \<noteq> CHR ''%'' \<Longrightarrow> decode (c # s) = (if c = CHR ''+'' then CHR '' '' else c) # decode s"
  by (auto split: list.split)

lemma unreserved_plain: "is_unreserved c \<Longrightarrow> c \<notin> set ''%+''"
  by (auto simp: is_unreserved_def is_alnum_def less_eq_char_def)

lemma reserved_plain: "is_reserved c \<Longrightarrow> c \<noteq> CHR ''%''"
  by (auto simp: is_reserved_def is_gen_delim_def is_sub_delim_def)

lemma decode_encode: "decode (encode s) = s"
proof (induction s)
  case (Cons c s)
  have "decode (encode (c # s)) = c # decode (encode s)"
    using unreserved_plain [of c] by (auto simp: encode_def simp del: decode.simps)
  then show ?case using Cons by simp
qed (simp add: encode_def)

lemma decode_it_encode_it: "decode_it (encode_it s) = s"
proof (induction s)
  case (Cons c s)
  then show ?case
    using unreserved_plain [of c] reserved_plain [of c] by (cases "\<not> is_unreserved c \<and> \<not> is_reserved c") (auto simp: encode_it_def)
qed (simp add: encode_it_def)

text \<open>C33. Decoding a percent-encoded string gives the string back, for every string of bytes: for the encoder of
  query parameters, which writes a space as a plus sign and escapes everything but unreserved characters, and for
  the one that leaves reserved characters alone.\<close>

theorem uri_decode_encode: "decode (encode s) = s \<and> decode_it (encode_it s) = s"
  by (simp add: decode_encode decode_it_encode_it)

section \<open>The case-insensitive map\<close>

text \<open>
  \<open>icase_basic_map\<close> of \<open>system/container/unordered_map.h\<close>, for any value type: every key is converted to lower
  case before it reaches the underlying map.
\<close>

definition charToLower :: "char \<Rightarrow> char" where
  "charToLower c = (if CHR ''A'' \<le> c \<and> c \<le> CHR ''Z'' then char_of (of_char c + 32 :: nat) else c)"

definition to_lower :: "string \<Rightarrow> string" where
  "to_lower str = map charToLower str"

definition icase_find :: "string \<Rightarrow> (string \<times> 'v) list \<Rightarrow> 'v option" where
  "icase_find key m = map_of m (to_lower key)"

definition icase_has :: "string \<Rightarrow> (string \<times> 'v) list \<Rightarrow> bool" where
  "icase_has key m \<longleftrightarrow> icase_find key m \<noteq> None"

definition icase_emplace :: "string \<Rightarrow> 'v \<Rightarrow> (string \<times> 'v) list \<Rightarrow> bool \<times> (string \<times> 'v) list" where
  "icase_emplace key v m =
     (case map_of m (to_lower key) of Some _ \<Rightarrow> (False, m) | None \<Rightarrow> (True, (to_lower key, v) # m))"

definition icase_erase :: "string \<Rightarrow> (string \<times> 'v) list \<Rightarrow> (string \<times> 'v) list" where
  "icase_erase key m = AList.delete (to_lower key) m"

text \<open>\<open>m[key]\<close>, default-constructing a missing value, and an update of the value through the reference.\<close>

definition icase_at :: "'v \<Rightarrow> string \<Rightarrow> ('v \<Rightarrow> 'v) \<Rightarrow> (string \<times> 'v) list \<Rightarrow> (string \<times> 'v) list" where
  "icase_at new key f m =
     AList.update (to_lower key) (f (case map_of m (to_lower key) of Some v \<Rightarrow> v | None \<Rightarrow> new)) m"

lemma icase_find_emplace:
  "icase_find k (snd (icase_emplace k' v m)) = (if to_lower k = to_lower k' \<and> \<not> icase_has k m then Some v else icase_find k m)"
  by (auto simp: icase_find_def icase_emplace_def icase_has_def split: option.split)

lemma icase_find_erase: "icase_find k (icase_erase k' m) = (if to_lower k = to_lower k' then None else icase_find k m)"
  by (simp add: icase_find_def icase_erase_def delete_conv')

lemma icase_find_at:
  "icase_find k (icase_at new k' f m) =
     (if to_lower k = to_lower k' then Some (f (case icase_find k m of Some v \<Rightarrow> v | None \<Rightarrow> new)) else icase_find k m)"
  by (simp add: icase_find_def icase_at_def update_conv')

section \<open>Parsing\<close>

datatype address_family = AF_INET | AF_INET6 | AF_UNIX

record uri =
  u_af :: address_family
  u_valid :: bool
  u_source :: string
  u_scheme :: string
  u_user_info :: string
  u_host :: string
  u_port :: string
  u_path :: string
  u_raw_queries :: string
  u_fragment :: string
  u_queries :: "(string \<times> string list) list"

lemma after_separator:
  assumes "dropWhile P s \<noteq> []"
  shows "length (drop 1 (dropWhile Q (dropWhile P s))) < length s"
proof -
  have "length (dropWhile Q (dropWhile P s)) \<le> length s"
    using length_dropWhile_le [of Q "dropWhile P s"] length_dropWhile_le [of P s] by simp
  moreover have "0 < length s" using assms by (cases s) auto
  ultimately show ?thesis unfolding length_drop by linarith
qed

text \<open>The loop over the parameters of a query: decoded names and values, in their order.\<close>

function query_parameters :: "string \<Rightarrow> (string \<times> string) list" where
  "query_parameters s =
     (let s1 = dropWhile (\<lambda>c. c = CHR ''&'') s
      in if s1 = [] then []
         else let param = takeWhile (\<lambda>c. c \<noteq> CHR ''&'') s1;
                  rest = dropWhile (\<lambda>c. c \<noteq> CHR ''&'') s1;
                  key = takeWhile (\<lambda>c. c \<noteq> CHR ''='') param;
                  value = drop 1 (dropWhile (\<lambda>c. c \<noteq> CHR ''='') param)
              in (decode key, decode value) # query_parameters (drop 1 rest))"
  by pat_completeness auto
termination by (relation "measure length") (simp_all add: after_separator [simplified])

declare query_parameters.simps [simp del]

definition parse_query_parameters :: "string \<Rightarrow> (string \<times> string list) list \<Rightarrow> (string \<times> string list) list" where
  "parse_query_parameters s m = fold (\<lambda>(key, value). icase_at [] key (\<lambda>vs. vs @ [value])) (query_parameters s) m"

text \<open>
  What the scans of \<open>parse\<close> find: the scheme and the position after its colon; the user information, host and
  port of an authority, \<open>None\<close> for an invalid one; the raw components.
\<close>

definition split_scheme :: "string \<Rightarrow> string option \<times> string" where
  "split_scheme s =
     (case s of
        [] \<Rightarrow> (None, s)
      | c # cs \<Rightarrow>
          if isalpha c
          then (case dropWhile is_scheme_character cs of
                  d # rest \<Rightarrow> if d = CHR '':'' then (Some (c # takeWhile is_scheme_character cs), rest) else (None, s)
                | [] \<Rightarrow> (None, s))
          else (None, s))"

definition split_host_port :: "string \<Rightarrow> (string \<times> string option) option" where
  "split_host_port hp =
     (if hp \<noteq> [] \<and> hd hp = CHR ''[''
      then let inside = takeWhile (\<lambda>c. c \<noteq> CHR '']'') (tl hp); close = dropWhile (\<lambda>c. c \<noteq> CHR '']'') (tl hp)
           in if close = [] then None
              else let host = CHR ''['' # inside @ '']''; after = tl close
                   in if after \<noteq> [] \<and> hd after = CHR '':''
                      then (if list_all is_digit (tl after) then Some (host, Some (tl after)) else None)
                      else Some (host, None)
      else let digits = rev (takeWhile (\<lambda>c. c \<noteq> CHR '':'') (rev hp)); before = dropWhile (\<lambda>c. c \<noteq> CHR '':'') (rev hp)
           in if before \<noteq> [] \<and> tl before \<noteq> [] \<and> digits \<noteq> [] \<and> list_all is_digit digits
              then Some (rev (tl before), Some digits)
              else Some (hp, None))"

definition split_authority :: "string \<Rightarrow> (string option \<times> string option \<times> string option) option" where
  "split_authority auth =
     (if auth = [] then Some (None, None, None)
      else let at = dropWhile (\<lambda>c. c \<noteq> CHR ''@'') auth;
               uinfo = (if at \<noteq> [] then Some (takeWhile (\<lambda>c. c \<noteq> CHR ''@'') auth) else None);
               hp = (if at \<noteq> [] then tl at else auth)
           in case split_host_port hp of
                None \<Rightarrow> None
              | Some (host, port) \<Rightarrow> Some (uinfo, Some host, port))"

record uri_parts =
  pt_scheme :: "string option"
  pt_user_info :: "string option"
  pt_host :: "string option"
  pt_port :: "string option"
  pt_path :: string
  pt_query :: "string option"
  pt_fragment :: "string option"

definition split_tail :: "string \<Rightarrow> (string \<times> string option \<times> string option) option" where
  "split_tail p =
     (let path = takeWhile (\<lambda>c. c \<notin> set ''?#'') p; p1 = dropWhile (\<lambda>c. c \<notin> set ''?#'') p
      in if \<not> list_all is_path_character path then None
         else let has_query = (p1 \<noteq> [] \<and> hd p1 = CHR ''?'');
                  query = (if has_query then Some (takeWhile (\<lambda>c. c \<noteq> CHR ''#'') (tl p1)) else None);
                  p2 = (if has_query then dropWhile (\<lambda>c. c \<noteq> CHR ''#'') (tl p1) else p1);
                  fragment = (if p2 \<noteq> [] \<and> hd p2 = CHR ''#'' then Some (tl p2) else None)
              in Some (path, query, fragment))"

definition split_uri :: "string \<Rightarrow> uri_parts option" where
  "split_uri source =
     (let (scheme, p) = split_scheme source;
          has_authority = (take 2 p = ''//'');
          auth = (if has_authority then takeWhile (\<lambda>c. c \<notin> set ''/?#'') (drop 2 p) else []);
          p1 = (if has_authority then dropWhile (\<lambda>c. c \<notin> set ''/?#'') (drop 2 p) else p)
      in if \<not> list_all is_authority_character auth then None
         else case split_authority auth of
           None \<Rightarrow> None
         | Some (uinfo, host, port) \<Rightarrow>
             (case split_tail p1 of
                None \<Rightarrow> None
              | Some (path, query, fragment) \<Rightarrow>
                  Some \<lparr>pt_scheme = scheme, pt_user_info = uinfo, pt_host = host, pt_port = port, pt_path = path,
                    pt_query = query, pt_fragment = fragment\<rparr>))"

definition cleared :: "uri \<Rightarrow> uri" where
  "cleared u = u\<lparr>u_valid := True, u_scheme := [], u_user_info := [], u_host := [], u_port := [], u_path := [],
     u_raw_queries := [], u_fragment := [], u_queries := []\<rparr>"

definition host_and_family :: "string \<Rightarrow> address_family \<Rightarrow> string \<times> address_family" where
  "host_and_family host af =
     (if af = AF_UNIX then (host, af)
      else if length host \<ge> 2 \<and> hd host = CHR ''['' \<and> last host = CHR '']'' then (butlast (tl host), AF_INET6)
      else (host, if CHR '':'' \<in> set host then AF_INET6 else AF_INET))"

definition store_parts :: "uri_parts \<Rightarrow> uri \<Rightarrow> uri" where
  "store_parts pt u =
     (let scheme = (case pt_scheme pt of Some s \<Rightarrow> s | None \<Rightarrow> []);
          af = (if scheme = ''unix'' then AF_UNIX else u_af u);
          (host, af1) = (case pt_host pt of None \<Rightarrow> ([], af) | Some h \<Rightarrow> host_and_family h af);
          port = (case pt_port pt of
              Some p \<Rightarrow> p
            | None \<Rightarrow> if scheme \<noteq> [] then (case map_of default_ports scheme of Some p \<Rightarrow> p | None \<Rightarrow> []) else []);
          raw = (case pt_query pt of Some q \<Rightarrow> q | None \<Rightarrow> [])
      in u\<lparr>u_af := af1, u_scheme := scheme, u_user_info := (case pt_user_info pt of Some i \<Rightarrow> i | None \<Rightarrow> []),
           u_host := host, u_port := port, u_path := (if pt_path pt \<noteq> [] then pt_path pt else ''/''),
           u_raw_queries := raw, u_queries := parse_query_parameters raw (u_queries u),
           u_fragment := (case pt_fragment pt of Some f \<Rightarrow> f | None \<Rightarrow> [])\<rparr>)"

definition uri_parse :: "uri \<Rightarrow> uri" where
  "uri_parse u =
     (let u1 = cleared u
      in if u_source u1 = [] then u1\<lparr>u_path := ''/''\<rparr>
         else case split_uri (u_source u1) of
           None \<Rightarrow> u1\<lparr>u_valid := False\<rparr>
         | Some pt \<Rightarrow> store_parts pt u1)"

definition uri_of :: "string \<Rightarrow> address_family \<Rightarrow> uri" where
  "uri_of str af = uri_parse \<lparr>u_af = af, u_valid = True, u_source = str, u_scheme = [], u_user_info = [], u_host = [],
     u_port = [], u_path = [], u_raw_queries = [], u_fragment = [], u_queries = []\<rparr>"

definition uri_assign :: "string \<Rightarrow> uri \<Rightarrow> uri" where
  "uri_assign str u = uri_parse (u\<lparr>u_source := str\<rparr>)"

definition uri_copy :: "uri \<Rightarrow> uri \<Rightarrow> uri" where
  "uri_copy rhs u = uri_parse (u\<lparr>u_af := u_af rhs, u_source := u_source rhs\<rparr>)"

definition uri_query :: "string \<Rightarrow> nat \<Rightarrow> uri \<Rightarrow> string" where
  "uri_query name index u =
     (case icase_find name (u_queries u) of Some vs \<Rightarrow> if index < length vs then vs ! index else [] | None \<Rightarrow> [])"

definition uri_query_or :: "string \<Rightarrow> string \<Rightarrow> nat \<Rightarrow> uri \<Rightarrow> string" where
  "uri_query_or name fallback index u =
     (case icase_find name (u_queries u) of Some vs \<Rightarrow> if index < length vs then vs ! index else fallback | None \<Rightarrow> fallback)"

text \<open>\<open>u_port()\<close>; \<open>from_chars\<close> reads the longest decimal number and reports one that is no \<open>int\<close>.\<close>

definition from_chars :: "string \<Rightarrow> (int \<times> string) option" where
  "from_chars s =
     (let neg = (s \<noteq> [] \<and> hd s = CHR ''-''); ds = (if neg then tl s else s); digits = takeWhile is_digit ds;
          v = foldl (\<lambda>n c. 10 * n + int (of_char c - of_char (CHR ''0''))) 0 digits; n = (if neg then - v else v)
      in if digits = [] \<or> n < - (2 ^ 31) \<or> n \<ge> 2 ^ 31 then None else Some (n, drop (length digits) ds))"

definition u_port_number :: "uri \<Rightarrow> int" where
  "u_port_number u =
     (case from_chars (u_port u) of
        None \<Rightarrow> 0
      | Some (p, rest) \<Rightarrow> if rest \<noteq> [] \<or> p < 0 \<or> p > 65535 then 0 else p)"

definition is_valid_scheme :: "string \<Rightarrow> bool" where
  "is_valid_scheme scheme \<longleftrightarrow> scheme \<noteq> [] \<and> isalpha (hd scheme) \<and> list_all is_scheme_character scheme"

definition is_valid_host :: "string \<Rightarrow> bool" where
  "is_valid_host host \<longleftrightarrow> host \<noteq> [] \<and> list_all is_authority_character host"

section \<open>Path normalisation\<close>

function segments :: "string \<Rightarrow> string list" where
  "segments s =
     (let seg = takeWhile (\<lambda>c. c \<noteq> CHR ''/'') s; rest = dropWhile (\<lambda>c. c \<noteq> CHR ''/'') s;
          first = (if seg \<noteq> [] then [seg] else [])
      in if rest \<noteq> [] then first @ segments (tl rest) else first)"
  by pat_completeness auto
termination
proof (relation "measure length", goal_cases)
  case (2 s seg rest first)
  then have "0 < length rest" "length rest \<le> length s" using length_dropWhile_le by auto
  then show ?case unfolding in_measure length_tl by linarith
qed simp

declare segments.simps [simp del]

definition normalize_step :: "bool \<Rightarrow> string list \<Rightarrow> string \<Rightarrow> string list" where
  "normalize_step is_absolute normalized segment =
     (if segment = ''.'' then normalized
      else if segment = ''..''
      then (if normalized \<noteq> [] \<and> last normalized \<noteq> ''..'' then butlast normalized
            else if \<not> is_absolute then normalized @ [''..'']
            else normalized)
      else normalized @ [segment])"

fun join_path :: "string list \<Rightarrow> string" where
  "join_path [] = []"
| "join_path [s] = s"
| "join_path (s # ss) = s @ ''/'' @ join_path ss"

definition normalize_path :: "string \<Rightarrow> string" where
  "normalize_path path =
     (if path = [] then ''/''
      else let p = map (\<lambda>c. if c = CHR 0x5C then CHR ''/'' else c) path
           in if p = ''/'' \<or> p = ''.'' then ''/''
              else let is_absolute = (hd p = CHR ''/'');
                       normalized = foldl (normalize_step is_absolute) [] (segments (if is_absolute then tl p else p));
                       result = (if is_absolute then ''/'' else []) @ join_path normalized
                   in if result = [] \<and> is_absolute then ''/'' else result)"

text \<open>A list of segments that normalisation leaves alone.\<close>

definition plain_segment :: "string \<Rightarrow> bool" where
  "plain_segment s \<longleftrightarrow> s \<noteq> [] \<and> set s \<inter> {CHR ''/'', CHR 0x5C} = {}"

definition canonical :: "bool \<Rightarrow> string list \<Rightarrow> bool" where
  "canonical is_absolute ss \<longleftrightarrow> list_all plain_segment ss \<and> ''.'' \<notin> set ss \<and>
     (\<exists>k names. ss = replicate k ''..'' @ names \<and> ''..'' \<notin> set names \<and> (is_absolute \<longrightarrow> k = 0))"

lemma segments_no_slash: "CHR ''/'' \<notin> set s \<Longrightarrow> segments s = (if s \<noteq> [] then [s] else [])"
proof -
  assume s: "CHR ''/'' \<notin> set s"
  have t: "takeWhile (\<lambda>c. c \<noteq> CHR ''/'') s = s" by (rule span_all) (use s in auto)
  have d: "dropWhile (\<lambda>c. c \<noteq> CHR ''/'') s = []" by (rule span_all) (use s in auto)
  show ?thesis unfolding segments.simps [of s] t d Let_def by simp
qed

lemma segments_slash: "CHR ''/'' \<notin> set s \<Longrightarrow> segments (s @ CHR ''/'' # t) = (if s \<noteq> [] then [s] else []) @ segments t"
proof -
  assume s: "CHR ''/'' \<notin> set s"
  have tw: "takeWhile (\<lambda>c. c \<noteq> CHR ''/'') (s @ CHR ''/'' # t) = s" by (rule span_stop) (use s in auto)
  have dw: "dropWhile (\<lambda>c. c \<noteq> CHR ''/'') (s @ CHR ''/'' # t) = CHR ''/'' # t" by (rule span_stop) (use s in auto)
  show ?thesis unfolding segments.simps [of "s @ CHR ''/'' # t"] tw dw Let_def by simp
qed

lemma segments_plain: "CHR 0x5C \<notin> set s \<Longrightarrow> list_all plain_segment (segments s)"
proof (induction s rule: segments.induct)
  case (1 s)
  let ?seg = "takeWhile (\<lambda>c. c \<noteq> CHR ''/'') s" and ?rest = "dropWhile (\<lambda>c. c \<noteq> CHR ''/'') s"
  have "set ?seg \<inter> {CHR ''/'', CHR 0x5C} = {}" using 1(2) set_takeWhileD by fastforce
  moreover have "list_all plain_segment (segments (tl ?rest))" if ne: "?rest \<noteq> []"
  proof (rule 1(1) [OF refl refl refl ne])
    have "set (tl ?rest) \<subseteq> set s" using list.set_sel(2) [OF ne] set_dropWhileD by fast
    then show "CHR 0x5C \<notin> set (tl ?rest)" using 1(2) by blast
  qed
  ultimately show ?case by (subst segments.simps) (auto simp: Let_def plain_segment_def)
qed

lemma segments_join: "list_all plain_segment ss \<Longrightarrow> segments (join_path ss) = ss"
proof (induction ss rule: join_path.induct)
  case 1
  then show ?case by (subst segments.simps) simp
qed (auto simp: plain_segment_def segments_no_slash segments_slash)

lemma canonicalI:
  "ss = replicate k ''..'' @ names \<Longrightarrow> ''..'' \<notin> set names \<Longrightarrow> ab \<longrightarrow> k = 0 \<Longrightarrow> list_all plain_segment ss \<Longrightarrow>
     ''.'' \<notin> set ss \<Longrightarrow> canonical ab ss"
  unfolding canonical_def by blast

lemma normalize_step_canonical:
  assumes c: "canonical ab ss" and s: "plain_segment s"
  shows "canonical ab (normalize_step ab ss s)"
proof -
  obtain k names where ss: "ss = replicate k ''..'' @ names" "''..'' \<notin> set names" "ab \<longrightarrow> k = 0"
    "list_all plain_segment ss" "''.'' \<notin> set ss" using c unfolding canonical_def by blast
  have snoc: "canonical ab (ss @ [s])" if "s \<noteq> ''.''" "s \<noteq> ''..''"
    by (rule canonicalI [of _ k "names @ [s]"]) (use ss s that in auto)
  show ?thesis
  proof (cases "names = []")
    case True
    then have "last ss = ''..''" if "ss \<noteq> []" using ss(1) that by simp
    moreover have "canonical ab (ss @ [''..''])" if "\<not> ab"
      by (rule canonicalI [of _ "Suc k" "[]"]) (use ss True that in \<open>auto simp: replicate_append_same plain_segment_def\<close>)
    ultimately show ?thesis using c snoc by (auto simp: normalize_step_def)
  next
    case False
    then have l: "last ss \<noteq> ''..''" "ss \<noteq> []" using ss(1,2) last_in_set [OF False] by (metis last_appendR, simp)
    have "canonical ab (butlast ss)"
      by (rule canonicalI [of _ k "butlast names"])
        (use ss False in \<open>auto simp: butlast_append list_all_iff dest: in_set_butlastD\<close>)
    then show ?thesis using c l snoc by (auto simp: normalize_step_def)
  qed
qed

lemma normalize_fold_canonical:
  "list_all plain_segment ts \<Longrightarrow> canonical ab ss \<Longrightarrow> canonical ab (foldl (normalize_step ab) ss ts)"
  by (induction ts arbitrary: ss) (auto intro: normalize_step_canonical)

lemma normalize_fold_fixed:
  assumes "canonical ab ss"
  shows "foldl (normalize_step ab) [] ss = ss"
proof -
  obtain k names where ss: "ss = replicate k ''..'' @ names" "''..'' \<notin> set names" "ab \<longrightarrow> k = 0" "''.'' \<notin> set ss"
    using assms unfolding canonical_def by blast
  then have dot: "''.'' \<notin> set names" by simp
  have 1: "foldl (normalize_step ab) (replicate j ''..'') (replicate k ''..'') = replicate (j + k) ''..''" if "ab \<longrightarrow> k = 0" for j k
    using that
  proof (induction k arbitrary: j)
    case (Suc k)
    then have "normalize_step ab (replicate j ''..'') ''..'' = replicate (Suc j) ''..''"
      by (auto simp: normalize_step_def replicate_append_same last_replicate)
    then show ?case using Suc.IH [of "Suc j"] Suc.prems by simp
  qed simp
  have 2: "foldl (normalize_step ab) acc names = acc @ names" if "''..'' \<notin> set names" "''.'' \<notin> set names" for acc names
    using that by (induction names arbitrary: acc) (auto simp: normalize_step_def)
  show ?thesis using 1 [of k 0] ss 2 [OF ss(2) dot] by simp
qed

lemma join_path_chars: "c \<in> set (join_path ss) \<Longrightarrow> c = CHR ''/'' \<or> (\<exists>s \<in> set ss. c \<in> set s)"
  by (induction ss rule: join_path.induct) auto

lemma join_path_hd: "list_all plain_segment ss \<Longrightarrow> ss \<noteq> [] \<Longrightarrow> join_path ss \<noteq> [] \<and> hd (join_path ss) \<noteq> CHR ''/''"
  by (cases ss rule: join_path.cases) (auto simp: plain_segment_def dest: hd_in_set)

lemma no_backslash: "CHR 0x5C \<notin> set p \<Longrightarrow> map (\<lambda>c. if c = CHR 0x5C then CHR ''/'' else c) p = p"
  by (induction p) auto

lemma normalize_path_fixed:
  assumes c: "canonical ab ss" and ne: "(if ab then ''/'' else []) @ join_path ss \<noteq> []"
  shows "normalize_path ((if ab then ''/'' else []) @ join_path ss) = (if ab then ''/'' else []) @ join_path ss"
proof -
  let ?r = "(if ab then ''/'' else []) @ join_path ss"
  have ss: "list_all plain_segment ss" "''.'' \<notin> set ss" using c by (auto simp: canonical_def)
  have "CHR 0x5C \<notin> set (join_path ss)"
    using ss(1) join_path_chars [of "CHR 0x5C" ss] by (auto simp: list_all_iff plain_segment_def)
  then have m: "map (\<lambda>c. if c = CHR 0x5C then CHR ''/'' else c) ?r = ?r" by (intro no_backslash) simp
  have "?r \<noteq> ''.''"
  proof
    assume dot: "?r = ''.''"
    then have "join_path ss = ''.''" by (cases ab) auto
    then have "ss = segments ''.''" using segments_join [OF ss(1)] by simp
    then show False using ss(2) by (simp add: segments_no_slash)
  qed
  moreover have ab: "hd ?r = CHR ''/'' \<longleftrightarrow> ab"
    using ne join_path_hd [OF ss(1)] by (cases ab; cases "ss = []") auto
  moreover have "(if ab then tl ?r else ?r) = join_path ss" by simp
  moreover have "foldl (normalize_step ab) [] (segments (join_path ss)) = ss"
    using segments_join [OF ss(1)] normalize_fold_fixed [OF c] by simp
  ultimately show ?thesis unfolding normalize_path_def Let_def m using ne by (simp del: append_is_Nil_conv)
qed

lemma normalize_path_form:
  "\<exists>ss. canonical (path = [] \<or> path = ''.'' \<or> hd path \<in> {CHR ''/'', CHR 0x5C}) ss \<and>
     normalize_path path =
       (if path = [] \<or> path = ''.'' \<or> hd path \<in> {CHR ''/'', CHR 0x5C} then ''/'' else []) @ join_path ss"
proof (cases "path = [] \<or> path = ''.'' \<or> path \<in> {''/'', [CHR 0x5C]}")
  case True
  have "canonical True []" by (rule canonicalI [of _ 0 "[]"]) simp_all
  then show ?thesis using True by (intro exI [of _ "[]"]) (auto simp: normalize_path_def)
next
  case False
  define p where "p = map (\<lambda>c. if c = CHR 0x5C then CHR ''/'' else c) path"
  define ab where "ab = (hd p = CHR ''/'')"
  define ss where "ss = foldl (normalize_step ab) [] (segments (if ab then tl p else p))"
  have p: "p \<noteq> []" "p \<noteq> ''/''" "p \<noteq> ''.''" using False unfolding p_def by (auto split: if_splits)
  have ab: "ab \<longleftrightarrow> path = [] \<or> path = ''.'' \<or> hd path \<in> {CHR ''/'', CHR 0x5C}"
    using False unfolding ab_def p_def by (cases path) auto
  have "CHR 0x5C \<notin> set p" unfolding p_def by auto
  then have "CHR 0x5C \<notin> set (if ab then tl p else p)" using list.set_sel(2) [OF p(1), of "CHR 0x5C"] by (cases ab) auto
  then have "list_all plain_segment (segments (if ab then tl p else p))" by (rule segments_plain)
  moreover have "canonical ab []" by (rule canonicalI [of _ 0 "[]"]) simp_all
  ultimately have "canonical ab ss" unfolding ss_def by (rule normalize_fold_canonical)
  moreover have "normalize_path path = (if ab then ''/'' else []) @ join_path ss"
    using False p unfolding normalize_path_def p_def [symmetric] Let_def ab_def [symmetric] ss_def [symmetric] by auto
  ultimately show ?thesis unfolding ab [symmetric] by blast
qed


section \<open>Parsing inverts printing\<close>

text \<open>A URI with an authority written out from its components (RFC 3986, section 5.3), and components it can have.\<close>

definition print_authority :: "uri_parts \<Rightarrow> string" where
  "print_authority pt =
     (case pt_user_info pt of Some i \<Rightarrow> i @ ''@'' | None \<Rightarrow> []) @ (case pt_host pt of Some h \<Rightarrow> h | None \<Rightarrow> []) @
     (case pt_port pt of Some p \<Rightarrow> CHR '':'' # p | None \<Rightarrow> [])"

definition print_tail :: "uri_parts \<Rightarrow> string" where
  "print_tail pt =
     pt_path pt @ (case pt_query pt of Some q \<Rightarrow> CHR ''?'' # q | None \<Rightarrow> []) @
     (case pt_fragment pt of Some f \<Rightarrow> CHR ''#'' # f | None \<Rightarrow> [])"

definition uri_print :: "uri_parts \<Rightarrow> string" where
  "uri_print pt =
     (case pt_scheme pt of Some s \<Rightarrow> s @ '':'' | None \<Rightarrow> []) @ ''//'' @ print_authority pt @ print_tail pt"

definition reg_name :: "string \<Rightarrow> bool" where
  "reg_name h \<longleftrightarrow> h \<noteq> [] \<and> list_all (\<lambda>c. is_unreserved c \<or> is_sub_delim c \<or> c = CHR ''%'') h"

definition ip_literal :: "string \<Rightarrow> bool" where
  "ip_literal h \<longleftrightarrow> length h \<ge> 2 \<and> hd h = CHR ''['' \<and> last h = CHR '']'' \<and>
     list_all (\<lambda>c. is_unreserved c \<or> is_sub_delim c \<or> c = CHR '':'') (butlast (tl h))"

definition well_formed :: "uri_parts \<Rightarrow> bool" where
  "well_formed pt \<longleftrightarrow>
     pred_option is_valid_scheme (pt_scheme pt) \<and> pred_option (list_all is_user_info_character) (pt_user_info pt) \<and>
     pt_host pt \<noteq> None \<and> pred_option (\<lambda>h. reg_name h \<or> ip_literal h) (pt_host pt) \<and>
     pred_option (\<lambda>p. p \<noteq> [] \<and> list_all is_digit p) (pt_port pt) \<and>
     list_all is_path_character (pt_path pt) \<and> (pt_path pt = [] \<or> hd (pt_path pt) = CHR ''/'') \<and>
     pred_option (\<lambda>q. CHR ''#'' \<notin> set q) (pt_query pt)"

lemmas class_defs = is_user_info_character_def is_authority_character_def is_path_character_def is_unreserved_def
  is_alnum_def is_sub_delim_def is_digit_def is_scheme_character_def isalpha_def

lemma authority_stops: "is_authority_character c \<Longrightarrow> c \<notin> set ''/?#''"
  by (auto simp: class_defs less_eq_char_def)

lemma path_stops: "is_path_character c \<Longrightarrow> c \<notin> set ''?#''"
  by (auto simp: class_defs less_eq_char_def)

lemma name_stops: "is_unreserved c \<or> is_sub_delim c \<Longrightarrow> c \<notin> set ''@[]:/?#%''"
  by (auto simp: class_defs less_eq_char_def)

lemma digit_unreserved: "is_digit c \<Longrightarrow> is_unreserved c"
  by (auto simp: class_defs)

lemma scheme_stops: "is_scheme_character c \<Longrightarrow> c \<noteq> CHR '':''"
  by (auto simp: class_defs less_eq_char_def)

lemma span_tail:
  assumes "\<And>c. c \<in> set a \<Longrightarrow> P c" "t = [] \<or> \<not> P (hd t)"
  shows "takeWhile P (a @ t) = a" "dropWhile P (a @ t) = t"
  using assms span_all [of a P] span_stop [of a P "hd t" "tl t"] by (cases t; simp)+

lemma split_scheme_print:
  "is_valid_scheme s \<Longrightarrow> split_scheme (s @ CHR '':'' # t) = (Some s, t)" "split_scheme (CHR ''/'' # t) = (None, CHR ''/'' # t)"
proof -
  assume s: "is_valid_scheme s"
  then obtain c cs where cs: "s = c # cs" "isalpha c" "list_all is_scheme_character cs"
    by (cases s) (auto simp: is_valid_scheme_def)
  have "\<not> is_scheme_character (CHR '':'')" using scheme_stops by blast
  then have "takeWhile is_scheme_character (cs @ CHR '':'' # t) = cs"
    "dropWhile is_scheme_character (cs @ CHR '':'' # t) = CHR '':'' # t"
    using span_stop [of cs is_scheme_character "CHR '':''" t] cs(3) by (auto simp: list_all_iff)
  then show "split_scheme (s @ CHR '':'' # t) = (Some s, t)" using cs by (simp add: split_scheme_def)
next
  show "split_scheme (CHR ''/'' # t) = (None, CHR ''/'' # t)"
    by (simp add: split_scheme_def isalpha_def less_eq_char_def)
qed

lemma split_tail_print:
  assumes "well_formed pt"
  shows "split_tail (print_tail pt) = Some (pt_path pt, pt_query pt, pt_fragment pt)"
proof -
  let ?P = "\<lambda>c. c \<notin> set ''?#''"
  let ?f = "case pt_fragment pt of Some f \<Rightarrow> CHR ''#'' # f | None \<Rightarrow> []"
  let ?q = "(case pt_query pt of Some q \<Rightarrow> CHR ''?'' # q | None \<Rightarrow> []) @ ?f"
  have path: "list_all is_path_character (pt_path pt)" and q: "pred_option (\<lambda>q. CHR ''#'' \<notin> set q) (pt_query pt)"
    using assms by (auto simp: well_formed_def)
  have stop: "?q = [] \<or> \<not> ?P (hd ?q)" by (auto split: option.split)
  have tw: "takeWhile ?P (print_tail pt) = pt_path pt" "dropWhile ?P (print_tail pt) = ?q"
    unfolding print_tail_def by (rule span_tail; use path path_stops stop in \<open>auto simp: list_all_iff\<close>)+
  have "takeWhile (\<lambda>c. c \<noteq> CHR ''#'') (qs @ ?f) = qs \<and> dropWhile (\<lambda>c. c \<noteq> CHR ''#'') (qs @ ?f) = ?f"
    if "pt_query pt = Some qs" for qs
    using q that by (intro conjI span_tail) (auto split: option.split)
  then show ?thesis unfolding split_tail_def tw Let_def using path by (auto split: option.splits)
qed

lemma split_host_port_name:
  assumes "reg_name h" "pred_option (\<lambda>p. p \<noteq> [] \<and> list_all is_digit p) port"
  shows "split_host_port (h @ (case port of Some p \<Rightarrow> CHR '':'' # p | None \<Rightarrow> [])) = Some (h, port)"
proof -
  let ?P = "\<lambda>c. c \<noteq> CHR '':''"
  have h: "h \<noteq> []" using assms(1) by (simp add: reg_name_def)
  have hc: "c \<noteq> CHR ''[''" "c \<noteq> CHR '':''" if "c \<in> set h" for c
    using assms(1) that name_stops [of c] by (auto simp: reg_name_def list_all_iff)
  have hd: "hd h \<noteq> CHR ''[''" using hc [OF hd_in_set [OF h]] by simp
  show ?thesis
  proof (cases port)
    case None
    have "dropWhile ?P (rev h) = []" by (rule span_all) (use hc in auto)
    then show ?thesis using None h hd by (simp add: split_host_port_def)
  next
    case (Some p)
    then have p: "p \<noteq> []" "list_all is_digit p" using assms(2) by auto
    have "c \<noteq> CHR '':''" if "c \<in> set p" for c
      using p(2) that digit_unreserved [of c] name_stops [of c] by (auto simp: list_all_iff)
    then have "takeWhile ?P (rev p @ CHR '':'' # rev h) = rev p" "dropWhile ?P (rev p @ CHR '':'' # rev h) = CHR '':'' # rev h"
      by (rule span_stop; auto)+
    then show ?thesis using Some p h hd by (simp add: split_host_port_def)
  qed
qed

lemma ip_literal_form:
  assumes "ip_literal h"
  shows "h = CHR ''['' # butlast (tl h) @ [CHR '']'']"
proof -
  have "h = CHR ''['' # tl h" "tl h \<noteq> []" "last (tl h) = CHR '']''"
    using assms by (cases h; cases "tl h"; simp add: ip_literal_def)+
  then show ?thesis by (metis append_butlast_last_id)
qed

lemma split_host_port_literal:
  assumes "ip_literal h" "pred_option (\<lambda>p. p \<noteq> [] \<and> list_all is_digit p) port"
  shows "split_host_port (h @ (case port of Some p \<Rightarrow> CHR '':'' # p | None \<Rightarrow> [])) = Some (h, port)"
proof -
  let ?P = "\<lambda>c. c \<noteq> CHR '']''" and ?t = "case port of Some p \<Rightarrow> CHR '':'' # p | None \<Rightarrow> []"
  define inner where "inner = butlast (tl h)"
  have h: "h = CHR ''['' # inner @ [CHR '']'']" unfolding inner_def by (rule ip_literal_form [OF assms(1)])
  have "c \<noteq> CHR '']''" if "c \<in> set inner" for c
    using assms(1) that name_stops [of c] by (auto simp: ip_literal_def list_all_iff inner_def)
  then have "takeWhile ?P (inner @ CHR '']'' # ?t) = inner" "dropWhile ?P (inner @ CHR '']'' # ?t) = CHR '']'' # ?t"
    by (rule span_stop; auto)+
  then show ?thesis unfolding h using assms(2) by (cases port) (simp_all add: split_host_port_def)
qed

lemma split_authority_print:
  assumes "well_formed pt"
  shows "split_authority (print_authority pt) = Some (pt_user_info pt, pt_host pt, pt_port pt)"
    and "list_all is_authority_character (print_authority pt)"
proof -
  let ?P = "\<lambda>c. c \<noteq> CHR ''@''"
  obtain h where h: "pt_host pt = Some h" "reg_name h \<or> ip_literal h" using assms by (auto simp: well_formed_def)
  have port: "pred_option (\<lambda>p. p \<noteq> [] \<and> list_all is_digit p) (pt_port pt)"
    and info: "pred_option (list_all is_user_info_character) (pt_user_info pt)" using assms by (auto simp: well_formed_def)
  let ?hp = "h @ (case pt_port pt of Some p \<Rightarrow> CHR '':'' # p | None \<Rightarrow> [])"
  have hp: "split_host_port ?hp = Some (h, pt_port pt)"
    using h(2) split_host_port_name [OF _ port] split_host_port_literal [OF _ port] by blast
  have hc: "is_unreserved c \<or> is_sub_delim c \<or> c \<in> set ''%[]:''" if "c \<in> set h" for c
    using h(2)
  proof
    assume "ip_literal h"
    then have "set h = set (CHR ''['' # butlast (tl h) @ [CHR '']''])" using ip_literal_form by metis
    then have "c = CHR ''['' \<or> c \<in> set (butlast (tl h)) \<or> c = CHR '']''" using that by auto
    then show ?thesis using \<open>ip_literal h\<close> by (auto simp: ip_literal_def list_all_iff)
  qed (use that in \<open>auto simp: reg_name_def list_all_iff\<close>)
  have pc: "is_unreserved c \<or> c = CHR '':''" if "c \<in> set (case pt_port pt of Some p \<Rightarrow> CHR '':'' # p | None \<Rightarrow> [])" for c
    using port that digit_unreserved [of c] by (cases "pt_port pt") (auto simp: list_all_iff)
  have ic: "is_unreserved c \<or> is_sub_delim c \<or> c \<in> set ''%:''" if "pt_user_info pt = Some i" "c \<in> set i" for i c
    using info that by (auto simp: list_all_iff is_user_info_character_def)
  show "list_all is_authority_character (print_authority pt)"
    unfolding list_all_iff print_authority_def h(1)
  proof
    fix c
    assume "c \<in> set ((case pt_user_info pt of Some i \<Rightarrow> i @ ''@'' | None \<Rightarrow> []) @ (case Some h of Some h \<Rightarrow> h | None \<Rightarrow> []) @
      (case pt_port pt of Some p \<Rightarrow> CHR '':'' # p | None \<Rightarrow> []))"
    then show "is_authority_character c" using hc [of c] pc [of c] ic [of _ c]
      by (cases "pt_user_info pt") (auto simp: is_authority_character_def)
  qed
  have at: "c \<noteq> CHR ''@''" if "c \<in> set ?hp" for c
    using hc [of c] pc [of c] name_stops [of c] that by auto
  show "split_authority (print_authority pt) = Some (pt_user_info pt, pt_host pt, pt_port pt)"
  proof (cases "pt_user_info pt")
    case None
    have "dropWhile ?P ?hp = []" by (rule span_all) (use at in auto)
    moreover have "?hp \<noteq> []" using h(2) by (auto simp: reg_name_def ip_literal_def)
    ultimately show ?thesis using None h(1) hp unfolding split_authority_def print_authority_def by simp
  next
    case (Some i)
    have "c \<noteq> CHR ''@''" if "c \<in> set i" for c using ic [OF Some that] name_stops [of c] by auto
    then have "takeWhile ?P (i @ CHR ''@'' # ?hp) = i" "dropWhile ?P (i @ CHR ''@'' # ?hp) = CHR ''@'' # ?hp"
      by (rule span_stop; auto)+
    then show ?thesis using Some h(1) hp unfolding split_authority_def print_authority_def by simp
  qed
qed

lemma print_tail_start:
  assumes "well_formed pt"
  shows "print_tail pt = [] \<or> hd (print_tail pt) \<in> set ''/?#''"
  using assms unfolding well_formed_def print_tail_def
  by (cases "pt_path pt"; cases "pt_query pt"; cases "pt_fragment pt") auto

lemma split_uri_print:
  assumes "well_formed pt"
  shows "split_uri (uri_print pt) = Some pt"
proof -
  let ?P = "\<lambda>c. c \<notin> set ''/?#''" and ?a = "print_authority pt" and ?t = "print_tail pt"
  have s: "split_scheme (uri_print pt) = (pt_scheme pt, ''//'' @ ?a @ ?t)"
    using assms split_scheme_print unfolding uri_print_def well_formed_def by (cases "pt_scheme pt") auto
  have ac: "?P c" if "c \<in> set ?a" for c
    using split_authority_print(2) [OF assms] that by (intro authority_stops) (simp add: list_all_iff)
  have stop: "?t = [] \<or> \<not> ?P (hd ?t)" using print_tail_start [OF assms] by simp
  have tw: "takeWhile ?P (?a @ ?t) = ?a" "dropWhile ?P (?a @ ?t) = ?t" using span_tail [of ?a ?P ?t, OF ac stop] by auto
  have d: "take 2 (''//'' @ ?a @ ?t) = ''//''" "drop 2 (''//'' @ ?a @ ?t) = ?a @ ?t" by simp_all
  show ?thesis
    unfolding split_uri_def s prod.case Let_def d tw if_P [OF refl]
    using split_authority_print [OF assms] split_tail_print [OF assms] by simp
qed

lemma host_family_print:
  "reg_name h \<Longrightarrow> \<not> ip_literal h \<and> CHR '':'' \<notin> set h \<and> \<not> (length h \<ge> 2 \<and> hd h = CHR ''['')"
proof -
  assume h: "reg_name h"
  have hc: "c \<noteq> CHR ''[''" "c \<noteq> CHR '':''" if "c \<in> set h" for c
    using h that name_stops [of c] by (auto simp: reg_name_def list_all_iff)
  have "h \<noteq> []" using h by (simp add: reg_name_def)
  then have "hd h \<noteq> CHR ''[''" using hc(1) [OF hd_in_set] by simp
  then show ?thesis using hc(2) by (auto simp: ip_literal_def)
qed


definition example_uri :: uri_parts where
  "example_uri = \<lparr>pt_scheme = Some ''https'', pt_user_info = Some ''me'', pt_host = Some ''[::1]'', pt_port = None,
     pt_path = ''/a'', pt_query = Some ''K=a+b&k=%26&x='', pt_fragment = None\<rparr>"

lemma example_uri_well_formed: "well_formed example_uri"
  by (simp add: example_uri_def well_formed_def is_valid_scheme_def ip_literal_def class_defs less_eq_char_def)


section \<open>Query parameters\<close>

text \<open>A query written out from names and values.\<close>

definition print_parameter :: "string \<times> string \<Rightarrow> string" where
  "print_parameter kv = encode (fst kv) @ CHR ''='' # encode (snd kv)"

fun print_query :: "(string \<times> string) list \<Rightarrow> string" where
  "print_query [] = []"
| "print_query [kv] = print_parameter kv"
| "print_query (kv # kvs) = print_parameter kv @ CHR ''&'' # print_query kvs"

lemma hex_unreserved: "n < 16 \<Longrightarrow> is_unreserved (hex ! n)"
proof -
  assume "n < 16"
  moreover have "list_all (\<lambda>n. is_unreserved (hex ! n)) [0..<16]" by code_simp
  ultimately show ?thesis by (simp add: list_all_iff)
qed

lemma encode_chars: "c \<in> set (encode s) \<Longrightarrow> is_unreserved c \<or> c \<in> set ''%+''"
  using hex_unreserved by (auto simp: encode_def escape_def split: if_splits)

lemma encode_stops: "c \<in> set (encode s) \<Longrightarrow> c \<notin> set ''&=#''"
  using encode_chars [of c s] by (auto simp: class_defs less_eq_char_def)

lemma query_parameters_step:
  assumes "p \<noteq> []" "CHR ''&'' \<notin> set p" "t = [] \<or> hd t = CHR ''&''"
  shows "query_parameters (p @ t) =
    (decode (takeWhile (\<lambda>c. c \<noteq> CHR ''='') p), decode (drop 1 (dropWhile (\<lambda>c. c \<noteq> CHR ''='') p))) # query_parameters (drop 1 t)"
proof -
  have 1: "dropWhile (\<lambda>c. c = CHR ''&'') (p @ t) = p @ t" using assms(1,2) by (cases p) auto
  have 2: "takeWhile (\<lambda>c. c \<noteq> CHR ''&'') (p @ t) = p" "dropWhile (\<lambda>c. c \<noteq> CHR ''&'') (p @ t) = t"
    by (rule span_tail; use assms(2,3) in auto)+
  show ?thesis unfolding query_parameters.simps [of "p @ t"] 1 Let_def 2 using assms(1) by simp
qed

lemma parameter_step:
  assumes "t = [] \<or> hd t = CHR ''&''"
  shows "query_parameters (print_parameter kv @ t) = kv # query_parameters (drop 1 t)"
proof -
  have "CHR ''&'' \<notin> set (print_parameter kv)" using encode_stops [of "CHR ''&''"] by (auto simp: print_parameter_def)
  moreover have "takeWhile (\<lambda>c. c \<noteq> CHR ''='') (print_parameter kv) = encode (fst kv)"
    "dropWhile (\<lambda>c. c \<noteq> CHR ''='') (print_parameter kv) = CHR ''='' # encode (snd kv)"
    unfolding print_parameter_def by (rule span_stop; use encode_stops [of "CHR ''=''"] in auto)+
  moreover have "print_parameter kv \<noteq> []" by (simp add: print_parameter_def)
  ultimately show ?thesis using query_parameters_step [of "print_parameter kv" t] assms decode_encode by simp
qed

lemma query_parameters_print: "query_parameters (print_query kvs) = kvs"
proof (induction kvs rule: print_query.induct)
  case 1
  then show ?case by (subst query_parameters.simps) simp
next
  case (2 kv)
  then show ?case using parameter_step [of "[]" kv] by (simp add: query_parameters.simps [of "[]"])
next
  case (3 kv kv' kvs)
  then show ?case using parameter_step [of "CHR ''&'' # print_query (kv' # kvs)" kv] by simp
qed

lemma parameters_stored:
  "case_option [] id (map_of (fold (\<lambda>(key, value). icase_at [] key (\<lambda>vs. vs @ [value])) kvs m) name) =
     case_option [] id (map_of m name) @ map snd (filter (\<lambda>(key, _). to_lower key = name) kvs)"
proof (induction kvs arbitrary: m)
  case (Cons kv kvs)
  then show ?case by (cases kv) (auto simp: icase_at_def update_conv' split: option.split)
qed simp

text \<open>C21. Query parameters survive the round trip. Whatever names and values a query was written from, with
  repeated and differently cased names, empty strings and bytes of every kind among them, looking up a name in the
  parsed URI gives the values stored under it, upper and lower case not distinguished, in the order of the query;
  past the last value and for an absent name, the fallback.\<close>

theorem uri_query_round_trip:
  assumes "well_formed pt" "pt_query pt = Some (print_query kvs)"
  shows "let vs = map snd (filter (\<lambda>(key, _). to_lower key = to_lower name) kvs); u = uri_of (uri_print pt) af
    in uri_query_or name fallback i u = (if i < length vs then vs ! i else fallback) \<and>
       uri_query name i u = (if i < length vs then vs ! i else [])"
proof -
  have ne: "uri_print pt \<noteq> []" by (simp add: uri_print_def)
  have q: "u_queries (uri_of (uri_print pt) af) = fold (\<lambda>(key, value). icase_at [] key (\<lambda>vs. vs @ [value])) kvs []"
    using split_uri_print [OF assms(1)] ne assms(2)
    by (simp add: uri_of_def uri_parse_def cleared_def store_parts_def Let_def parse_query_parameters_def
        query_parameters_print split: prod.split)
  show ?thesis
    using parameters_stored [of kvs "[]" "to_lower name"] unfolding uri_query_def uri_query_or_def icase_find_def q Let_def
    by (auto split: option.split)
qed

theorem uri_query_round_trip_witness:
  "well_formed example_uri \<and> pt_query example_uri = Some (print_query [(''K'', ''a b''), (''k'', ''&''), (''x'', [])]) \<and>
   uri_query ''k'' 1 (uri_of (uri_print example_uri) AF_INET) = ''&'' \<and>
   uri_query_or ''y'' ''none'' 0 (uri_of (uri_print example_uri) AF_INET) = ''none''"
proof -
  have q: "pt_query example_uri = Some (print_query [(''K'', ''a b''), (''k'', ''&''), (''x'', [])])" by code_simp
  have l: "to_lower ''K'' = ''k''" "to_lower ''k'' = ''k''" "to_lower ''x'' = ''x''" "to_lower ''y'' = ''y''" by code_simp+
  show ?thesis
    using example_uri_well_formed q uri_query_round_trip [OF example_uri_well_formed q, of "''k''" AF_INET "[]" 1]
      uri_query_round_trip [OF example_uri_well_formed q, of "''y''" AF_INET "''none''" 0]
    by (simp add: Let_def l)
qed

end
