(* ===== verification/Spec2Isabelle.thy ===== *)
theory Spec2Isabelle
  imports Spsc_Ring Mpsc_Ring Spsc_Concurrent Spin_Lock Mpsc_Unbounded Pipe_Alloc Ring_Buffer Actor_Id
    Service_Id_Pool Event Router Engine Virtual_Core Startup Uri
begin

text \<open>
  A verification of the core of qb, a C++ actor framework. Paths below are relative to \<open>src/src/qb\<close>.

  \<^bold>\<open>The program.\<close> An engine (\<open>Main\<close>) runs one thread per core. Each thread owns a \<open>VirtualCore\<close>: its actors, the
  router of event types to their handlers, and one outbound pipe for every core. Actors put events into the pipes;
  a pass of the event loop flushes the pipes into the mailboxes of the other cores, which are lock-free rings with
  one producer per core, receives from its own mailbox and pipe, routes every event, runs the callbacks, and
  destroys the actors that were killed. URIs are a part of the I/O library that stands on its own.

  \<^bold>\<open>Containers.\<close>
  \<^item> \<open>Prelude\<close>: \<open>size_t\<close> arithmetic with its wrap, bounds-checked block memory, circular windows.
  \<^item> \<open>Spsc_Ring\<close> (\<open>system/lockfree/spsc.h\<close>): the single-producer ring, refined to a bounded list.
    \<open>Spsc_Concurrent\<close>: the same ring with every shared access a step of its own; FIFO order and absence of races
    under every interleaving.
  \<^item> \<open>Mpsc_Ring\<close> (\<open>system/lockfree/mpsc.h\<close>): the multi-producer ring, over the contract \<open>bounded_fifo\<close> of the
    single-producer one; no loss, order per producer, fairness of the copying consumer.
  \<^item> \<open>Spin_Lock\<close> (\<open>system/lockfree/spinlock.h\<close>): mutual exclusion, and the timed operations return.
  \<^item> \<open>Mpsc_Unbounded\<close> (\<open>system/lockfree/mpsc_unbounded_queue.h\<close>): FIFO order and memory safety under every
    interleaving.
  \<^item> \<open>Pipe_Alloc\<close> (\<open>system/allocator/pipe.h\<close>, \<open>io/pipe.cpp\<close>): the growable buffer with its growth policy and
    exceptions; the contract \<open>append_buffer\<close> is what its clients use.
  \<^item> \<open>Ring_Buffer\<close> (\<open>system/container/ring_buffer.h\<close>): refined to a bounded list, with the life time of elements.

  \<^bold>\<open>Addresses and events.\<close>
  \<^item> \<open>Actor_Id\<close> (\<open>core/ActorId.h\<close>, \<open>core/CoreSet.h\<close>): ids at their widths, core sets and the dense index.
  \<^item> \<open>Service_Id_Pool\<close> (\<open>core/VirtualCore.h\<close>): the bit set of free ids, refined to a set by the contract \<open>id_pool\<close>.
  \<^item> \<open>Event\<close> (\<open>core/Event.h\<close>, \<open>core/Pipe.h\<close>): the header word, type ids, service events, placement into a pipe.
  \<^item> \<open>Router\<close> (\<open>system/event/router.h\<close>): the four routers; subscriptions satisfy the contract
    \<open>subscription_table\<close>, dispatch runs the handlers subscribed at its start and destroys the event at most once.

  \<^bold>\<open>Engine and cores.\<close>
  \<^item> \<open>Engine\<close> (\<open>core/Main.h\<close>, \<open>core/Main.cpp\<close>, \<open>SharedCoreCommunication\<close>): a send stores the whole event or
    nothing; what is left in the mailboxes at the end is destroyed once.
  \<^item> \<open>Virtual_Core\<close> (\<open>core/VirtualCore.cpp\<close>): the state of a core, its event API, and the flush, which loses,
    duplicates and reorders nothing whatever the other cores do between two accesses.
  \<^item> \<open>Core_Actors\<close>, \<open>Core_Pointers\<close>, \<open>Core_Lifecycle\<close> (also \<open>core/Actor.h\<close>, \<open>core/Actor.cpp\<close>): subscriptions,
    callbacks, asks, creation, initialisation and removal of actors, with user code as arbitrary lists of API
    calls; the invariant that every pointer of a core leads to a live object with the id it is filed under.
  \<^item> \<open>Core_Loop\<close>, \<open>Core_Safety\<close>: the event loop with the gate in front of activating actors, and that it keeps the
    invariant.
  \<^item> \<open>Core_Start\<close>: construction, actor factories, the thread function; a core never follows a pointer to a
    destroyed actor, and the ids promised before the start are kept.
  \<^item> \<open>Startup\<close>: the engine object, the start barrier at the granularity of its atomic accesses, and signals.

  \<^bold>\<open>URIs.\<close>
  \<^item> \<open>Uri_Ports\<close>, \<open>Uri\<close> (\<open>io/uri.h\<close>, \<open>io/uri.cpp\<close>, and the case-insensitive map of
    \<open>system/container/unordered_map.h\<close>): encoding, parsing, query parameters and path normalisation, with the round
    trips of encoding, of whole URIs and of queries, and the normal form of paths.

  \<^bold>\<open>Conventions.\<close> A \<open>size_t\<close> is a natural number whose wrap is written out; header words and bit sets are machine
  words. An operation is \<^const>\<open>None\<close> where C++ leaves the behaviour undefined, or where an exception leaves a
  \<open>noexcept\<close> function; other exceptions are values. The order in which a hash map is traversed, the allocator, the
  clock, the steps of other cores and user code are parameters.

  \<^bold>\<open>Bounds.\<close> Loops over data are total functions. The loop of a core may run for ever by design: \<open>workflow\<close> takes the
  number of passes of the loop and of rounds of the shutdown drain, and its theorems hold for every number of both.
  The timed lock takes fuel, and every fuel beyond the number of clock readings before the deadline suffices.
  The destruction of killed actors has no bound: every round that goes on removes an actor.

  \<^bold>\<open>Memory model.\<close> Concurrent parts are interleavings of single shared accesses. For the single-producer ring this
  is justified by its release and acquire accesses together with the theorem that no slot is accessed by both
  threads at once; for the others it is an assumption of the model.

  \<^bold>\<open>Not modelled.\<close> The asynchronous I/O layer, coroutine frames, sockets, TLS and QUIC, and the fork of libev are
  operating-system and library calls; a core sees them through the run of the I/O loop and the verdict of an
  asynchronous \<open>onInit()\<close>, which are parameters. Cryptography, compression, JSON and logging wrap libraries whose
  behaviour the core does not depend on. The actor patterns are user-level templates over the modelled API.
  Thread creation, CPU affinity and signal installation are operating-system calls.
\<close>

end
